(* ===== verification/Prelude.thy ===== *)
theory Prelude
  imports Main "HOL-Library.Word" "HOL-Library.Monad_Syntax"
begin

text \<open>
  Shared vocabulary of the development: machine integer types, C buffers with
  checked reads and writes, counted loops, pointers into a buffer, and the rules by
  which every component reasons about them.

  A C array is a list whose length is the number of accessible cells. A read or write
  outside it is undefined behaviour in C; the model returns \<open>None\<close> there, so a theorem
  that an operation returns \<open>Some r\<close> also says that the operation stays inside its
  buffers. Functions that end the process with \<open>exit\<close> carry that outcome in a sum type
  of their own.
\<close>

unbundle bit_operations_syntax

type_synonym u8 = "8 word"
type_synonym s8 = "8 word"
type_synonym u16 = "16 word"
type_synonym u32 = "32 word"

named_theorems buf_simps \<open>evaluation of reads and writes that are in range\<close>

section \<open>Buffers\<close>

definition rd :: "'a list \<Rightarrow> nat \<Rightarrow> 'a option" where
  "rd xs i = (if i < length xs then Some (xs ! i) else None)"

definition wr :: "'a list \<Rightarrow> nat \<Rightarrow> 'a \<Rightarrow> 'a list option" where
  "wr xs i v = (if i < length xs then Some (xs[i := v]) else None)"

lemma rd_in [simp, buf_simps]: "i < length xs \<Longrightarrow> rd xs i = Some (xs ! i)"
  by (simp add: rd_def)

lemma rd_out [buf_simps]: "length xs \<le> i \<Longrightarrow> rd xs i = None"
  by (simp add: rd_def)

lemma wr_in [simp, buf_simps]: "i < length xs \<Longrightarrow> wr xs i v = Some (xs[i := v])"
  by (simp add: wr_def)

lemma wr_out [buf_simps]: "length xs \<le> i \<Longrightarrow> wr xs i v = None"
  by (simp add: wr_def)

lemma wr_length: "wr xs i v = Some ys \<Longrightarrow> length ys = length xs"
  by (auto simp: wr_def split: if_splits)

text \<open>
  \<open>with_ptr off f buf\<close> calls \<open>f\<close> with the pointer \<open>&buf[off]\<close>: the callee sees the cells
  from \<open>off\<close> on, and its writes land in the caller's buffer.
\<close>

definition with_ptr :: "nat \<Rightarrow> ('a list \<Rightarrow> 'a list option) \<Rightarrow> 'a list \<Rightarrow> 'a list option" where
  "with_ptr off f buf =
     (if off \<le> length buf then map_option (\<lambda>b. take off buf @ b) (f (drop off buf)) else None)"

lemma with_ptr_Some:
  "off \<le> length buf \<Longrightarrow> f (drop off buf) = Some b \<Longrightarrow> with_ptr off f buf = Some (take off buf @ b)"
  by (simp add: with_ptr_def)

section \<open>Counted loops\<close>

text \<open>
  \<open>foreach is body s\<close> runs the body for the successive values of the loop counter, in
  order, on the state \<open>s\<close> the loop mutates; it is undefined as soon as one iteration is.
\<close>

primrec foreach :: "'i list \<Rightarrow> ('i \<Rightarrow> 's \<Rightarrow> 's option) \<Rightarrow> 's \<Rightarrow> 's option" where
  "foreach [] f s = Some s"
| "foreach (i # is) f s = Option.bind (f i s) (foreach is f)"

lemma foreach_single [simp]: "foreach [i] f = f i"
  by (rule ext) (auto split: Option.bind_splits)

lemma foreach_append [simp]:
  "foreach (is @ js) f s = Option.bind (foreach is f s) (foreach js f)"
  by (induction "is" arbitrary: s) (auto split: Option.bind_splits)

lemma foreach_cong [fundef_cong]:
  "is = js \<Longrightarrow> s = t \<Longrightarrow> (\<And>i s. i \<in> set js \<Longrightarrow> f i s = g i s) \<Longrightarrow> foreach is f s = foreach js g t"
proof (induction js arbitrary: "is" s t)
  case Nil
  then show ?case by simp
next
  case (Cons j js)
  then have "foreach js f u = foreach js g u" for u by simp
  with Cons.prems show ?case by (auto intro: Option.bind_cong)
qed

text \<open>Loop rule: an invariant indexed by the counter, total (the loop is defined).\<close>

lemma foreach_upt_inv:
  assumes "m \<le> n" and "I m s"
    and "\<And>i s. m \<le> i \<Longrightarrow> i < n \<Longrightarrow> I i s \<Longrightarrow> \<exists>s'. f i s = Some s' \<and> I (Suc i) s'"
  shows "\<exists>s'. foreach [m..<n] f s = Some s' \<and> I n s'"
  using assms
proof (induction n)
  case 0
  then show ?case by simp
next
  case (Suc n)
  show ?case
  proof (cases "m \<le> n")
    case True
    with Suc obtain s' where "foreach [m..<n] f s = Some s'" "I n s'" by (metis less_SucI)
    moreover obtain s'' where "f n s' = Some s''" "I (Suc n) s''"
      using Suc.prems(3) [OF True _ \<open>I n s'\<close>] by blast
    ultimately show ?thesis using True by simp
  next
    case False
    with Suc.prems show ?thesis by (simp add: le_Suc_eq)
  qed
qed

text \<open>A loop whose body computes a total function of the state.\<close>

lemma foreach_total:
  "(\<And>i s. i \<in> set is \<Longrightarrow> f i s = Some (g i s)) \<Longrightarrow> foreach is f s = Some (fold g is s)"
  by (induction "is" arbitrary: s) auto

text \<open>The copy loops of the code: cell \<open>i\<close> of the output gets a value computed from \<open>i\<close>.\<close>

lemma foreach_write_prefix:
  assumes "n \<le> length ob"
  shows "foreach [0..<n] (\<lambda>i ob. wr ob i (g i)) ob = Some (map g [0..<n] @ drop n ob)"
  using assms
proof (induction n)
  case 0
  then show ?case by simp
next
  case (Suc n)
  then have "drop n ob = ob ! n # drop (Suc n) ob" by (simp add: Cons_nth_drop_Suc)
  with Suc show ?case by (simp add: list_update_append)
qed

lemma foreach_write_fun:
  assumes "n \<le> length ob"
    and "\<And>i b. i < n \<Longrightarrow> length b = length ob \<Longrightarrow> f i b = Some (b[i := g i])"
  shows "foreach [0..<n] f ob = Some (map g [0..<n] @ drop n ob)"
  using assms
proof (induction n)
  case 0
  then show ?case by simp
next
  case (Suc n)
  then have "drop n ob = ob ! n # drop (Suc n) ob" by (simp add: Cons_nth_drop_Suc)
  with Suc show ?case by (simp add: list_update_append)
qed

lemma foreach_map: "foreach (map g xs) f s = foreach xs (\<lambda>x. f (g x)) s"
  by (induction xs arbitrary: s) (auto split: Option.bind_splits)

text \<open>A run of consecutive cells from index \<open>i\<close> on.\<close>

lemma foreach_write_at:
  assumes "i + n \<le> length ob"
  shows "foreach [0..<n] (\<lambda>j ob. wr ob (i + j) (g j)) ob = Some (take i ob @ map g [0..<n] @ drop (i + n) ob)"
  using assms
proof (induction n)
  case 0
  then show ?case by simp
next
  case (Suc n)
  then have "drop (i + n) ob = ob ! (i + n) # drop (Suc (i + n)) ob" by (simp add: Cons_nth_drop_Suc)
  with Suc show ?case by (simp add: list_update_append)
qed

lemma foreach_write_overflow:
  assumes "i + k = length ob" and "k < n"
  shows "foreach [0..<n] (\<lambda>j ob. wr ob (i + j) (g j)) ob = None"
proof -
  have "foreach [0..<k] (\<lambda>j ob. wr ob (i + j) (g j)) ob = Some (take i ob @ map g [0..<k])"
    using assms(1) by (subst foreach_write_at) simp_all
  moreover have "[0..<n] = [0..<k] @ k # [Suc k..<n]"
    using assms(2) by (metis le0 less_imp_le_nat upt_add_eq_append upt_conv_Cons le_add_diff_inverse add_0)
  moreover have "wr (take i ob @ map g [0..<k]) (i + k) v = None" for v
    using assms(1) by (simp add: wr_def)
  ultimately show ?thesis by simp
qed

text \<open>
  The same with the writes at an arbitrary injective place \<open>p i\<close>, as in the
  permutation loops: a cell that some \<open>p i\<close> hits holds \<open>g i\<close>, the others are unchanged.
\<close>

lemma foreach_scatter:
  assumes "\<And>i. i < n \<Longrightarrow> p i < length ob" and "inj_on p {..<n}"
  shows "\<exists>ob'. foreach [0..<n] (\<lambda>i ob. wr ob (p i) (g i)) ob = Some ob' \<and> length ob' = length ob \<and>
           (\<forall>i<n. ob' ! p i = g i) \<and> (\<forall>k<length ob. k \<notin> p ` {..<n} \<longrightarrow> ob' ! k = ob ! k)"
  using assms
proof (induction n)
  case 0
  then show ?case by simp
next
  case (Suc n)
  then obtain b where b: "foreach [0..<n] (\<lambda>i ob. wr ob (p i) (g i)) ob = Some b"
    "length b = length ob" "\<forall>i<n. b ! p i = g i"
    "\<forall>k<length ob. k \<notin> p ` {..<n} \<longrightarrow> b ! k = ob ! k"
    by (auto simp: inj_on_def)
  have ne: "p i \<noteq> p n" "p n \<noteq> p i" if "i < n" for i
    using Suc.prems(2) that inj_onD [of p "{..<Suc n}" i n] inj_onD [of p "{..<Suc n}" n i] by auto
  have "p n < length ob" using Suc.prems(1) by simp
  with b ne show ?case
    by (auto simp: less_Suc_eq nth_list_update lessThan_Suc)
qed

lemma length_concat_blocks:
  "(\<And>k. k < n \<Longrightarrow> length (blk k) = w) \<Longrightarrow> length (concat (map blk [0..<n])) = w * n"
  by (induction n) auto

text \<open>Two nested loops over a block structure are one loop over the flat index.\<close>

lemma foreach_nested:
  "foreach [0..<n] (\<lambda>i. foreach [0..<m] (\<lambda>j. f (i * m + j))) s = foreach [0..<n * m] f s"
proof (induction n)
  case 0
  then show ?case by simp
next
  case (Suc n)
  have inner: "foreach [0..<k] (\<lambda>j. f (n * m + j)) u = foreach [n * m..<n * m + k] f u" for k u
    by (induction k) auto
  have "[0..<Suc n * m] = [0..<n * m] @ [n * m..<n * m + m]"
    using upt_add_eq_append [of 0 "n * m" m] by (simp only: mult_Suc add.commute [of m] le0)
  then have "foreach [0..<Suc n * m] f s = Option.bind (foreach [0..<n * m] f s) (foreach [n * m..<n * m + m] f)"
    by (simp only: foreach_append)
  also have "foreach [n * m..<n * m + m] f = foreach [0..<m] (\<lambda>j. f (n * m + j))"
    by (rule ext) (simp only: inner)
  finally show ?case using Suc by simp
qed

text \<open>A loop whose iteration \<open>k\<close> fills the block of \<open>w\<close> cells from \<open>w * k\<close> on.\<close>

lemma foreach_blocks:
  assumes "w * n \<le> length ob"
    and "\<And>k b. k < n \<Longrightarrow> length b = length ob \<Longrightarrow>
           f k b = Some (take (w * k) b @ blk k @ drop (w * k + w) b)"
    and "\<And>k. k < n \<Longrightarrow> length (blk k) = w"
  shows "foreach [0..<n] f ob = Some (concat (map blk [0..<n]) @ drop (w * n) ob)"
  using assms
proof (induction n)
  case 0
  then show ?case by simp
next
  case (Suc n)
  have len: "length (concat (map blk [0..<n])) = w * n"
    using Suc.prems(3) by (intro length_concat_blocks) simp
  then show ?case using Suc by (simp add: algebra_simps)
qed

lemma take_two_updates:
  "p + 2 \<le> length xs \<Longrightarrow> take (p + 2) (xs[p := a, p + 1 := b]) = take p xs @ [a, b]"
  by (simp add: take_Suc_conv_app_nth)

lemma two_updates:
  assumes "p + 2 \<le> length xs"
  shows "xs[p := a, p + 1 := b] = take p xs @ [a, b] @ drop (p + 2) xs"
proof -
  have "drop (p + 2) (xs[p := a, p + 1 := b]) = drop (p + 2) xs" by simp
  then show ?thesis
    using take_two_updates [OF assms, of a b] append_take_drop_id [of "p + 2" "xs[p := a, p + 1 := b]"] by simp
qed

lemma split_two_cells: "i + 2 \<le> length xs \<Longrightarrow> take i xs @ [xs ! i, xs ! (i + 1)] @ drop (i + 2) xs = xs"
  by (simp add: Cons_nth_drop_Suc)

lemma map_nth_segment: "n \<le> length xs \<Longrightarrow> map (\<lambda>i. xs ! i) [m..<n] = take (n - m) (drop m xs)"
  by (rule nth_equalityI) (auto simp: add.commute)

lemma map_nth_take: "n \<le> length xs \<Longrightarrow> map (\<lambda>i. xs ! i) [0..<n] = take n xs"
  by (rule nth_equalityI) auto

lemma map_nth_take_comp: "n \<le> length xs \<Longrightarrow> map (\<lambda>i. h (xs ! i)) [0..<n] = map h (take n xs)"
  by (rule nth_equalityI) auto

lemma xor_eq_0_iff: "(a :: 'a::len word) XOR b = 0 \<longleftrightarrow> a = b"
proof
  assume "a XOR b = 0"
  then have "(a XOR b) XOR b = 0 XOR b" by (rule arg_cong)
  then show "a = b" by (simp only: xor.assoc xor_self_eq xor.right_neutral xor.left_neutral)
qed simp

text \<open>Bits held in bytes.\<close>

abbreviation is_bits :: "u8 list \<Rightarrow> bool" where
  "is_bits bs \<equiv> set bs \<subseteq> {0, 1}"

lemma bit_cases: "(b::u8) \<in> {0, 1} \<Longrightarrow> (b = 0 \<Longrightarrow> P) \<Longrightarrow> (b = 1 \<Longrightarrow> P) \<Longrightarrow> P"
  by auto

lemma is_bits_nth: "is_bits bs \<Longrightarrow> i < length bs \<Longrightarrow> bs ! i = 0 \<or> bs ! i = 1"
  using nth_mem by fastforce

section \<open>Allocation of objects from a pool\<close>

text \<open>\<open>n\<close> successive calls of an allocator, with the ids they returned; \<open>Inl\<close> as soon as one fails.\<close>

primrec alloc_many :: "('p \<Rightarrow> 'e + nat \<times> 'p) \<Rightarrow> nat \<Rightarrow> 'p \<Rightarrow> 'e + nat list \<times> 'p" where
  "alloc_many alloc 0 p = Inr ([], p)"
| "alloc_many alloc (Suc n) p =
     (case alloc p of
        Inl e \<Rightarrow> Inl e
      | Inr (i, p') \<Rightarrow> (case alloc_many alloc n p' of Inl e \<Rightarrow> Inl e | Inr (is, p'') \<Rightarrow> Inr (i # is, p'')))"

text \<open>
  The contract of an allocator whose objects are never given back: it hands out a free
  object and fails only when none is left.
\<close>

locale allocator =
  fixes valid :: "'p \<Rightarrow> bool" and alloc :: "'p \<Rightarrow> 'e + nat \<times> 'p" and free :: "'p \<Rightarrow> nat set"
  assumes alloc_free: "valid p \<Longrightarrow> alloc p = Inr (i, q) \<Longrightarrow> valid q \<and> i \<in> free p \<and> free q = free p - {i}"
    and alloc_fail: "valid p \<Longrightarrow> alloc p = Inl e \<Longrightarrow> free p = {}"
    and free_finite: "finite (free p)"
begin

lemma many_distinct:
  "valid p \<Longrightarrow> alloc_many alloc n p = Inr (is, q) \<Longrightarrow>
   valid q \<and> length is = n \<and> distinct is \<and> set is \<subseteq> free p \<and> free q = free p - set is"
proof (induction n arbitrary: p "is" q)
  case 0
  then show ?case by simp
next
  case (Suc n)
  from Suc.prems(2) obtain i p' js where step: "alloc p = Inr (i, p')" "alloc_many alloc n p' = Inr (js, q)" "is = i # js"
    by (auto split: sum.splits prod.splits)
  from alloc_free [OF Suc.prems(1) step(1)] have "valid p'" "i \<in> free p" "free p' = free p - {i}" by auto
  with Suc.IH [OF _ step(2)] step(3) show ?case by auto
qed

lemma many_succeeds: "valid p \<Longrightarrow> n \<le> card (free p) \<Longrightarrow> \<exists>is q. alloc_many alloc n p = Inr (is, q)"
proof (induction n arbitrary: p)
  case 0
  then show ?case by simp
next
  case (Suc n)
  then obtain i p' where step: "alloc p = Inr (i, p')"
    using alloc_fail [of p] by (cases "alloc p") auto
  from alloc_free [OF Suc.prems(1) this] have p': "valid p'" "i \<in> free p" "free p' = free p - {i}" by auto
  then have "n \<le> card (free p')" using Suc.prems(2) free_finite [of p] by auto
  then obtain js q where "alloc_many alloc n p' = Inr (js, q)" using Suc.IH [OF p'(1)] by blast
  with step show ?case by simp
qed

lemma many_fails:
  assumes "valid p" and "card (free p) < n"
  shows "\<exists>e. alloc_many alloc n p = Inl e"
proof (rule ccontr)
  assume "\<not> ?thesis"
  then obtain "is" q where "alloc_many alloc n p = Inr (is, q)"
    by (cases "alloc_many alloc n p") auto
  from many_distinct [OF assms(1) this] have "n = card (set is)" "set is \<subseteq> free p"
    by (auto simp: distinct_card)
  with assms(2) card_mono [OF free_finite \<open>set is \<subseteq> free p\<close>] show False by simp
qed

end

section \<open>Decimal numbers\<close>

definition hex_digit_of :: "nat \<Rightarrow> char" where
  "hex_digit_of d = char_of (48 + d)"

text \<open>\<^verbatim>\<open>std::to_string\<close> of an unsigned number.\<close>

fun to_string :: "nat \<Rightarrow> string" where
  "to_string n = (if n < 10 then [hex_digit_of n] else to_string (n div 10) @ [hex_digit_of (n mod 10)])"

declare to_string.simps [simp del]

section \<open>Paths\<close>

text \<open>The part of a path behind the last slash, and a name without its extension.\<close>

definition after_last :: "char \<Rightarrow> string \<Rightarrow> string" where
  "after_last c s = rev (takeWhile (\<lambda>x. x \<noteq> c) (rev s))"

definition before_last :: "char \<Rightarrow> string \<Rightarrow> string" where
  "before_last c s = (if c \<in> set s then rev (tl (dropWhile (\<lambda>x. x \<noteq> c) (rev s))) else s)"

end
