(* ===== verification/Wifi_Common.thy ===== *)
theory Wifi_Common
  imports Prelude
begin

text \<open>
  The constants of \<^verbatim>\<open>common.h\<close> as the preprocessor resolves them, and the complex sample
  type \<^verbatim>\<open>comp_t\<close> of \<^verbatim>\<open>baseband_lib.h\<close>. The number type of a sample is a type variable:
  the framing code only copies samples, and the arithmetic code fixes it.
\<close>

abbreviation (input) SYM_NUM :: nat where "SYM_NUM \<equiv> 10"
abbreviation (input) USR_DAT_LEN :: nat where "USR_DAT_LEN \<equiv> 64"
abbreviation (input) SYM_BYTE_LEN :: nat where "SYM_BYTE_LEN \<equiv> 8"
abbreviation (input) SYM_BIT_LEN :: nat where "SYM_BIT_LEN \<equiv> 64"
abbreviation (input) MAX_VITERBI :: nat where "MAX_VITERBI \<equiv> 5"
abbreviation (input) CODE_BLOCK :: nat where "CODE_BLOCK \<equiv> 64"
abbreviation (input) OUT_RATE :: nat where "OUT_RATE \<equiv> 2"
abbreviation (input) ZERO_PADDING :: nat where "ZERO_PADDING \<equiv> 48"
abbreviation (input) INPUT_LEN :: nat where "INPUT_LEN \<equiv> 112"
abbreviation (input) OUTPUT_LEN :: nat where "OUTPUT_LEN \<equiv> 224"
abbreviation (input) FFT_N :: nat where "FFT_N \<equiv> 128"
abbreviation (input) PREAMBLE_LEN :: nat where "PREAMBLE_LEN \<equiv> 322"
abbreviation (input) CYC_LEN :: nat where "CYC_LEN \<equiv> 32"
abbreviation (input) PILOT_LEN :: nat where "PILOT_LEN \<equiv> 16"
abbreviation (input) TOTAL_LEN :: nat where "TOTAL_LEN \<equiv> 160"
abbreviation (input) TX_DATA_LEN :: nat where "TX_DATA_LEN \<equiv> 2500"

datatype entity_state = IDLE | BUSY

record 'f comp_t =
  real_part :: 'f
  imag_part :: 'f

lemma comp_assign [simp]: "(s :: 'f comp_t)\<lparr>real_part := real_part t, imag_part := imag_part t\<rparr> = t"
  by (cases s; cases t) simp

end
