(* ===== verification/Crc.thy ===== *)
theory Crc
  imports Wifi_Common
begin

text \<open>
  \<^verbatim>\<open>crc.c\<close>: the table-driven 16-bit CRC that protects a message. The table is copied from
  the source; that it is the table of the reflected polynomial \<open>0x8408\<close> is proved, not
  assumed.
\<close>

abbreviation (input) CRC_INIT :: u16 where "CRC_INIT \<equiv> 0xffff"
abbreviation (input) GOOD_CRC :: u16 where "GOOD_CRC \<equiv> 0xf0b8"

definition crc16_ccitt_table :: "u16 list" where
  "crc16_ccitt_table =
    [0x0000, 0x1189, 0x2312, 0x329b, 0x4624, 0x57ad, 0x6536, 0x74bf,
     0x8c48, 0x9dc1, 0xaf5a, 0xbed3, 0xca6c, 0xdbe5, 0xe97e, 0xf8f7,
     0x1081, 0x0108, 0x3393, 0x221a, 0x56a5, 0x472c, 0x75b7, 0x643e,
     0x9cc9, 0x8d40, 0xbfdb, 0xae52, 0xdaed, 0xcb64, 0xf9ff, 0xe876,
     0x2102, 0x308b, 0x0210, 0x1399, 0x6726, 0x76af, 0x4434, 0x55bd,
     0xad4a, 0xbcc3, 0x8e58, 0x9fd1, 0xeb6e, 0xfae7, 0xc87c, 0xd9f5,
     0x3183, 0x200a, 0x1291, 0x0318, 0x77a7, 0x662e, 0x54b5, 0x453c,
     0xbdcb, 0xac42, 0x9ed9, 0x8f50, 0xfbef, 0xea66, 0xd8fd, 0xc974,
     0x4204, 0x538d, 0x6116, 0x709f, 0x0420, 0x15a9, 0x2732, 0x36bb,
     0xce4c, 0xdfc5, 0xed5e, 0xfcd7, 0x8868, 0x99e1, 0xab7a, 0xbaf3,
     0x5285, 0x430c, 0x7197, 0x601e, 0x14a1, 0x0528, 0x37b3, 0x263a,
     0xdecd, 0xcf44, 0xfddf, 0xec56, 0x98e9, 0x8960, 0xbbfb, 0xaa72,
     0x6306, 0x728f, 0x4014, 0x519d, 0x2522, 0x34ab, 0x0630, 0x17b9,
     0xef4e, 0xfec7, 0xcc5c, 0xddd5, 0xa96a, 0xb8e3, 0x8a78, 0x9bf1,
     0x7387, 0x620e, 0x5095, 0x411c, 0x35a3, 0x242a, 0x16b1, 0x0738,
     0xffcf, 0xee46, 0xdcdd, 0xcd54, 0xb9eb, 0xa862, 0x9af9, 0x8b70,
     0x8408, 0x9581, 0xa71a, 0xb693, 0xc22c, 0xd3a5, 0xe13e, 0xf0b7,
     0x0840, 0x19c9, 0x2b52, 0x3adb, 0x4e64, 0x5fed, 0x6d76, 0x7cff,
     0x9489, 0x8500, 0xb79b, 0xa612, 0xd2ad, 0xc324, 0xf1bf, 0xe036,
     0x18c1, 0x0948, 0x3bd3, 0x2a5a, 0x5ee5, 0x4f6c, 0x7df7, 0x6c7e,
     0xa50a, 0xb483, 0x8618, 0x9791, 0xe32e, 0xf2a7, 0xc03c, 0xd1b5,
     0x2942, 0x38cb, 0x0a50, 0x1bd9, 0x6f66, 0x7eef, 0x4c74, 0x5dfd,
     0xb58b, 0xa402, 0x9699, 0x8710, 0xf3af, 0xe226, 0xd0bd, 0xc134,
     0x39c3, 0x284a, 0x1ad1, 0x0b58, 0x7fe7, 0x6e6e, 0x5cf5, 0x4d7c,
     0xc60c, 0xd785, 0xe51e, 0xf497, 0x8028, 0x91a1, 0xa33a, 0xb2b3,
     0x4a44, 0x5bcd, 0x6956, 0x78df, 0x0c60, 0x1de9, 0x2f72, 0x3efb,
     0xd68d, 0xc704, 0xf59f, 0xe416, 0x90a9, 0x8120, 0xb3bb, 0xa232,
     0x5ac5, 0x4b4c, 0x79d7, 0x685e, 0x1ce1, 0x0d68, 0x3ff3, 0x2e7a,
     0xe70e, 0xf687, 0xc41c, 0xd595, 0xa12a, 0xb0a3, 0x8238, 0x93b1,
     0x6b46, 0x7acf, 0x4854, 0x59dd, 0x2d62, 0x3ceb, 0x0e70, 0x1ff9,
     0xf78f, 0xe606, 0xd49d, 0xc514, 0xb1ab, 0xa022, 0x92b9, 0x8330,
     0x7bc7, 0x6a4e, 0x58d5, 0x495c, 0x3de3, 0x2c6a, 0x1ef1, 0x0f78]"

text \<open>One turn of the loop body: \<open>crc_reg = (crc_reg >> 8) ^ table[(crc_reg ^ *inbuff++) & 0xff]\<close>.\<close>

definition crc_step :: "u16 \<Rightarrow> u8 \<Rightarrow> u16 option" where
  "crc_step reg b = do {
     t \<leftarrow> rd crc16_ccitt_table (unat ((reg XOR ucast b) AND 0xff));
     Some (drop_bit 8 reg XOR t) }"

definition crc_ccitt :: "u8 list \<Rightarrow> u32 \<Rightarrow> u16 option" where
  "crc_ccitt inbuff len =
     foreach [0..<unat len] (\<lambda>i reg. do { b \<leftarrow> rd inbuff i; crc_step reg b }) CRC_INIT"

section \<open>The CRC as a fold\<close>

definition crc_tab :: "u16 \<Rightarrow> u16" where
  "crc_tab x = crc16_ccitt_table ! unat (x AND 0xff)"

definition crc_next :: "u16 \<Rightarrow> u8 \<Rightarrow> u16" where
  "crc_next reg b = drop_bit 8 reg XOR crc_tab (reg XOR ucast b)"

definition crc_of :: "u16 \<Rightarrow> u8 list \<Rightarrow> u16" where
  "crc_of reg bs = fold (\<lambda>b r. crc_next r b) bs reg"

lemma crc_of_simps [simp]:
  "crc_of reg [] = reg" "crc_of reg (b # bs) = crc_of (crc_next reg b) bs"
  "crc_of reg (bs @ cs) = crc_of (crc_of reg bs) cs"
  by (simp_all add: crc_of_def)

lemma crc_table_length: "length crc16_ccitt_table = 256"
  by (simp add: crc16_ccitt_table_def)

lemma low_byte_less: "unat ((x::u16) AND 0xff) < 256"
proof -
  have "unat (x AND 0xff) \<le> unat (0xff :: u16)"
    by (rule word_and_le1 [THEN word_le_nat_alt [THEN iffD1]])
  then show ?thesis by simp
qed

lemma crc_step_eq: "crc_step reg b = Some (crc_next reg b)"
  by (simp add: crc_step_def crc_next_def crc_tab_def crc_table_length low_byte_less)

lemma crc_ccitt_eq:
  assumes "unat len \<le> length bs"
  shows "crc_ccitt bs len = Some (crc_of CRC_INIT (take (unat len) bs))"
proof -
  have "foreach [0..<n] (\<lambda>i reg. do { b \<leftarrow> rd bs i; crc_step reg b }) r = Some (crc_of r (take n bs))"
    if "n \<le> length bs" for n r
    using that by (induction n) (auto simp: crc_step_eq take_Suc_conv_app_nth)
  then show ?thesis unfolding crc_ccitt_def using assms by blast
qed

section \<open>The table is the bit-serial CRC\<close>

text \<open>
  The specification: one bit of the reflected CRC with polynomial \<open>0x8408\<close>, and eight
  of them for a byte.
\<close>

definition crc_bit :: "u16 \<Rightarrow> u16" where
  "crc_bit x = (if bit x 0 then drop_bit 1 x XOR 0x8408 else drop_bit 1 x)"

definition crc_byte_serial :: "u16 \<Rightarrow> u8 \<Rightarrow> u16" where
  "crc_byte_serial reg b = (crc_bit ^^ 8) (reg XOR ucast b)"

lemma crc_bit_xor: "crc_bit (x XOR y) = crc_bit x XOR crc_bit y"
  by (rule bit_word_eqI) (auto simp add: crc_bit_def bit_simps)

lemma crc_bit_pow_xor: "(crc_bit ^^ n) (x XOR y) = (crc_bit ^^ n) x XOR (crc_bit ^^ n) y"
  by (induction n) (simp_all add: crc_bit_xor)

lemma crc_bit_pow_high:
  "(\<And>i. i < n \<Longrightarrow> \<not> bit x i) \<Longrightarrow> (crc_bit ^^ n) x = drop_bit n x"
proof (induction n)
  case 0
  then show ?case by simp
next
  case (Suc n)
  then have "(crc_bit ^^ Suc n) x = crc_bit (drop_bit n x)" by simp
  moreover have "\<not> bit (drop_bit n x) 0" using Suc.prems [of n] by (simp only: bit_drop_bit_eq o_apply) simp
  ultimately show ?case by (simp only: crc_bit_def [of "drop_bit n x"] if_False drop_bit_drop_bit plus_1_eq_Suc)
qed

text \<open>The 256 entries are evaluated on natural numbers, where ground terms compute by \<open>simp\<close>.\<close>

definition crc_bit_nat :: "nat \<Rightarrow> nat" where
  "crc_bit_nat n = (if odd n then (n div 2) XOR 0x8408 else n div 2)"

definition crc_byte_nat :: "nat \<Rightarrow> nat" where
  "crc_byte_nat n = crc_bit_nat (crc_bit_nat (crc_bit_nat (crc_bit_nat
     (crc_bit_nat (crc_bit_nat (crc_bit_nat (crc_bit_nat n)))))))"

lemma crc_bit_nat: "unat (crc_bit x) = crc_bit_nat (unat x)"
proof -
  have "odd (unat x) = bit (unat x) 0" by (simp add: bit_0)
  also have "\<dots> = bit x 0" by (simp add: bit_unsigned_iff)
  finally show ?thesis
    by (simp add: crc_bit_def crc_bit_nat_def unsigned_xor_eq unat_div drop_bit_eq_div)
qed

lemma crc_byte_nat: "unat ((crc_bit ^^ 8) x) = crc_byte_nat (unat x)"
  by (simp add: crc_byte_nat_def crc_bit_nat numeral_eq_Suc del: One_nat_def)

lemma upt_256: "[0..<256] =
    [0, 1, 2, 3, 4, 5, 6, 7, 8, 9, 10, 11, 12, 13, 14, 15, 16, 17, 18, 19, 20, 21, 22, 23, 24,
     25, 26, 27, 28, 29, 30, 31, 32, 33, 34, 35, 36, 37, 38, 39, 40, 41, 42, 43, 44, 45, 46,
     47, 48, 49, 50, 51, 52, 53, 54, 55, 56, 57, 58, 59, 60, 61, 62, 63, 64, 65, 66, 67, 68,
     69, 70, 71, 72, 73, 74, 75, 76, 77, 78, 79, 80, 81, 82, 83, 84, 85, 86, 87, 88, 89, 90,
     91, 92, 93, 94, 95, 96, 97, 98, 99, 100, 101, 102, 103, 104, 105, 106, 107, 108, 109, 110,
     111, 112, 113, 114, 115, 116, 117, 118, 119, 120, 121, 122, 123, 124, 125, 126, 127, 128,
     129, 130, 131, 132, 133, 134, 135, 136, 137, 138, 139, 140, 141, 142, 143, 144, 145, 146,
     147, 148, 149, 150, 151, 152, 153, 154, 155, 156, 157, 158, 159, 160, 161, 162, 163, 164,
     165, 166, 167, 168, 169, 170, 171, 172, 173, 174, 175, 176, 177, 178, 179, 180, 181, 182,
     183, 184, 185, 186, 187, 188, 189, 190, 191, 192, 193, 194, 195, 196, 197, 198, 199, 200,
     201, 202, 203, 204, 205, 206, 207, 208, 209, 210, 211, 212, 213, 214, 215, 216, 217, 218,
     219, 220, 221, 222, 223, 224, 225, 226, 227, 228, 229, 230, 231, 232, 233, 234, 235, 236,
     237, 238, 239, 240, 241, 242, 243, 244, 245, 246, 247, 248, 249, 250, 251, 252, 253, 254,
     255]"
  by (simp add: upt_rec)

lemma crc_table_nat: "map crc_byte_nat [0..<256] = map unat crc16_ccitt_table"
  unfolding upt_256 by (simp add: crc_byte_nat_def crc_bit_nat_def crc16_ccitt_table_def)

lemma crc_table_nth:
  assumes "i < 256"
  shows "crc16_ccitt_table ! i = (crc_bit ^^ 8) (word_of_nat i)"
proof -
  have "unat (crc16_ccitt_table ! i) = map unat crc16_ccitt_table ! i"
    using assms by (simp add: crc_table_length)
  also have "\<dots> = crc_byte_nat i"
    using assms by (simp add: crc_table_nat [symmetric])
  also have "\<dots> = unat ((crc_bit ^^ 8) (word_of_nat i :: u16))"
    using assms by (simp add: crc_byte_nat unat_of_nat del: funpow.simps)
  finally show ?thesis by (simp only: word_unat_eq_iff)
qed

lemma crc_tab_serial: "crc_tab x = (crc_bit ^^ 8) (x AND 0xff)"
  by (simp add: crc_tab_def crc_table_nth low_byte_less del: funpow.simps)

lemma crc_next_serial: "crc_next reg b = crc_byte_serial reg b"
proof -
  let ?x = "reg XOR ucast b"
  have m: "(0xff :: u16) = mask 8" by (simp add: mask_numeral)
  have split: "?x = (?x AND 0xff) XOR (?x AND NOT 0xff)"
    by (rule bit_word_eqI) (auto simp: bit_simps m)
  have "(crc_bit ^^ 8) (?x AND NOT 0xff) = drop_bit 8 (?x AND NOT 0xff)"
    by (rule crc_bit_pow_high) (simp add: bit_simps m)
  also have "\<dots> = drop_bit 8 reg"
    by (rule bit_word_eqI) (auto simp add: bit_simps m dest: bit_imp_le_length)
  finally show ?thesis
    unfolding crc_next_def crc_byte_serial_def crc_tab_serial
    using crc_bit_pow_xor [of 8 "?x AND 0xff" "?x AND NOT 0xff"] split
    by (metis xor.commute)
qed

lemma crc_of_serial: "crc_of reg bs = fold (\<lambda>b r. crc_byte_serial r b) bs reg"
  by (simp add: crc_of_def crc_next_serial)

section \<open>Error detection\<close>

lemma mask8: "(0xff :: u16) = mask 8"
  by (simp add: mask_numeral)

lemma mask16: "(0xffff :: u16) = mask 16"
  by (simp add: mask_numeral)

lemma crc_table_high: "list_all (\<lambda>x. drop_bit 8 x \<noteq> 0) (tl crc16_ccitt_table)"
  by (simp add: crc16_ccitt_table_def)

lemma crc_tab_high_zero:
  assumes "drop_bit 8 (crc_tab x) = 0"
  shows "x AND 0xff = 0"
proof (rule ccontr)
  let ?i = "unat (x AND 0xff)"
  assume "x AND 0xff \<noteq> 0"
  then have "0 < ?i" by (simp add: unat_gt_0)
  moreover have "?i < 256" by (rule low_byte_less)
  ultimately have "crc16_ccitt_table ! ?i \<in> set (tl crc16_ccitt_table)"
    by (metis One_nat_def Suc_less_eq Suc_pred crc_table_length length_tl nth_mem nth_tl numeral_eq_Suc pred_numeral_simps(2) diff_Suc_1 less_diff_conv)
  then show False using assms crc_table_high by (simp add: list_all_iff crc_tab_def)
qed

lemma crc_tab_xor: "crc_tab x XOR crc_tab y = crc_tab (x XOR y)"
  by (simp only: crc_tab_serial bit.conj_xor_distrib2 crc_bit_pow_xor)

lemma crc_tab_high_inj:
  assumes "drop_bit 8 (crc_tab x) = drop_bit 8 (crc_tab y)"
  shows "x AND 0xff = y AND 0xff"
proof -
  have "drop_bit 8 (crc_tab (x XOR y)) = 0"
    using assms by (simp only: crc_tab_xor [symmetric] drop_bit_xor xor_self_eq)
  from crc_tab_high_zero [OF this] have "(x AND 0xff) XOR (y AND 0xff) = 0"
    by (simp only: bit.conj_xor_distrib2)
  then show ?thesis by (simp only: xor_eq_0_iff)
qed

lemma crc_next_inj:
  assumes "crc_next r b = crc_next r' b'"
  shows "(r XOR ucast b) AND 0xff = (r' XOR ucast b') AND 0xff" and "drop_bit 8 r = drop_bit 8 r'"
proof -
  have hi: "drop_bit 8 (crc_next q c) = drop_bit 8 (crc_tab (q XOR ucast c))" for q c
    by (rule bit_word_eqI) (auto simp: crc_next_def bit_simps dest: bit_imp_le_length)
  from assms have "drop_bit 8 (crc_next r b) = drop_bit 8 (crc_next r' b')" by simp
  then show ix: "(r XOR ucast b) AND 0xff = (r' XOR ucast b') AND 0xff"
    unfolding hi by (rule crc_tab_high_inj)
  let ?t = "crc16_ccitt_table ! unat ((r' XOR ucast b') AND 0xff)"
  from assms have "drop_bit 8 r XOR ?t = drop_bit 8 r' XOR ?t"
    by (simp only: crc_next_def crc_tab_def ix)
  then have "(drop_bit 8 r XOR ?t) XOR ?t = (drop_bit 8 r' XOR ?t) XOR ?t" by (rule arg_cong)
  then show "drop_bit 8 r = drop_bit 8 r'" by (simp only: xor.assoc xor_self_eq xor.right_neutral)
qed

lemma crc_next_inj_byte: "crc_next r b = crc_next r b' \<Longrightarrow> b = b'"
proof -
  assume "crc_next r b = crc_next r b'"
  then have ix: "(r XOR ucast b) AND 0xff = (r XOR ucast b') AND 0xff" by (rule crc_next_inj)
  show "b = b'"
  proof (rule bit_word_eqI)
    fix n
    assume "n < LENGTH(8)"
    then show "bit b n = bit b' n"
      using arg_cong [OF ix, of "\<lambda>w. bit w n"] by (auto simp: mask8 bit_simps)
  qed
qed

lemma crc_next_inj_reg: "crc_next r b = crc_next r' b \<Longrightarrow> r = r'"
proof -
  assume eq: "crc_next r b = crc_next r' b"
  note ix = crc_next_inj(1) [OF eq] and hi = crc_next_inj(2) [OF eq]
  show "r = r'"
  proof (rule bit_word_eqI)
    fix n
    assume n: "n < LENGTH(16)"
    show "bit r n = bit r' n"
    proof (cases "n < 8")
      case True
      then show ?thesis using arg_cong [OF ix, of "\<lambda>w. bit w n"] by (auto simp: mask8 bit_simps)
    next
      case False
      then show ?thesis using arg_cong [OF hi, of "\<lambda>w. bit w (n - 8)"] by (simp add: bit_simps)
    qed
  qed
qed

lemma crc_of_inj_reg: "crc_of r bs = crc_of r' bs \<Longrightarrow> r = r'"
  by (induction bs arbitrary: r r') (auto dest: crc_next_inj_reg)

text \<open>Two adjacent bytes are determined by the CRC of the whole, given the rest.\<close>

lemma crc_burst_inj:
  assumes "crc_of r (pre @ [a, b] @ suf) = crc_of r (pre @ [a', b'] @ suf)"
  shows "a = a' \<and> b = b'"
proof -
  let ?q = "crc_of r pre"
  from assms have "crc_next (crc_next ?q a) b = crc_next (crc_next ?q a') b'"
    by (simp add: crc_of_inj_reg)
  note two = this and hi = crc_next_inj(2) [OF this]
  have top: "drop_bit 8 (crc_next ?q c) = drop_bit 8 (crc_tab (?q XOR ucast c))" for c
    by (rule bit_word_eqI) (auto simp: crc_next_def bit_simps dest: bit_imp_le_length)
  have "(?q XOR ucast a) AND 0xff = (?q XOR ucast a') AND 0xff"
    using hi unfolding top by (rule crc_tab_high_inj)
  then have "crc_next ?q a = crc_next ?q a'" by (simp add: crc_next_def crc_tab_def)
  then have "a = a'" by (rule crc_next_inj_byte)
  with two show ?thesis by (auto dest: crc_next_inj_byte)
qed

text \<open>
  The trailer the sender appends: the complemented register, low byte first
  (\<^verbatim>\<open>txData.c\<close>). Over payload and trailer the register ends at \<^verbatim>\<open>GOOD_CRC\<close>.
\<close>

definition crc_trailer :: "u16 \<Rightarrow> u8 list" where
  "crc_trailer crc = (let c = crc XOR 0xffff in [ucast (c AND 0x00ff), ucast (drop_bit 8 c AND 0x00ff)])"

lemma crc_residue: "crc_of r (bs @ crc_trailer (crc_of r bs)) = GOOD_CRC"
proof -
  let ?c = "crc_of r bs"
  let ?lo = "ucast ((?c XOR 0xffff) AND 0xff) :: u8"
  let ?hi = "ucast (drop_bit 8 (?c XOR 0xffff) AND 0xff) :: u8"
  have i1: "(?c XOR ucast ?lo) AND 0xff = 0xff"
    by (rule bit_word_eqI) (auto simp: mask8 mask16 bit_simps)
  have s1: "crc_next ?c ?lo = drop_bit 8 ?c XOR 0x0f78"
    by (simp add: crc_next_def crc_tab_def i1) (simp add: crc16_ccitt_table_def)
  have "(drop_bit 8 ?c XOR ucast ?hi) AND 0xff = 0xff"
    by (rule bit_word_eqI) (auto simp: mask8 mask16 bit_simps)
  then have "((drop_bit 8 ?c XOR ucast ?hi) AND 0xff) XOR (0x0f78 AND 0xff) = 0x87" by simp
  then have i2: "((drop_bit 8 ?c XOR 0x0f78) XOR ucast ?hi) AND 0xff = 0x87"
    by (simp only: bit.conj_xor_distrib2 xor.assoc xor.commute [of "0x0f78 AND 0xff"])
  have "drop_bit 8 (drop_bit 8 ?c) = 0"
    by (rule bit_word_eqI) (auto simp: bit_simps dest: bit_imp_le_length)
  then have d: "drop_bit 8 (drop_bit 8 ?c XOR 0x0f78) = (0x0f :: u16)"
    by (simp only: drop_bit_xor) simp
  have "crc_tab ((drop_bit 8 ?c XOR 0x0f78) XOR ucast ?hi) = crc16_ccitt_table ! unat (0x87 :: u16)"
    by (simp only: crc_tab_def i2)
  then have "crc_next (crc_next ?c ?lo) ?hi = 0x0f XOR crc16_ccitt_table ! unat (0x87 :: u16)"
    by (simp only: s1 crc_next_def [of _ ?hi] d)
  also have "\<dots> = GOOD_CRC" by (simp add: crc16_ccitt_table_def)
  finally show ?thesis by (simp add: crc_trailer_def Let_def)
qed

text \<open>
  C35: the table-driven routine computes the bit-serial CRC with polynomial \<open>0x8408\<close> of
  the first \<open>len\<close> bytes, and reads nothing beyond them.
\<close>

theorem crc_ccitt_bit_serial:
  assumes "unat len \<le> length bs"
  shows "crc_ccitt bs len = Some (fold (\<lambda>b r. crc_byte_serial r b) (take (unat len) bs) CRC_INIT)"
  using crc_ccitt_eq [OF assms] by (simp add: crc_of_serial)

theorem crc_ccitt_bit_serial_witness:
  "crc_ccitt [0x31, 0x32, 0x33] 2 = Some (fold (\<lambda>b r. crc_byte_serial r b) [0x31, 0x32] CRC_INIT)"
  using crc_ccitt_bit_serial [of 2 "[0x31, 0x32, 0x33]"] by simp

end
