(* ===== verification/Message.thy ===== *)
theory Message
  imports Crc
begin

text \<open>
  \<^verbatim>\<open>txData.c\<close> builds the 640 data bits of a frame: destination, sequence number, text and
  CRC, bit by bit with the high bit first. \<^verbatim>\<open>decode.c\<close> rebuilds the bytes and checks them.
  What the program prints is left out, except that the receiver's verdict and the text it
  prints are its result.
\<close>

section \<open>Sender: \<^verbatim>\<open>txDataGen\<close>\<close>

text \<open>\<^verbatim>\<open>for(j=0; j<n; j++) txBuf[i++] = c + j;\<close> from index \<open>i\<close> on.\<close>

definition put_run :: "nat \<Rightarrow> nat \<Rightarrow> u8 \<Rightarrow> u8 list \<Rightarrow> u8 list option" where
  "put_run i n c buf = foreach [0..<n] (\<lambda>j b. wr b (i + j) (c + of_nat j)) buf"

text \<open>
  \<^verbatim>\<open>gets(&txBuf[2])\<close>: \<open>None\<close> is end of input (the buffer is unchanged), \<open>Some l\<close> a line
  without its newline, stored with a terminating zero and with no regard to the buffer's end.
\<close>

definition gets_at :: "nat \<Rightarrow> u8 list option \<Rightarrow> u8 list \<Rightarrow> u8 list option" where
  "gets_at i line buf =
     (case line of
        None \<Rightarrow> Some buf
      | Some l \<Rightarrow> do {
          b \<leftarrow> foreach [0..<length l] (\<lambda>j b. wr b (i + j) (l ! j)) buf;
          wr b (i + length l) 0 })"

definition fill_txBuf :: "int \<Rightarrow> u8 list option \<Rightarrow> u8 list option" where
  "fill_txBuf option line = do {
     buf \<leftarrow> wr (replicate 1024 0) 0 0;
     buf \<leftarrow> wr buf 1 0;
     if option = 0 then do {
       buf \<leftarrow> put_run 2 26 97 buf;
       buf \<leftarrow> put_run 28 26 65 buf;
       buf \<leftarrow> put_run 54 10 48 buf;
       buf \<leftarrow> put_run 64 26 97 buf;
       buf \<leftarrow> put_run 90 26 65 buf;
       put_run 116 10 48 buf }
     else gets_at 2 line buf }"

definition txDataGen ::
  "int \<Rightarrow> u8 list option \<Rightarrow> u8 list \<Rightarrow> int \<Rightarrow> (u8 list \<times> int) option" where
  "txDataGen option line inbit symNum = do {
     let dataLen = 64 * symNum;
     let payloadLen = dataLen div 8 - 2;
     buf \<leftarrow> fill_txBuf option line;
     crc \<leftarrow> crc_ccitt buf (word_of_int payloadLen);
     let tx_crc = crc XOR 0xffff;
     buf \<leftarrow> wr buf (nat payloadLen) (ucast (tx_crc AND 0x00ff));
     buf \<leftarrow> wr buf (nat payloadLen + 1) (ucast (drop_bit 8 tx_crc AND 0x00ff));
     inbit \<leftarrow> foreach [0..<nat symNum] (\<lambda>i. foreach [0..<SYM_BYTE_LEN] (\<lambda>j inbit. do {
         ch \<leftarrow> rd buf (i * SYM_BYTE_LEN + j);
         foreach (rev [0..<8]) (\<lambda>k inbit.
           wr inbit ((i * SYM_BYTE_LEN + j) * 8 + 7 - k) (drop_bit k ch AND 0x1)) inbit })) inbit;
     Some (inbit, dataLen) }"

section \<open>Receiver: \<^verbatim>\<open>messagedecoder\<close>\<close>

text \<open>The early returns and the \<^verbatim>\<open>exit(1)\<close> of the code, and delivery of a message.\<close>

datatype rx_verdict =
    CrcError
  | NotMyPacket
  | DuplicateExit
  | Delivered u8 u8 "u8 list"

definition myId :: u8 where "myId = 0"

definition rx_byte :: "u8 list \<Rightarrow> nat \<Rightarrow> u8 option" where
  "rx_byte buf i = foreach [0..<8] (\<lambda>j ch. do { x \<leftarrow> rd buf (i * 8 + j); Some (push_bit 1 ch + x) }) 0"

definition messagedecoder :: "u8 list \<Rightarrow> rx_verdict option" where
  "messagedecoder buf = do {
     let dataLen = (SYM_NUM * USR_DAT_LEN) div 8;
     let seqNum = (0xFF :: u8);
     rxBuf \<leftarrow> foreach [0..<dataLen] (\<lambda>i b. do { ch \<leftarrow> rx_byte buf i; wr b i ch }) (replicate 1024 0);
     rx_crc \<leftarrow> crc_ccitt rxBuf (of_nat dataLen);
     if rx_crc \<noteq> GOOD_CRC then Some CrcError else do {
       id \<leftarrow> rd rxBuf 0;
       if id \<noteq> myId then Some NotMyPacket else do {
         sq \<leftarrow> rd rxBuf 1;
         if seqNum = sq then Some DuplicateExit
         else Some (Delivered id sq (map (\<lambda>i. rxBuf ! i) [2..<SYM_NUM * SYM_BYTE_LEN - 2])) } } }"

section \<open>Bytes and their bits\<close>

definition byte_bits :: "u8 \<Rightarrow> u8 list" where
  "byte_bits ch = map (\<lambda>m. drop_bit (7 - m) ch AND 1) [0..<8]"

abbreviation bytes_bits :: "u8 list \<Rightarrow> u8 list" where
  "bytes_bits bs \<equiv> concat (map byte_bits bs)"

lemma byte_bits_length [simp]: "length (byte_bits ch) = 8"
  by (simp add: byte_bits_def)

lemma bytes_bits_length [simp]: "length (bytes_bits bs) = 8 * length bs"
  by (induction bs) auto

lemma bytes_bits_nth:
  "i < length bs \<Longrightarrow> j < 8 \<Longrightarrow> bytes_bits bs ! (i * 8 + j) = byte_bits (bs ! i) ! j"
proof (induction bs arbitrary: i)
  case (Cons b bs)
  then show ?case by (cases i) (auto simp: nth_append)
qed simp

lemma and_1_bits: "(w :: u8) AND 1 \<in> {0, 1}"
  by (simp add: and_one_eq mod2_eq_if)

lemma byte_bits_is_bits: "is_bits (byte_bits ch)"
  unfolding byte_bits_def using and_1_bits by fastforce

lemma bytes_bits_is_bits: "is_bits (bytes_bits bs)"
  using byte_bits_is_bits by fastforce

text \<open>Reading eight bits back, most significant first.\<close>

lemma byte_of_bits_step: "push_bit 1 (drop_bit (Suc k) w) + (drop_bit k w AND 1) = drop_bit k (w :: u8)"
proof -
  have "push_bit 1 (drop_bit (Suc k) w) + (drop_bit k w AND 1) = push_bit 1 (drop_bit (Suc k) w) OR (drop_bit k w AND 1)"
    by (rule disjunctive_add) (simp only: bit_push_bit_iff bit_and_iff bit_1_iff, auto)
  also have "\<dots> = drop_bit k w"
  proof (rule bit_word_eqI)
    fix n
    assume "n < LENGTH(8)"
    then show "bit (push_bit 1 (drop_bit (Suc k) w) OR (drop_bit k w AND 1)) n = bit (drop_bit k w) n"
      by (cases n) (simp_all only: bit_or_iff bit_push_bit_iff bit_and_iff bit_1_iff bit_drop_bit_eq, auto)
  qed
  finally show ?thesis .
qed

lemma byte_of_bits_upto:
  "n \<le> 8 \<Longrightarrow> fold (\<lambda>m acc. push_bit 1 acc + byte_bits ch ! m) [0..<n] 0 = drop_bit (8 - n) (ch :: u8)"
proof (induction n)
  case 0
  have "drop_bit 8 ch = 0" by (rule bit_word_eqI) (auto simp: bit_simps dest: bit_imp_le_length)
  then show ?case by simp
next
  case (Suc n)
  then have "8 - n = Suc (7 - n)" by simp
  with Suc byte_of_bits_step [of "7 - n" ch] show ?case
    by (simp add: byte_bits_def del: push_bit_of_1)
qed

lemma byte_of_bits: "fold (\<lambda>m acc. push_bit 1 acc + byte_bits ch ! m) [0..<8] 0 = ch"
  using byte_of_bits_upto [of 8 ch] by simp

section \<open>What the sender writes\<close>

text \<open>The text of the message, and the bytes of the frame it ends up in.\<close>

definition run_of :: "nat \<Rightarrow> u8 \<Rightarrow> u8 list" where
  "run_of n c = map (\<lambda>j. c + of_nat j) [0..<n]"

definition alphanumerics :: "u8 list" where
  "alphanumerics = run_of 26 97 @ run_of 26 65 @ run_of 10 48"

definition tx_text :: "int \<Rightarrow> u8 list option \<Rightarrow> u8 list" where
  "tx_text option line =
     (if option = 0 then alphanumerics @ alphanumerics else case line of None \<Rightarrow> [] | Some l \<Rightarrow> l)"

definition text_buffer :: "u8 list \<Rightarrow> u8 list" where
  "text_buffer ts = [0, 0] @ ts @ replicate (1022 - length ts) 0"

abbreviation tx_buffer :: "int \<Rightarrow> u8 list option \<Rightarrow> u8 list" where
  "tx_buffer option line \<equiv> text_buffer (tx_text option line)"

definition tx_bytes :: "int \<Rightarrow> u8 list option \<Rightarrow> nat \<Rightarrow> u8 list" where
  "tx_bytes option line n =
     (let payload = take (8 * n - 2) (tx_buffer option line) in payload @ crc_trailer (crc_of CRC_INIT payload))"

lemma run_of_length [simp]: "length (run_of n c) = n"
  by (simp add: run_of_def)

lemma text_buffer_length: "length ts \<le> 1022 \<Longrightarrow> length (text_buffer ts) = 1024"
  by (simp add: text_buffer_def)

lemma put_run_eq:
  assumes "i = 2 + length ts" and "length ts + n \<le> 1022"
  shows "put_run i n c (text_buffer ts) = Some (text_buffer (ts @ run_of n c))"
  using assms unfolding put_run_def by (subst foreach_write_at) (simp_all add: run_of_def text_buffer_def)

lemma gets_at_eq:
  assumes "length l \<le> 1021"
  shows "gets_at 2 (Some l) (text_buffer []) = Some (text_buffer l)"
proof -
  have "foreach [0..<length l] (\<lambda>j b. wr b (2 + j) (l ! j)) (text_buffer []) = Some (text_buffer l)"
    using assms by (subst foreach_write_at) (simp_all add: text_buffer_def map_nth)
  moreover have "wr (text_buffer l) (2 + length l) 0 = Some (text_buffer l)"
    using assms by (simp add: wr_def text_buffer_def nth_append list_update_append list_update_same_conv)
  ultimately show ?thesis by (simp add: gets_at_def)
qed

lemma fill_start: "(do { b \<leftarrow> wr (replicate 1024 (0::u8)) 0 0; wr b 1 0 }) = Some (text_buffer [])"
proof -
  have "replicate 1024 (0::u8) = [0, 0] @ replicate 1022 0" by (simp add: numeral_eq_Suc)
  then show ?thesis by (simp add: wr_def text_buffer_def)
qed

lemma fill_txBuf_eq:
  assumes "option = 0 \<or> length (tx_text option line) \<le> 1021"
  shows "fill_txBuf option line = Some (tx_buffer option line)"
proof -
  have "fill_txBuf option line =
      (if option = 0 then do {
         buf \<leftarrow> put_run 2 26 97 (text_buffer []);
         buf \<leftarrow> put_run 28 26 65 buf;
         buf \<leftarrow> put_run 54 10 48 buf;
         buf \<leftarrow> put_run 64 26 97 buf;
         buf \<leftarrow> put_run 90 26 65 buf;
         put_run 116 10 48 buf }
       else gets_at 2 line (text_buffer []))"
    using fill_start unfolding fill_txBuf_def by (auto simp: bind_eq_Some_conv)
  then show ?thesis
    using assms gets_at_eq
    by (auto simp: put_run_eq tx_text_def alphanumerics_def gets_at_def [of _ None] split: option.splits)
qed

text \<open>The innermost loop writes the eight bits of byte \<open>m\<close>, high bit first.\<close>

lemma put_byte_eq:
  assumes "8 * m + 8 \<le> length b"
  shows "foreach (rev [0..<8]) (\<lambda>k b. wr b (m * 8 + 7 - k) (drop_bit k ch AND 0x1)) b
    = Some (take (8 * m) b @ byte_bits ch @ drop (8 * m + 8) b)"
proof -
  have "rev [0..<8] = map (\<lambda>j. 7 - j) [0..<8 :: nat]" by (simp add: upt_rec)
  then have "foreach (rev [0..<8]) (\<lambda>k b. wr b (m * 8 + 7 - k) (drop_bit k ch AND 0x1)) b
      = foreach [0..<8] (\<lambda>j b. wr b (8 * m + j) (drop_bit (7 - j) ch AND 0x1)) b"
    by (simp only: foreach_map) (rule foreach_cong, auto simp: mult.commute)
  also have "\<dots> = Some (take (8 * m) b @ byte_bits ch @ drop (8 * m + 8) b)"
    using assms by (simp add: foreach_write_at byte_bits_def)
  finally show ?thesis .
qed

lemma put_bytes_eq:
  assumes "8 * n \<le> length buf" and "64 * n \<le> length inbit"
  shows "foreach [0..<n] (\<lambda>i. foreach [0..<SYM_BYTE_LEN] (\<lambda>j inbit. do {
           ch \<leftarrow> rd buf (i * SYM_BYTE_LEN + j);
           foreach (rev [0..<8]) (\<lambda>k inbit.
             wr inbit ((i * SYM_BYTE_LEN + j) * 8 + 7 - k) (drop_bit k ch AND 0x1)) inbit })) inbit
    = Some (bytes_bits (take (8 * n) buf) @ drop (64 * n) inbit)"
proof -
  define f where "f m inbit = (do {
      ch \<leftarrow> rd buf m;
      foreach (rev [0..<8]) (\<lambda>k inbit. wr inbit (m * 8 + 7 - k) (drop_bit k ch AND 0x1)) inbit })"
    for m and inbit :: "u8 list"
  have "foreach [0..<n] (\<lambda>i. foreach [0..<8] (\<lambda>j. f (i * 8 + j))) inbit = foreach [0..<n * 8] f inbit"
    by (rule foreach_nested)
  also have "\<dots> = Some (concat (map (\<lambda>m. byte_bits (buf ! m)) [0..<n * 8]) @ drop (8 * (n * 8)) inbit)"
    using assms put_byte_eq by (intro foreach_blocks) (simp_all add: f_def)
  also have "map (\<lambda>m. byte_bits (buf ! m)) [0..<n * 8] = map byte_bits (take (8 * n) buf)"
    using assms(1) by (simp add: map_nth_take_comp mult.commute)
  finally show ?thesis by (simp add: f_def mult.commute)
qed

lemma crc_trailer_length [simp]: "length (crc_trailer c) = 2"
  by (simp add: crc_trailer_def Let_def)

lemma tx_bytes_length: "1 \<le> n \<Longrightarrow> n \<le> 128 \<Longrightarrow> length (tx_text option line) \<le> 1022 \<Longrightarrow> length (tx_bytes option line n) = 8 * n"
  by (simp add: tx_bytes_def Let_def text_buffer_length)

lemma tx_text_length: "option = 0 \<or> length (tx_text option line) \<le> 1021 \<Longrightarrow> length (tx_text option line) \<le> 1021"
  by (auto simp: tx_text_def alphanumerics_def)

lemma txDataGen_eq:
  assumes fits: "option = 0 \<or> length (tx_text option line) \<le> 1021"
    and n: "1 \<le> n" "n \<le> 128" and room: "64 * n \<le> length inbit"
  shows "txDataGen option line inbit (int n)
    = Some (bytes_bits (tx_bytes option line n) @ drop (64 * n) inbit, 64 * int n)"
proof -
  let ?b = "tx_buffer option line" and ?p = "8 * n - 2"
  let ?payload = "take ?p ?b"
  let ?crc = "crc_of CRC_INIT ?payload"
  let ?lo = "ucast ((?crc XOR 0xffff) AND 0x00ff) :: u8"
  let ?hi = "ucast (drop_bit 8 (?crc XOR 0xffff) AND 0x00ff) :: u8"
  have len: "length ?b = 1024" using tx_text_length [OF fits] by (simp add: text_buffer_length)
  have plen: "64 * int n div 8 - 2 = int ?p" using n by simp
  have up: "unat (word_of_nat ?p :: u32) = ?p" using n by (simp only: unat_of_nat) simp
  have "unat (word_of_nat ?p :: u32) \<le> length ?b" using n len by (simp only: up)
  from crc_ccitt_eq [OF this] have crc: "crc_ccitt ?b (word_of_int (int ?p)) = Some ?crc"
    by (simp only: up of_int_of_nat_eq)
  define b2 where "b2 = ?b[?p := ?lo, ?p + 1 := ?hi]"
  have "8 * n = ?p + 2" using n by simp
  then have "take (8 * n) b2 = tx_bytes option line n"
    using n len take_two_updates [of ?p ?b ?lo ?hi] by (simp only: b2_def tx_bytes_def crc_trailer_def Let_def)
  moreover have "length b2 = 1024" by (simp add: b2_def len)
  moreover have "wr ?b ?p ?lo = Some (?b[?p := ?lo])" "wr (?b[?p := ?lo]) (?p + 1) ?hi = Some b2"
    using n len by (simp_all add: b2_def)
  ultimately show ?thesis
    using n room put_bytes_eq [of n b2 inbit] fill_txBuf_eq [OF fits]
    unfolding txDataGen_def Let_def plen nat_int
    by (simp only: crc bind.bind_lunit)
qed

section \<open>What the receiver computes\<close>

definition rx_verdict_of :: "u8 list \<Rightarrow> rx_verdict" where
  "rx_verdict_of bs =
     (if crc_of CRC_INIT bs \<noteq> GOOD_CRC then CrcError
      else if bs ! 0 \<noteq> myId then NotMyPacket
      else if bs ! 1 = 0xFF then DuplicateExit
      else Delivered (bs ! 0) (bs ! 1) (take 76 (drop 2 bs)))"

lemma rx_byte_eq:
  assumes "i < length bs"
  shows "rx_byte (bytes_bits bs @ r) i = Some (bs ! i)"
proof -
  have "rx_byte (bytes_bits bs @ r) i
      = Some (fold (\<lambda>j ch. push_bit 1 ch + byte_bits (bs ! i) ! j) [0..<8] 0)"
    unfolding rx_byte_def
  proof (rule foreach_total)
    fix j and ch :: u8
    assume "j \<in> set [0..<8]"
    then have j: "j < 8" by simp
    with assms have "i * 8 + j < 8 * length bs" by simp
    then show "(do { x \<leftarrow> rd (bytes_bits bs @ r) (i * 8 + j); Some (push_bit 1 ch + x) })
        = Some (push_bit 1 ch + byte_bits (bs ! i) ! j)"
      using bytes_bits_nth [OF assms j] by (simp add: nth_append del: push_bit_of_1)
  qed
  then show ?thesis by (simp only: byte_of_bits)
qed

lemma messagedecoder_eq:
  assumes "length bs = 80"
  shows "messagedecoder (bytes_bits bs @ r) = Some (rx_verdict_of bs)"
proof -
  let ?rx = "bs @ replicate 944 0"
  have "foreach [0..<80] (\<lambda>i b. do { ch \<leftarrow> rx_byte (bytes_bits bs @ r) i; wr b i ch }) (replicate 1024 0)
      = Some (map (\<lambda>i. bs ! i) [0..<80] @ drop 80 (replicate 1024 0))"
    using assms by (intro foreach_write_fun) (simp_all add: rx_byte_eq)
  also have "\<dots> = Some ?rx"
    using assms by (simp add: map_nth_take)
  finally have rx: "foreach [0..<80] (\<lambda>i b. do { ch \<leftarrow> rx_byte (bytes_bits bs @ r) i; wr b i ch }) (replicate 1024 0) = Some ?rx" .
  have crc: "crc_ccitt ?rx 80 = Some (crc_of CRC_INIT bs)"
    using crc_ccitt_eq [of 80 ?rx] assms by simp
  have "SYM_NUM * SYM_BYTE_LEN - 2 \<le> length ?rx" using assms by simp
  from map_nth_segment [OF this, of 2]
  have msg: "map (\<lambda>i. ?rx ! i) [2..<SYM_NUM * SYM_BYTE_LEN - 2] = take 76 (drop 2 bs)"
    using assms by (simp only: length_append) simp
  have len: "SYM_NUM * USR_DAT_LEN div 8 = 80" "(of_nat 80 :: u32) = 80" by simp_all
  have ids: "rd ?rx 0 = Some (bs ! 0)" "rd ?rx 1 = Some (bs ! 1)"
    using assms by (simp_all add: nth_append)
  show ?thesis
    unfolding messagedecoder_def Let_def len rx_verdict_of_def
    by (simp only: rx crc msg ids bind.bind_lunit if_distrib [of Some] eq_commute [of "0xFF"])
qed

section \<open>Properties\<close>

lemma tx_bytes_parts:
  assumes "option = 0 \<or> length (tx_text option line) \<le> 1021"
  shows "length (tx_bytes option line 10) = 80" and "tx_bytes option line 10 ! 0 = 0"
    and "tx_bytes option line 10 ! 1 = 0"
    and "take 76 (drop 2 (tx_bytes option line 10)) = take 76 (tx_text option line @ replicate 76 0)"
    and "crc_of CRC_INIT (tx_bytes option line 10) = GOOD_CRC"
proof -
  note len = tx_text_length [OF assms]
  show "length (tx_bytes option line 10) = 80" using len by (simp add: tx_bytes_length)
  show "tx_bytes option line 10 ! 0 = 0" "tx_bytes option line 10 ! 1 = 0"
    using len by (simp_all add: tx_bytes_def Let_def text_buffer_def nth_append)
  show "crc_of CRC_INIT (tx_bytes option line 10) = GOOD_CRC"
    unfolding tx_bytes_def Let_def by (rule crc_residue)
  have "take 76 (drop 2 (tx_bytes option line 10)) = take 76 (drop 2 (take 78 (tx_buffer option line)))"
    using len by (simp add: tx_bytes_def Let_def text_buffer_length)
  also have "\<dots> = take 76 (drop 2 (tx_buffer option line))" by (simp add: drop_take)
  also have "\<dots> = take 76 (tx_text option line @ replicate 76 0)"
    using len by (simp add: text_buffer_def min_def)
  finally show "take 76 (drop 2 (tx_bytes option line 10)) = take 76 (tx_text option line @ replicate 76 0)" .
qed

text \<open>
  C33: the receiver delivers what the sender was given. For the fixed text and for every
  input line of at most 1021 characters, the bits \<open>txDataGen\<close> writes for a ten-symbol frame
  are accepted by \<open>messagedecoder\<close>, which prints the first 76 characters of the text,
  padded with zero bytes. Neither call leaves a buffer.
\<close>

theorem message_roundtrip:
  assumes "option = 0 \<or> length (tx_text option line) \<le> 1021" and "640 \<le> length inbit"
  shows "\<exists>bits. txDataGen option line inbit 10 = Some (bits, 640) \<and>
           messagedecoder bits = Some (Delivered 0 0 (take 76 (tx_text option line @ replicate 76 0)))"
proof -
  have "txDataGen option line inbit 10 = Some (bytes_bits (tx_bytes option line 10) @ drop 640 inbit, 640)"
    using txDataGen_eq [OF assms(1), of 10 inbit] assms(2) by simp
  moreover have "rx_verdict_of (tx_bytes option line 10)
      = Delivered 0 0 (take 76 (tx_text option line @ replicate 76 0))"
    using tx_bytes_parts [OF assms(1)] by (simp add: rx_verdict_of_def myId_def)
  ultimately show ?thesis
    using messagedecoder_eq [OF tx_bytes_parts(1) [OF assms(1)]] by simp
qed

theorem message_roundtrip_witness:
  "(\<exists>bits. txDataGen 0 None (replicate 1024 0) 10 = Some (bits, 640) \<and>
      messagedecoder bits = Some (Delivered 0 0 (take 76 (tx_text 0 None @ replicate 76 0)))) \<and>
   (\<exists>bits. txDataGen 1 (Some [72, 105]) (replicate 1024 0) 10 = Some (bits, 640) \<and>
      messagedecoder bits = Some (Delivered 0 0 (take 76 ([72, 105] @ replicate 76 0))))"
  using message_roundtrip [of 0 None "replicate 1024 0"]
    message_roundtrip [of 1 "Some [72, 105]" "replicate 1024 0"]
  by (simp add: tx_text_def)

text \<open>
  The receiver's verdict on any 80 received bytes, branch by branch: CRC first, then
  the terminal, then the sequence number. The sequence number is compared with the
  constant \<open>0xFF\<close> the local variable starts from, so a packet with that number ends the
  process on its first reception, and no other packet is ever recognised as a duplicate.
\<close>

theorem messagedecoder_verdict:
  assumes "length bs = 80"
  shows "messagedecoder (bytes_bits bs @ r) = Some (
     if fold (\<lambda>b r. crc_byte_serial r b) bs CRC_INIT \<noteq> GOOD_CRC then CrcError
     else if bs ! 0 \<noteq> 0 then NotMyPacket
     else if bs ! 1 = 0xFF then DuplicateExit
     else Delivered 0 (bs ! 1) (take 76 (drop 2 bs)))"
  using messagedecoder_eq [OF assms, of r]
  by (simp add: rx_verdict_of_def myId_def crc_of_serial)

theorem messagedecoder_verdict_witness:
  "messagedecoder (bytes_bits (replicate 80 0) @ []) = Some (
     if fold (\<lambda>b r. crc_byte_serial r b) (replicate 80 0) CRC_INIT \<noteq> GOOD_CRC then CrcError
     else if replicate 80 (0::u8) ! 0 \<noteq> 0 then NotMyPacket
     else if replicate 80 (0::u8) ! 1 = 0xFF then DuplicateExit
     else Delivered 0 (replicate 80 0 ! 1) (take 76 (drop 2 (replicate 80 0))))"
  by (rule messagedecoder_verdict) simp

text \<open>
  C34: corruption is detected. If a packet passes the CRC check and then any two adjacent
  bytes of it are changed, to anything, the receiver reports a CRC error.
\<close>

theorem messagedecoder_detects_burst:
  assumes "length (pre @ [a, b] @ suf) = 80"
    and "messagedecoder (bytes_bits (pre @ [a, b] @ suf)) \<noteq> Some CrcError"
    and "(a', b') \<noteq> (a, b)"
  shows "messagedecoder (bytes_bits (pre @ [a', b'] @ suf)) = Some CrcError"
proof -
  have "crc_of CRC_INIT (pre @ [a, b] @ suf) = GOOD_CRC"
    using assms(2) messagedecoder_eq [OF assms(1), of "[]"]
    by (auto simp: rx_verdict_of_def split: if_splits)
  with assms(3) crc_burst_inj have "crc_of CRC_INIT (pre @ [a', b'] @ suf) \<noteq> GOOD_CRC" by metis
  moreover have "length (pre @ [a', b'] @ suf) = 80" using assms(1) by simp
  ultimately show ?thesis
    using messagedecoder_eq [of "pre @ [a', b'] @ suf" "[]"] by (simp add: rx_verdict_of_def)
qed

theorem messagedecoder_detects_burst_witness:
  "messagedecoder (bytes_bits (tx_bytes 0 None 10)) \<noteq> Some CrcError \<and>
   (\<exists>pre a b suf. tx_bytes 0 None 10 = pre @ [a, b] @ suf \<and> length pre = 5 \<and>
      messagedecoder (bytes_bits (pre @ [a + 1, b XOR 3] @ suf)) = Some CrcError)"
proof -
  let ?bs = "tx_bytes 0 None 10"
  have len: "length ?bs = 80" and ok: "messagedecoder (bytes_bits ?bs) \<noteq> Some CrcError"
    using tx_bytes_parts [of 0 None] messagedecoder_eq [of ?bs "[]"]
    by (simp_all add: rx_verdict_of_def myId_def)
  have split: "?bs = take 5 ?bs @ [?bs ! 5, ?bs ! 6] @ drop 7 ?bs"
    using split_two_cells [of 5 ?bs] len by simp
  have "messagedecoder (bytes_bits (take 5 ?bs @ [?bs ! 5 + 1, ?bs ! 6 XOR 3] @ drop 7 ?bs)) = Some CrcError"
  proof (rule messagedecoder_detects_burst)
    show "length (take 5 ?bs @ [?bs ! 5, ?bs ! 6] @ drop 7 ?bs) = 80" by (simp only: split [symmetric] len)
    show "messagedecoder (bytes_bits (take 5 ?bs @ [?bs ! 5, ?bs ! 6] @ drop 7 ?bs)) \<noteq> Some CrcError"
      by (simp only: split [symmetric] ok not_False_eq_True)
    show "(?bs ! 5 + 1, ?bs ! 6 XOR 3) \<noteq> (?bs ! 5, ?bs ! 6)" by simp
  qed
  moreover have "length (take 5 ?bs) = 5" using len by simp
  ultimately show ?thesis using ok split by blast
qed

text \<open>
  \<^verbatim>\<open>gets\<close> has no bound. An input line of 1022 characters or more makes the sender write
  past \<open>txBuf\<close>, whatever the other arguments are.
\<close>

theorem txDataGen_long_line_overflows:
  assumes "option \<noteq> 0" and "1022 \<le> length l"
  shows "txDataGen option (Some l) inbit symNum = None"
proof -
  have "gets_at 2 (Some l) (text_buffer []) = None"
  proof (cases "length l = 1022")
    case True
    have "foreach [0..<length l] (\<lambda>j b. wr b (2 + j) (l ! j)) (text_buffer []) = Some (text_buffer l)"
      using True map_nth [of l] by (subst foreach_write_at) (simp_all add: text_buffer_def)
    then show ?thesis using True by (simp add: gets_at_def wr_out text_buffer_length)
  next
    case False
    have "foreach [0..<length l] (\<lambda>j b. wr b (2 + j) (l ! j)) (text_buffer []) = None"
      using False assms(2) by (intro foreach_write_overflow [of _ 1022]) (simp_all add: text_buffer_length)
    then show ?thesis by (simp add: gets_at_def)
  qed
  then have "fill_txBuf option (Some l) = None"
    using assms(1) fill_start unfolding fill_txBuf_def by (auto simp: bind_eq_Some_conv bind_eq_None_conv)
  then show ?thesis by (simp add: txDataGen_def)
qed

theorem txDataGen_long_line_overflows_witness:
  "txDataGen 1 (Some (replicate 1022 65)) (replicate 1024 0) 10 = None"
  by (rule txDataGen_long_line_overflows) simp_all

end
