(* ===== verification/Interleaver.thy ===== *)
theory Interleaver
  imports Wifi_Common "HOL-Library.Multiset"
begin

text \<open>
  \<^verbatim>\<open>interleaver_deintleaver.c\<close>. The interleaver gathers (reads cell \<open>pp\<close>, writes cell
  \<open>ii\<close>), the deinterleaver scatters (reads cell \<open>jj\<close>, writes cell \<open>kk\<close>). The index
  \<open>kk\<close> of the code is never negative, so the subtraction is exact on \<^typ>\<open>nat\<close>
  (lemma \<open>deint_index_exact\<close>).
\<close>

definition int_index :: "nat \<Rightarrow> nat \<Rightarrow> nat" where
  "int_index N ii = (N div 4) * (ii mod 4) + ii div 4"

definition deint_index :: "nat \<Rightarrow> nat \<Rightarrow> nat" where
  "deint_index N jj = 56 * jj - (N - 1) * (56 * jj div N)"

definition interleaver :: "s8 list \<Rightarrow> int \<Rightarrow> u8 list \<Rightarrow> u8 list option" where
  "interleaver datain N top1 =
     foreach [0..<nat N] (\<lambda>ii b. do { x \<leftarrow> rd datain (int_index (nat N) ii); wr b ii x }) top1"

definition deinterleaver :: "s8 list \<Rightarrow> int \<Rightarrow> s8 list \<Rightarrow> s8 list option" where
  "deinterleaver data N top2 =
     foreach [0..<nat N] (\<lambda>jj b. do { x \<leftarrow> rd data jj; wr b (deint_index (nat N) jj) x }) top2"

lemma deint_index_exact:
  assumes "0 < N"
  shows "int (deint_index N jj) = 56 * int jj - (int N - 1) * (56 * int jj div int N)"
proof -
  have "(N - 1) * (56 * jj div N) \<le> N * (56 * jj div N)" by simp
  also have "\<dots> \<le> 56 * jj" by simp
  finally show ?thesis using assms by (simp add: deint_index_def of_nat_diff zdiv_int)
qed

text \<open>Writing the quotient and remainder out: both indices are pairs in another order.\<close>

lemma deint_index_224: "jj < 224 \<Longrightarrow> deint_index 224 jj = 56 * (jj mod 4) + jj div 4"
proof -
  have "56 * jj div 224 = jj div 4" using div_mult_mult1 [of 56 jj 4] by simp
  moreover have "56 * jj = 223 * (jj div 4) + (56 * (jj mod 4) + jj div 4)"
    using div_mult_mod_eq [of jj 4] by linarith
  ultimately show ?thesis by (simp add: deint_index_def)
qed

lemma int_index_bound: "4 dvd N \<Longrightarrow> ii < N \<Longrightarrow> int_index N ii < N"
proof -
  assume "4 dvd N" "ii < N"
  then obtain k where N: "N = 4 * k" by auto
  have r: "ii mod 4 \<le> 3" by presburger
  then have "k * (ii mod 4) \<le> k * 3" by simp
  moreover have "ii div 4 < k" using \<open>ii < N\<close> N by simp
  ultimately have "k * (ii mod 4) + ii div 4 < k * 3 + k" by (rule add_le_less_mono)
  then show ?thesis by (simp add: int_index_def N)
qed

lemma int_index_inj: "4 dvd N \<Longrightarrow> inj_on (int_index N) {..<N}"
proof (rule inj_onI)
  fix x y
  assume N: "4 dvd N" and xy: "x \<in> {..<N}" "y \<in> {..<N}" and eq: "int_index N x = int_index N y"
  obtain k where k: "N = 4 * k" using N by auto
  have q: "x div 4 < k" "y div 4 < k" using xy k by auto
  have m: "int_index N z = k * (z mod 4) + z div 4" for z by (simp add: int_index_def k)
  have "int_index N x div k = x mod 4" "int_index N y div k = y mod 4"
    "int_index N x mod k = x div 4" "int_index N y mod k = y div 4"
    using q by (simp_all add: m)
  with eq have "x mod 4 = y mod 4" "x div 4 = y div 4" by simp_all
  then show "x = y" by (metis div_mult_mod_eq)
qed

lemma interleaver_eq:
  assumes "4 dvd N" and "N \<le> length d" and "N \<le> length ob"
  shows "interleaver d (int N) ob = Some (map (\<lambda>i. d ! int_index N i) [0..<N] @ drop N ob)"
  unfolding interleaver_def nat_int
proof (rule foreach_write_fun [OF assms(3)])
  fix i and b :: "u8 list"
  assume "i < N" "length b = length ob"
  moreover from this int_index_bound [OF assms(1)] assms(2) have "int_index N i < length d"
    by fastforce
  ultimately show "(do { x \<leftarrow> rd d (int_index N i); wr b i x }) = Some (b[i := d ! int_index N i])"
    using assms(3) by simp
qed

text \<open>The deinterleaver undoes the interleaver at the frame length of the application.\<close>

lemma deinterleaver_eq:
  assumes "224 \<le> length d" and "224 \<le> length ob"
  shows "\<exists>ob'. deinterleaver d 224 ob = Some ob' \<and> length ob' = length ob \<and>
           (\<forall>i<224. ob' ! int_index 224 i = d ! i) \<and> (\<forall>k<length ob. 224 \<le> k \<longrightarrow> ob' ! k = ob ! k)"
proof -
  have ix: "deint_index 224 i = int_index 224 i" if "i < 224" for i
    using deint_index_224 [OF that] by (simp add: int_index_def)
  have img: "int_index 224 ` {..<224} \<subseteq> {..<224}"
    using int_index_bound [of 224] by auto
  have "deinterleaver d 224 ob = foreach [0..<224] (\<lambda>i b. wr b (int_index 224 i) (d ! i)) ob"
    unfolding deinterleaver_def using assms(1)
    by (intro foreach_cong) (auto simp: ix less_le_trans [of _ 224 "length d"])
  moreover have "\<exists>ob'. foreach [0..<224] (\<lambda>i b. wr b (int_index 224 i) (d ! i)) ob = Some ob' \<and>
      length ob' = length ob \<and> (\<forall>i<224. ob' ! int_index 224 i = d ! i) \<and>
      (\<forall>k<length ob. k \<notin> int_index 224 ` {..<224} \<longrightarrow> ob' ! k = ob ! k)"
    using int_index_bound [of 224] assms(2) int_index_inj [of 224]
    by (intro foreach_scatter) (auto intro: order_less_le_trans)
  ultimately show ?thesis using img by fastforce
qed

lemma deinterleaver_interleaved:
  assumes "224 \<le> length x" and "224 \<le> length ob"
  shows "deinterleaver (map (\<lambda>i. x ! int_index 224 i) [0..<224] @ r) 224 ob
           = Some (take 224 x @ drop 224 ob)"
proof -
  obtain ob' where ob': "deinterleaver (map (\<lambda>i. x ! int_index 224 i) [0..<224] @ r) 224 ob = Some ob'"
    "length ob' = length ob" "\<forall>i<224. ob' ! int_index 224 i = x ! int_index 224 i"
    "\<forall>k<length ob. 224 \<le> k \<longrightarrow> ob' ! k = ob ! k"
    using deinterleaver_eq [of "map (\<lambda>i. x ! int_index 224 i) [0..<224] @ r" ob] assms(2)
    by (auto simp: nth_append)
  have "int_index 224 ` {..<224} = {..<224}"
    using endo_inj_surj [of "{..<224}" "int_index 224"] int_index_inj [of 224] int_index_bound [of 224]
    by auto
  then have lo: "ob' ! k = x ! k" if "k < 224" for k
  proof -
    have "k \<in> int_index 224 ` {..<224}" using \<open>_ = {..<224}\<close> that by (simp only: lessThan_iff)
    then obtain i where "i < 224" "k = int_index 224 i" by blast
    with ob'(3) show ?thesis by blast
  qed
  have "ob' ! k = (take 224 x @ drop 224 ob) ! k" if "k < length ob'" for k
  proof (cases "k < 224")
    case True
    with lo [OF True] assms(1) show ?thesis by (simp only: nth_append length_take nth_take min_absorb2 if_True)
  next
    case False
    then have "ob' ! k = ob ! k" using ob'(2,4) that by simp
    with False assms show ?thesis by (simp add: nth_append)
  qed
  then have "ob' = take 224 x @ drop 224 ob"
    using assms ob'(2) by (intro nth_equalityI) simp_all
  with ob'(1) show ?thesis by simp
qed

text \<open>
  C36: at the frame length 224 the deinterleaver recovers what the interleaver was given,
  and neither leaves its buffers.
\<close>

theorem deinterleaver_interleaver:
  assumes "224 \<le> length x" and "224 \<le> length ob" and "224 \<le> length ob'"
  shows "Option.bind (interleaver x 224 ob) (\<lambda>y. deinterleaver y 224 ob') = Some (take 224 x @ drop 224 ob')"
  using assms interleaver_eq [of 224 x ob] deinterleaver_interleaved [of x ob' "drop 224 ob"] by simp

theorem deinterleaver_interleaver_witness:
  "Option.bind (interleaver (replicate 223 0 @ [1, 5]) 224 (replicate 224 0)) (\<lambda>y. deinterleaver y 224 (replicate 225 3))
     = Some (replicate 223 0 @ [1, 3])"
  using deinterleaver_interleaver [of "replicate 223 0 @ [1, 5]" "replicate 224 0" "replicate 225 3"] by simp

text \<open>
  For every length that is a multiple of four the interleaver only permutes: no bit is
  lost or duplicated.
\<close>

theorem interleaver_permutes:
  assumes "4 dvd N" and "N \<le> length d" and "N \<le> length ob"
  shows "\<exists>ob'. interleaver d (int N) ob = Some ob' \<and> mset (take N ob') = mset (take N d)
           \<and> drop N ob' = drop N ob"
proof -
  have img: "int_index N ` {..<N} = {..<N}"
    using endo_inj_surj [of "{..<N}" "int_index N"] int_index_inj [OF assms(1)] int_index_bound [OF assms(1)]
    by auto
  have "mset (map (\<lambda>i. d ! int_index N i) [0..<N])
      = image_mset (\<lambda>i. d ! i) (image_mset (int_index N) (mset [0..<N]))"
    by (simp add: multiset.map_comp comp_def)
  also have "image_mset (int_index N) (mset [0..<N]) = mset [0..<N]"
    using img int_index_inj [OF assms(1)]
    by (metis atLeast_upt image_mset_mset_set mset_set_set mset_upt finite_lessThan lessThan_atLeast0 set_upt distinct_upt)
  also have "image_mset (\<lambda>i. d ! i) (mset [0..<N]) = mset (take N d)"
    using assms(2) by (metis map_nth_take mset_map)
  finally show ?thesis using interleaver_eq [OF assms] by simp
qed

theorem interleaver_permutes_witness:
  "\<exists>ob'. interleaver [1, 2, 3, 4, 5, 6, 7, 8] (int 8) (replicate 9 0) = Some ob' \<and>
     mset (take 8 ob') = mset (take 8 [1, 2, 3, 4, 5, 6, 7, 8 :: s8]) \<and> drop 8 ob' = [0]"
  using interleaver_permutes [of 8 "[1, 2, 3, 4, 5, 6, 7, 8]" "replicate 9 0"] by simp

end
