(* ===== verification/Scrambler.thy ===== *)
theory Scrambler
  imports Wifi_Common
begin

text \<open>
  \<^verbatim>\<open>scrambler_descrambler.c\<close>: the software path (\<^verbatim>\<open>SCRAMBLER_CE_HW\<close> is not defined).
  The register \<open>state\<close> is read but never shifted, so both directions XOR every byte with
  the same mask.
\<close>

definition scr_state :: u8 where
  "scr_state = 0x05"

definition scrambler :: "int \<Rightarrow> u8 list \<Rightarrow> u8 list \<Rightarrow> u8 list option" where
  "scrambler inlen ibuf obuf =
     (let h = scr_state; y2 = drop_bit 3 (0x08 AND h); y5 = 0x01 AND h
      in foreach [0..<nat inlen] (\<lambda>i ob. do { x \<leftarrow> rd ibuf i; wr ob i (x XOR y2 XOR y5) }) obuf)"

definition descrambler :: "int \<Rightarrow> u8 list \<Rightarrow> u8 list \<Rightarrow> u8 list option" where
  "descrambler inlen ibuf obuf =
     (let h = scr_state; z1 = drop_bit 3 (0x08 AND h); z2 = 0x01 AND h
      in foreach [0..<nat inlen] (\<lambda>i ob. do { x \<leftarrow> rd ibuf i; wr ob i (x XOR z1 XOR z2) }) obuf)"

lemma scrambler_eq:
  assumes "nat n \<le> length ib" and "nat n \<le> length ob"
  shows "scrambler n ib ob = Some (map (\<lambda>x. x XOR 1) (take (nat n) ib) @ drop (nat n) ob)"
proof -
  have "scrambler n ib ob = Some (map (\<lambda>i. ib ! i XOR 1) [0..<nat n] @ drop (nat n) ob)"
    unfolding scrambler_def scr_state_def Let_def
    using assms by (intro foreach_write_fun) auto
  then show ?thesis using assms(1) by (simp add: map_nth_take_comp [where h = "\<lambda>x. x XOR 1"])
qed

lemma descrambler_eq_scrambler: "descrambler = scrambler"
  by (simp add: fun_eq_iff descrambler_def scrambler_def)

lemma xor_1_bits: "is_bits bs \<Longrightarrow> is_bits (map (\<lambda>x. x XOR (1::u8)) bs)"
  by auto

text \<open>Too short a buffer is an out-of-range access: the call is undefined.\<close>

lemma foreach_read_short:
  assumes "length ib < n"
  shows "foreach [0..<n] (\<lambda>i ob. do { x \<leftarrow> rd ib i; wr ob i (h x) }) ob = None"
proof -
  have "[0..<n] = [0..<length ib] @ length ib # [Suc (length ib)..<n]"
    using assms by (metis le0 less_imp_le_nat upt_add_eq_append upt_conv_Cons le_add_diff_inverse add_0)
  then show ?thesis by (cases "foreach [0..<length ib] (\<lambda>i ob. do { x \<leftarrow> rd ib i; wr ob i (h x) }) ob")
      (simp_all add: rd_out)
qed

text \<open>
  Descrambling what the scrambler wrote gives the input back, for every length and
  every buffer content, and both calls stay inside their buffers.
\<close>

theorem descrambler_scrambler:
  assumes "nat n \<le> length ib" and "nat n \<le> length ob" and "nat n \<le> length ob'"
  shows "Option.bind (scrambler n ib ob) (\<lambda>s. descrambler n s ob') = Some (take (nat n) ib @ drop (nat n) ob')"
  using assms by (simp add: descrambler_eq_scrambler scrambler_eq comp_def xor.assoc)

theorem descrambler_scrambler_witness:
  "Option.bind (scrambler 3 [1, 0, 1, 1] [7, 7, 7]) (\<lambda>s. descrambler 3 s [9, 9, 9, 8]) = Some [1, 0, 1, 8]"
  using descrambler_scrambler [of 3 "[1, 0, 1, 1]" "[7, 7, 7]" "[9, 9, 9, 8]"] by simp

end
