(* ===== verification/Viterbi_Encoder.thy ===== *)
theory Viterbi_Encoder
  imports Wifi_Common
begin

text \<open>
  \<^verbatim>\<open>viterbi.c\<close>, sender side: the pools of encoders and decoders, the convolutional encoder
  (constraint length 7, generators 0133 and 0171 in octal), puncturing and the conversion
  of hard bits to the decoder's input levels.
\<close>

section \<open>Encoder and decoder pools\<close>

datatype exit_status = EXIT_FAILURE

text \<open>
  \<^verbatim>\<open>vEncoder[MAX_VITERBI]\<close> and \<^verbatim>\<open>vDecoder[MAX_VITERBI]\<close> as far as allocation goes: the
  \<open>state\<close> field of each entry. No function of the code ever sets it back to \<open>IDLE\<close>.
\<close>

type_synonym pool = "entity_state list"

definition init_viterbiEncoder :: "pool \<Rightarrow> pool option" where
  "init_viterbiEncoder vEncoder = foreach [0..<MAX_VITERBI] (\<lambda>i v. wr v i IDLE) vEncoder"

definition init_viterbiDecoder :: "pool \<Rightarrow> pool option" where
  "init_viterbiDecoder vDecoder = foreach [0..<MAX_VITERBI] (\<lambda>i v. wr v i IDLE) vDecoder"

text \<open>The search loop returns at the first idle entry; when there is none the process exits.\<close>

definition get_viterbiEncoder :: "pool \<Rightarrow> exit_status + nat \<times> pool" where
  "get_viterbiEncoder vEncoder =
     (case find (\<lambda>i. vEncoder ! i = IDLE) [0..<MAX_VITERBI] of
        Some i \<Rightarrow> Inr (i, vEncoder[i := BUSY])
      | None \<Rightarrow> Inl EXIT_FAILURE)"

definition get_viterbiDecoder :: "pool \<Rightarrow> exit_status + nat \<times> pool" where
  "get_viterbiDecoder vDecoder =
     (case find (\<lambda>i. vDecoder ! i = IDLE) [0..<MAX_VITERBI] of
        Some i \<Rightarrow> Inr (i, vDecoder[i := BUSY])
      | None \<Rightarrow> Inl EXIT_FAILURE)"

section \<open>The convolutional encoder\<close>

abbreviation (input) K :: nat where "K \<equiv> 7"

definition MASK0 :: u8 where "MASK0 = 0x5B"   \<comment> \<open>0133 in octal\<close>

definition MASK1 :: u8 where "MASK1 = 0x79"   \<comment> \<open>0171 in octal\<close>

text \<open>One of the two parity loops: \<^verbatim>\<open>for(k=0, g=iBit; k<K-1; k++) if(MASK >> k & 1) g ^= sReg >> k & 1\<close>.\<close>

definition enc_gen :: "u8 \<Rightarrow> u8 \<Rightarrow> u8 \<Rightarrow> u8" where
  "enc_gen m sReg iBit =
     fold (\<lambda>k g. if drop_bit k m AND 0x01 \<noteq> 0 then g XOR (drop_bit k sReg AND 0x1) else g)
       [0..<K - 1] iBit"

definition bitEncoding :: "u8 \<Rightarrow> u8 \<Rightarrow> s8 list" where
  "bitEncoding state input =
     (let (g0, g1) = fold (\<lambda>i (g0, g1).
            (if drop_bit i MASK0 AND 0x1 \<noteq> 0 then g0 XOR (drop_bit i state AND 0x1) else g0,
             if drop_bit i MASK1 AND 0x1 \<noteq> 0 then g1 XOR (drop_bit i state AND 0x1) else g1))
          [0..<K - 1] (input, input)
      in [if g0 \<noteq> 0 then - 15 else 15, if g1 \<noteq> 0 then - 15 else 15])"

text \<open>
  The encoder object \<open>eId\<close> holds no data, so the call depends on the buffers only. The
  input buffer is written too: the code stores the zero padding behind the code block.
\<close>

definition viterbi_encoding :: "u8 list \<Rightarrow> s8 list \<Rightarrow> (u8 list \<times> s8 list) option" where
  "viterbi_encoding iBuf oBuf = do {
     oBuf \<leftarrow> foreach [0..<OUTPUT_LEN] (\<lambda>i b. wr b i 0) oBuf;
     iBuf \<leftarrow> foreach [0..<ZERO_PADDING] (\<lambda>j b. wr b (CODE_BLOCK + j) 0) iBuf;
     (sReg, oIndex, oBuf) \<leftarrow> foreach [0..<USR_DAT_LEN] (\<lambda>i (sReg, oIndex, oBuf). do {
         iBit \<leftarrow> rd iBuf i;
         let g0 = enc_gen MASK0 sReg iBit;
         let g1 = enc_gen MASK1 sReg iBit;
         let sReg = drop_bit 1 sReg + push_bit (K - 2) iBit;
         oBuf \<leftarrow> wr oBuf oIndex g0;
         oBuf \<leftarrow> wr oBuf (oIndex + 1) g1;
         Some (sReg, oIndex + 2, oBuf) }) (0 :: u8, 0 :: nat, oBuf);
     Some (iBuf, oBuf) }"

section \<open>Puncturing and level conversion\<close>

abbreviation (input) PUNC_RATE_1_2 :: int where "PUNC_RATE_1_2 \<equiv> 1"
abbreviation (input) PUNC_RATE_2_3 :: int where "PUNC_RATE_2_3 \<equiv> 2"
abbreviation (input) PUNC_RATE_1_3 :: int where "PUNC_RATE_1_3 \<equiv> 3"

definition puncConfig :: "nat list" where
  "puncConfig = [1, 1, 0, 1, 1, 0, 1, 1, 0, 1, 0, 1, 1, 0, 1, 1, 0, 1]"

definition puncShuffle :: "int list" where
  "puncShuffle = [0, 2, -1, 4, 6, -1, 8, 10, -1, 1, -1, 3, 5, -1, 7, 9, -1, 11]"

definition depuncShuffle :: "nat list" where
  "depuncShuffle = [0, 9, 1, 11, 3, 12, 4, 14, 6, 15, 7, 17]"

definition viterbi_puncturing :: "int \<Rightarrow> s8 list \<Rightarrow> s8 list \<Rightarrow> s8 list option" where
  "viterbi_puncturing rate iBuf oBuf =
     (if rate = PUNC_RATE_1_2 \<or> rate = PUNC_RATE_1_3 then
        foreach [0..<OUTPUT_LEN] (\<lambda>i b. do { x \<leftarrow> rd iBuf i; wr b i x }) oBuf
      else if rate = PUNC_RATE_2_3 then do {
        (puncBase, oBuf) \<leftarrow> foreach [0..<OUTPUT_LEN] (\<lambda>i (puncBase, oBuf). do {
            let puncIndex = i mod 18;
            let puncBase = (if puncIndex = 0 then if i = 0 then int i else puncBase + 12 else puncBase);
            if puncConfig ! puncIndex = 1 then do {
              x \<leftarrow> rd iBuf i;
              oBuf \<leftarrow> wr oBuf (nat (puncShuffle ! puncIndex + puncBase)) x;
              Some (puncBase, oBuf) }
            else Some (puncBase, oBuf) }) (0, oBuf);
        Some oBuf }
      else Some oBuf)"

definition viterbi_depuncturing :: "int \<Rightarrow> s8 list \<Rightarrow> s8 list \<Rightarrow> s8 list option" where
  "viterbi_depuncturing rate iBuf oBuf =
     (if rate = PUNC_RATE_1_2 \<or> rate = PUNC_RATE_1_3 then
        foreach [0..<OUTPUT_LEN] (\<lambda>i b. do { x \<leftarrow> rd iBuf i; wr b i x }) oBuf
      else if rate = PUNC_RATE_2_3 then do {
        let len = OUTPUT_LEN * 2 div 3;
        oBuf \<leftarrow> foreach [0..<OUTPUT_LEN] (\<lambda>i b. wr b i 0) oBuf;
        (depuncBase, oBuf) \<leftarrow> foreach [0..<len] (\<lambda>i (depuncBase, oBuf). do {
            let depuncIndex = i mod 12;
            let depuncBase = (if depuncIndex = 0 then if i = 0 then i else depuncBase + 18 else depuncBase);
            x \<leftarrow> rd iBuf i;
            oBuf \<leftarrow> wr oBuf (depuncShuffle ! depuncIndex + depuncBase) x;
            Some (depuncBase, oBuf) }) (0, oBuf);
        Some oBuf }
      else Some oBuf)"

definition formatConversion :: "int \<Rightarrow> s8 list \<Rightarrow> s8 list \<Rightarrow> s8 list option" where
  "formatConversion rate iBuf oBuf =
     (let len = (if rate = PUNC_RATE_1_2 then OUTPUT_LEN else OUTPUT_LEN * 2 div 3)
      in map_option snd (foreach [0..<len] (\<lambda>i (k, oBuf). do {
           x \<leftarrow> rd iBuf i;
           oBuf \<leftarrow> wr oBuf k (if x = 1 then - 10 else 10);
           Some (k + 1, oBuf) }) (0 :: nat, oBuf)))"


section \<open>The code as an automaton on numbers\<close>

text \<open>
  The six-bit register as a number \<open>j < 64\<close>: bit 5 is the most recent input. \<open>out0\<close> and
  \<open>out1\<close> are the two coded bits, \<open>nxt\<close> the register after the shift.
\<close>

definition out0 :: "nat \<Rightarrow> nat \<Rightarrow> nat" where
  "out0 j b = (b + j + j div 2 + j div 8 + j div 16) mod 2"

definition out1 :: "nat \<Rightarrow> nat \<Rightarrow> nat" where
  "out1 j b = (b + j + j div 8 + j div 16 + j div 32) mod 2"

definition nxt :: "nat \<Rightarrow> nat \<Rightarrow> nat" where
  "nxt j b = j div 2 + 32 * b"

primrec coded :: "nat \<Rightarrow> nat list \<Rightarrow> nat list" where
  "coded j [] = []"
| "coded j (b # bs) = out0 j b # out1 j b # coded (nxt j b) bs"

primrec run :: "nat \<Rightarrow> nat list \<Rightarrow> nat" where
  "run j [] = j"
| "run j (b # bs) = run (nxt j b) bs"

abbreviation is_bin :: "nat list \<Rightarrow> bool" where
  "is_bin bs \<equiv> set bs \<subseteq> {..<2}"

lemma coded_length [simp]: "length (coded j bs) = 2 * length bs"
  by (induction bs arbitrary: j) auto

lemma coded_append: "coded j (as @ bs) = coded j as @ coded (run j as) bs"
  by (induction as arbitrary: j) auto

lemma run_append: "run j (as @ bs) = run (run j as) bs"
  by (induction as arbitrary: j) auto

lemma nxt_less: "j < 64 \<Longrightarrow> b < 2 \<Longrightarrow> nxt j b < 64"
  by (simp add: nxt_def)

lemma run_less: "j < 64 \<Longrightarrow> is_bin bs \<Longrightarrow> run j bs < 64"
  by (induction bs arbitrary: j) (auto simp: nxt_less)

lemma out_less: "out0 j b < 2" "out1 j b < 2"
  by (simp_all add: out0_def out1_def)

lemma coded_bin: "is_bin (coded j bs)"
  by (induction bs arbitrary: j) (auto simp: out_less)

text \<open>All 128 register and input values: the bitwise loops compute the automaton.\<close>

lemma enc_gen_table:
  "list_all (\<lambda>j. list_all (\<lambda>b. enc_gen MASK0 (of_nat j) (of_nat b) = of_nat (out0 j b) \<and>
      enc_gen MASK1 (of_nat j) (of_nat b) = of_nat (out1 j b) \<and>
      drop_bit 1 (of_nat j) + push_bit (K - 2) (of_nat b) = (of_nat (nxt j b) :: u8)) [0..<2]) [0..<64]"
  by code_simp

lemma bitEncoding_table:
  "list_all (\<lambda>j. list_all (\<lambda>b. bitEncoding (of_nat j) (of_nat b) =
     [if out0 j b = 1 then - 15 else 15, if out1 j b = 1 then - 15 else 15]) [0..<2]) [0..<64]"
  by code_simp

lemma enc_gen_eq:
  assumes "j < 64" and "b < 2"
  shows "enc_gen MASK0 (of_nat j) (of_nat b) = of_nat (out0 j b)"
    and "enc_gen MASK1 (of_nat j) (of_nat b) = of_nat (out1 j b)"
    and "drop_bit 1 (of_nat j) + push_bit (K - 2) (of_nat b) = (of_nat (nxt j b) :: u8)"
  using enc_gen_table assms unfolding list_all_iff set_upt by auto

lemma bitEncoding_eq:
  assumes "j < 64" and "b < 2"
  shows "bitEncoding (of_nat j) (of_nat b) =
    [if out0 j b = 1 then - 15 else 15, if out1 j b = 1 then - 15 else 15]"
  using bitEncoding_table assms unfolding list_all_iff set_upt by auto

text \<open>Bits in bytes and bits as numbers.\<close>

lemma unat_bits: "is_bits bs \<Longrightarrow> is_bin (map unat bs)"
  by (auto simp: subset_iff)

lemma of_nat_unat_bits: "map of_nat (map unat bs) = (bs :: u8 list)"
  by (simp add: comp_def)

text \<open>The main loop from any register value.\<close>

definition enc_body :: "u8 list \<Rightarrow> nat \<Rightarrow> u8 \<times> nat \<times> s8 list \<Rightarrow> (u8 \<times> nat \<times> s8 list) option" where
  "enc_body iBuf i = (\<lambda>(sReg, oIndex, oBuf). do {
         iBit \<leftarrow> rd iBuf i;
         let g0 = enc_gen MASK0 sReg iBit;
         let g1 = enc_gen MASK1 sReg iBit;
         let sReg = drop_bit 1 sReg + push_bit (K - 2) iBit;
         oBuf \<leftarrow> wr oBuf oIndex g0;
         oBuf \<leftarrow> wr oBuf (oIndex + 1) g1;
         Some (sReg, oIndex + 2, oBuf) })"

lemma enc_loop:
  assumes "is_bits (take n ib)" and "n \<le> length ib" and "2 * n \<le> length ob"
  defines "ns \<equiv> map unat (take n ib)"
  shows "foreach [0..<n] (enc_body ib) (0, 0, ob) =
    Some (of_nat (run 0 ns), 2 * n, map of_nat (coded 0 ns) @ drop (2 * n) ob)"
  using assms(1-3) unfolding ns_def
proof (induction n)
  case 0
  then show ?case by simp
next
  case (Suc n)
  let ?ns = "map unat (take n ib)"
  have bits: "is_bits (take n ib)" "ib ! n \<in> {0, 1}"
    using Suc.prems by (auto simp: take_Suc_conv_app_nth)
  then have bin: "is_bin ?ns" "unat (ib ! n) < 2" by (simp add: unat_bits, auto)
  let ?j = "run 0 ?ns" and ?b = "unat (ib ! n)"
  have eqs: "enc_gen MASK0 (of_nat ?j) (ib ! n) = of_nat (out0 ?j ?b)"
    "enc_gen MASK1 (of_nat ?j) (ib ! n) = of_nat (out1 ?j ?b)"
    "drop_bit 1 (of_nat ?j) + push_bit (K - 2) (ib ! n) = (of_nat (nxt ?j ?b) :: u8)"
    using enc_gen_eq [OF run_less [of 0 ?ns] bin(2)] bin(1) by simp_all
  have two: "drop (2 * n) ob = ob ! (2 * n) # ob ! (2 * n + 1) # drop (2 * n + 2) ob"
    using Suc.prems by (simp add: Cons_nth_drop_Suc)
  have "length (take n ib) = n" using Suc.prems by simp
  moreover have "take (Suc n) ib = take n ib @ [ib ! n]"
    using Suc.prems by (simp add: take_Suc_conv_app_nth)
  moreover have "enc_body ib n (of_nat ?j, 2 * n, map of_nat (coded 0 ?ns) @ drop (2 * n) ob)
      = Some (of_nat (nxt ?j ?b), 2 * n + 2,
          map of_nat (coded 0 ?ns @ [out0 ?j ?b, out1 ?j ?b]) @ drop (2 * n + 2) ob)"
    using Suc.prems eqs \<open>length (take n ib) = n\<close> unfolding enc_body_def two
    by (simp add: list_update_append)
  ultimately show ?case
    using Suc.IH bits(1) Suc.prems by (simp add: run_append coded_append)
qed

lemma viterbi_encoding_eq:
  assumes "is_bits (take 64 ib)" and "112 \<le> length ib" and "224 \<le> length ob"
  shows "viterbi_encoding ib ob = Some (take 64 ib @ replicate 48 0 @ drop 112 ib,
    map of_nat (coded 0 (map unat (take 64 ib))) @ replicate 96 0 @ drop 224 ob)"
proof -
  let ?ob = "replicate 224 0 @ drop 224 ob" and ?ib = "take 64 ib @ replicate 48 0 @ drop 112 ib"
  have 1: "foreach [0..<OUTPUT_LEN] (\<lambda>i b. wr b i 0) ob = Some ?ob"
    using assms(3) by (subst foreach_write_prefix) (simp_all add: map_replicate_const)
  have 2: "foreach [0..<ZERO_PADDING] (\<lambda>j b. wr b (CODE_BLOCK + j) 0) ib = Some ?ib"
    using assms(2) by (subst foreach_write_at) (simp_all add: map_replicate_const)
  have 3: "foreach [0..<64] (enc_body ?ib) (0, 0, ?ob) =
    Some (of_nat (run 0 (map unat (take 64 ?ib))), 2 * 64,
      map of_nat (coded 0 (map unat (take 64 ?ib))) @ drop (2 * 64) ?ob)"
    using assms by (intro enc_loop) simp_all
  then show ?thesis
    using assms(2) unfolding viterbi_encoding_def 1 2 enc_body_def [symmetric] by simp
qed


text \<open>The register holds the last six inputs, so the automaton is the convolution.\<close>

definition tap :: "nat list \<Rightarrow> nat \<Rightarrow> nat \<Rightarrow> nat" where
  "tap xs t k = (if k \<le> t \<and> t - k < length xs then xs ! (t - k) else 0)"

lemma tap_bin: "is_bin xs \<Longrightarrow> tap xs t k < 2"
  by (auto simp: tap_def subset_iff)

lemma run_taps:
  assumes "is_bin xs" and "t < length xs"
  shows "run 0 (take t xs) = 32 * tap xs t 1 + 16 * tap xs t 2 + 8 * tap xs t 3 + 4 * tap xs t 4
    + 2 * tap xs t 5 + tap xs t 6"
  using assms(2)
proof (induction t)
  case 0
  then show ?case by (simp add: tap_def)
next
  case (Suc t)
  have shift: "tap xs (Suc t) (Suc k) = tap xs t k" for k using Suc.prems by (auto simp: tap_def)
  have shifts: "tap xs (Suc t) 2 = tap xs t 1" "tap xs (Suc t) 3 = tap xs t 2" "tap xs (Suc t) 4 = tap xs t 3"
    "tap xs (Suc t) 5 = tap xs t 4" "tap xs (Suc t) 6 = tap xs t 5" "tap xs (Suc t) 1 = xs ! t"
    using shift [of 1] shift [of 2] shift [of 3] shift [of 4] shift [of 5] shift [of 0] Suc.prems
    by (simp_all add: tap_def eval_nat_numeral)
  have "tap xs t 6 < 2" by (rule tap_bin [OF assms(1)])
  moreover have "run 0 (take (Suc t) xs) = nxt (run 0 (take t xs)) (xs ! t)"
    using Suc.prems by (simp add: take_Suc_conv_app_nth run_append)
  ultimately show ?case using Suc unfolding shifts nxt_def by simp
qed

lemma coded_nth:
  "t < length xs \<Longrightarrow> coded j xs ! (2 * t) = out0 (run j (take t xs)) (xs ! t) \<and>
    coded j xs ! (2 * t + 1) = out1 (run j (take t xs)) (xs ! t)"
proof (induction xs arbitrary: j t)
  case (Cons x xs)
  then show ?case by (cases t) auto
qed simp

lemma out_register:
  fixes a b c d e f :: nat
  assumes "a < 2" and "b < 2" and "c < 2" and "d < 2" and "e < 2" and "f < 2"
  defines "j \<equiv> 32 * a + 16 * b + 8 * c + 4 * d + 2 * e + f"
  shows "out0 j x = (x + b + c + e + f) mod 2" and "out1 j x = (x + a + b + c + f) mod 2"
proof -
  have "j div 2 = 16 * a + 8 * b + 4 * c + 2 * d + e" "j div 8 = 4 * a + 2 * b + c"
    "j div 16 = 2 * a + b" "j div 32 = a"
    using assms(1-6) unfolding j_def by simp_all
  moreover have "x + (32*a + 16*b + 8*c + 4*d + 2*e + f) + (16*a + 8*b + 4*c + 2*d + e) + (4*a + 2*b + c) + (2*a + b)
      = (x + b + c + e + f) + 2 * (27*a + 13*b + 6*c + 3*d + e)"
    by simp
  moreover have "x + (32*a + 16*b + 8*c + 4*d + 2*e + f) + (4*a + 2*b + c) + (2*a + b) + a
      = (x + a + b + c + f) + 2 * (19*a + 9*b + 4*c + 2*d + e)"
    by simp
  ultimately show "out0 j x = (x + b + c + e + f) mod 2" "out1 j x = (x + a + b + c + f) mod 2"
    unfolding out0_def out1_def by (simp_all only: j_def mod_mult_self2)
qed

lemma coded_conv:
  assumes "is_bin xs" and "t < length xs"
  shows "coded 0 xs ! (2 * t) = (xs ! t + tap xs t 2 + tap xs t 3 + tap xs t 5 + tap xs t 6) mod 2"
    and "coded 0 xs ! (2 * t + 1) = (xs ! t + tap xs t 1 + tap xs t 2 + tap xs t 3 + tap xs t 6) mod 2"
  using tap_bin [OF assms(1)] coded_nth [OF assms(2), of 0]
  by (simp_all only: run_taps [OF assms] out_register)

section \<open>Rate 1/2 puncturing copies\<close>

lemma copy_224:
  assumes "224 \<le> length ib" and "224 \<le> length ob"
  shows "foreach [0..<OUTPUT_LEN] (\<lambda>i b. do { x \<leftarrow> rd ib i; wr b i x }) ob = Some (take 224 ib @ drop 224 ob)"
  using assms by (subst foreach_write_fun [where g = "\<lambda>i. ib ! i"]) (auto simp: map_nth_take)

lemma viterbi_puncturing_1_2:
  "224 \<le> length ib \<Longrightarrow> 224 \<le> length ob \<Longrightarrow>
   viterbi_puncturing PUNC_RATE_1_2 ib ob = Some (take 224 ib @ drop 224 ob)"
  by (simp only: viterbi_puncturing_def copy_224 simp_thms if_True)

lemma viterbi_depuncturing_1_2:
  "224 \<le> length ib \<Longrightarrow> 224 \<le> length ob \<Longrightarrow>
   viterbi_depuncturing PUNC_RATE_1_2 ib ob = Some (take 224 ib @ drop 224 ob)"
  by (simp only: viterbi_depuncturing_def copy_224 simp_thms if_True)

definition hard_level :: "s8 \<Rightarrow> s8" where
  "hard_level x = (if x = 1 then - 10 else 10)"

lemma formatConversion_loop:
  assumes "n \<le> length ib" and "n \<le> length ob"
  shows "foreach [0..<n] (\<lambda>i (k, oBuf). do {
           x \<leftarrow> rd ib i;
           oBuf \<leftarrow> wr oBuf k (if x = 1 then - 10 else 10);
           Some (k + 1, oBuf) }) (0, ob) = Some (n, map hard_level (take n ib) @ drop n ob)"
  using assms
proof (induction n)
  case 0
  then show ?case by simp
next
  case (Suc n)
  then have "drop n ob = ob ! n # drop (Suc n) ob" by (simp add: Cons_nth_drop_Suc)
  with Suc show ?case by (simp add: list_update_append take_Suc_conv_app_nth hard_level_def min_absorb2)
qed

lemma formatConversion_1_2:
  "224 \<le> length ib \<Longrightarrow> 224 \<le> length ob \<Longrightarrow>
   formatConversion PUNC_RATE_1_2 ib ob = Some (map hard_level (take 224 ib) @ drop 224 ob)"
  by (simp only: formatConversion_def Let_def simp_thms if_True formatConversion_loop option.map snd_conv)


section \<open>The pools are allocators\<close>

abbreviation is_pool :: "pool \<Rightarrow> bool" where
  "is_pool p \<equiv> length p = MAX_VITERBI"

definition idle :: "pool \<Rightarrow> nat set" where
  "idle p = {i. i < MAX_VITERBI \<and> p ! i = IDLE}"

lemma find_upt_Some: "find P [0..<n] = Some i \<Longrightarrow> i < n \<and> P i"
  by (auto simp: find_Some_iff)

lemma find_upt_None: "find P [0..<n] = None \<Longrightarrow> i < n \<Longrightarrow> \<not> P i"
  by (auto simp: find_None_iff)

lemma idle_update: "is_pool p \<Longrightarrow> i < MAX_VITERBI \<Longrightarrow> idle (p[i := BUSY]) = idle p - {i}"
  by (auto simp: idle_def nth_list_update)

lemma get_viterbiDecoder_eq: "get_viterbiDecoder = get_viterbiEncoder"
  by (simp add: fun_eq_iff get_viterbiDecoder_def get_viterbiEncoder_def)

interpretation encoders: allocator is_pool get_viterbiEncoder idle
  by unfold_locales
    (auto simp: get_viterbiEncoder_def idle_def nth_list_update split: if_splits dest!: find_upt_Some find_upt_None split: option.splits)

interpretation decoders: allocator is_pool get_viterbiDecoder idle
  unfolding get_viterbiDecoder_eq by (rule encoders.allocator_axioms)

lemma init_pool: "is_pool p \<Longrightarrow> init_viterbiEncoder p = Some (replicate MAX_VITERBI IDLE)"
  unfolding init_viterbiEncoder_def by (subst foreach_write_prefix) (simp_all add: map_replicate_const)

lemma init_viterbiDecoder_eq: "init_viterbiDecoder = init_viterbiEncoder"
  by (simp add: fun_eq_iff init_viterbiDecoder_def init_viterbiEncoder_def)

lemma card_idle_init: "card (idle (replicate MAX_VITERBI IDLE)) = 5"
proof -
  have "idle (replicate MAX_VITERBI IDLE) = {..<5}" by (auto simp: idle_def)
  then show ?thesis by simp
qed

section \<open>Properties\<close>

text \<open>
  After initialisation a pool serves exactly five objects: any number of calls up to
  five returns as many different ids, and a sixth call ends the process.
\<close>

theorem pools_serve_five:
  assumes "is_pool p"
  shows "\<exists>q. init_viterbiDecoder p = Some q \<and>
    (if n \<le> 5 then \<exists>is q'. alloc_many get_viterbiDecoder n q = Inr (is, q') \<and> length is = n \<and> distinct is \<and> set is \<subseteq> {..<5}
     else alloc_many get_viterbiDecoder n q = Inl EXIT_FAILURE)"
proof -
  let ?q = "replicate MAX_VITERBI IDLE"
  have "idle ?q \<subseteq> {..<5}" by (auto simp: idle_def)
  moreover have "\<exists>is q'. alloc_many get_viterbiDecoder n ?q = Inr (is, q')" if "n \<le> 5"
    using that card_idle_init by (intro decoders.many_succeeds) simp_all
  moreover have "\<exists>e. alloc_many get_viterbiDecoder n ?q = Inl e" if "\<not> n \<le> 5"
    using that card_idle_init by (intro decoders.many_fails) simp_all
  moreover have "e = EXIT_FAILURE" for e by (cases e)
  ultimately show ?thesis
    using init_pool [OF assms] decoders.many_distinct [of ?q n]
    by (cases "n \<le> 5") (fastforce simp: init_viterbiDecoder_eq)+
qed

theorem pools_serve_five_witness:
  "\<exists>q. init_viterbiDecoder [BUSY, IDLE, BUSY, BUSY, IDLE] = Some q \<and>
    (if (3::nat) \<le> 5 then \<exists>is q'. alloc_many get_viterbiDecoder 3 q = Inr (is, q') \<and> length is = 3 \<and> distinct is \<and> set is \<subseteq> {..<5}
     else alloc_many get_viterbiDecoder 3 q = Inl EXIT_FAILURE)"
  by (rule pools_serve_five) simp

text \<open>
  C39: the encoder computes the rate 1/2 convolutional code with generators 133 and 171
  (octal) of the 64 bits of the code block, from the zero register. The remaining 96 cells
  of the 224-cell output are zero: the 48 padding bits are stored but never encoded.
\<close>

theorem viterbi_encoding_convolution:
  assumes "is_bits (take 64 ib)" and "112 \<le> length ib" and "224 \<le> length ob"
  shows "\<exists>ib' ob'. viterbi_encoding ib ob = Some (ib', ob') \<and>
    ib' = take 64 ib @ replicate 48 0 @ drop 112 ib \<and> drop 128 ob' = replicate 96 0 @ drop 224 ob \<and>
    (let x = tap (map unat (take 64 ib)) in
     \<forall>t<64. ob' ! (2 * t) = of_nat ((x t 0 + x t 2 + x t 3 + x t 5 + x t 6) mod 2) \<and>
            ob' ! (2 * t + 1) = of_nat ((x t 0 + x t 1 + x t 2 + x t 3 + x t 6) mod 2))"
proof -
  let ?xs = "map unat (take 64 ib)"
  let ?ob = "map of_nat (coded 0 ?xs) @ replicate 96 0 @ drop 224 ob"
  have len: "length ?xs = 64" using assms(2) by simp
  have "?ob ! (2 * t) = of_nat ((tap ?xs t 0 + tap ?xs t 2 + tap ?xs t 3 + tap ?xs t 5 + tap ?xs t 6) mod 2) \<and>
      ?ob ! (2 * t + 1) = of_nat ((tap ?xs t 0 + tap ?xs t 1 + tap ?xs t 2 + tap ?xs t 3 + tap ?xs t 6) mod 2)"
    if "t < 64" for t
  proof -
    have ix: "2 * t < length (coded 0 ?xs)" "2 * t + 1 < length (coded 0 ?xs)" "t < length ?xs"
      using that assms(2) by simp_all
    have "?xs ! t = tap ?xs t 0" using ix(3) by (simp add: tap_def)
    moreover have "(map of_nat (coded 0 ?xs) @ r) ! k = of_nat (coded 0 ?xs ! k)" if "k < length (coded 0 ?xs)" for k and r :: "s8 list"
      using that by (simp only: nth_append length_map nth_map if_True)
    ultimately show ?thesis
      using coded_conv [OF unat_bits [OF assms(1)] ix(3)] ix(1,2) by (simp only:)
  qed
  then show ?thesis
    using viterbi_encoding_eq [OF assms] len unfolding Let_def by (intro exI conjI) auto
qed

theorem viterbi_encoding_convolution_witness:
  "\<exists>ib' ob'. viterbi_encoding (replicate 112 1) (replicate 224 9) = Some (ib', ob') \<and>
    ib' = take 64 (replicate 112 1) @ replicate 48 0 @ drop 112 (replicate 112 1) \<and>
    drop 128 ob' = replicate 96 0 @ drop 224 (replicate 224 9) \<and>
    (let x = tap (map unat (take 64 (replicate 112 (1::u8)))) in
     \<forall>t<64. ob' ! (2 * t) = of_nat ((x t 0 + x t 2 + x t 3 + x t 5 + x t 6) mod 2) \<and>
            ob' ! (2 * t + 1) = of_nat ((x t 0 + x t 1 + x t 2 + x t 3 + x t 6) mod 2))"
  by (rule viterbi_encoding_convolution) simp_all


text \<open>
  At rate 1/2, the rate the application uses, depuncturing recovers the coded bits the
  sender punctured.
\<close>

lemma depuncturing_puncturing_1_2:
  assumes "224 \<le> length c" and "224 \<le> length ob" and "224 \<le> length ob'"
  shows "Option.bind (viterbi_puncturing PUNC_RATE_1_2 c ob) (\<lambda>p. viterbi_depuncturing PUNC_RATE_1_2 p ob')
    = Some (take 224 c @ drop 224 ob')"
  using assms viterbi_depuncturing_1_2 [of "take 224 c @ drop 224 ob" ob']
  by (simp only: viterbi_puncturing_1_2 Option.bind.simps) simp

definition depunc_body :: "s8 list \<Rightarrow> nat \<Rightarrow> nat \<times> s8 list \<Rightarrow> (nat \<times> s8 list) option" where
  "depunc_body iBuf i = (\<lambda>(depuncBase, oBuf). do {
            let depuncIndex = i mod 12;
            let depuncBase = (if depuncIndex = 0 then if i = 0 then i else depuncBase + 18 else depuncBase);
            x \<leftarrow> rd iBuf i;
            oBuf \<leftarrow> wr oBuf (depuncShuffle ! depuncIndex + depuncBase) x;
            Some (depuncBase, oBuf) })"

lemma depunc_base:
  "foreach [0..<n] (depunc_body ib) (0, ob) = Some (b, ob') \<Longrightarrow>
   length ob' = length ob \<and> b = 18 * ((n - 1) div 12)"
proof (induction n arbitrary: b ob')
  case 0
  then show ?case by simp
next
  case (Suc n)
  then obtain c ob1 where 1: "foreach [0..<n] (depunc_body ib) (0, ob) = Some (c, ob1)"
    and 2: "depunc_body ib n (c, ob1) = Some (b, ob')"
    by (auto simp: bind_eq_Some_conv)
  have "length ob' = length ob1" "b = (if n mod 12 = 0 then if n = 0 then n else c + 18 else c)"
    using 2 by (auto simp: depunc_body_def Let_def bind_eq_Some_conv dest: wr_length)
  moreover have "18 * ((n - 1) div 12) + 18 = 18 * (n div 12)" if "n mod 12 = 0" "n \<noteq> 0"
  proof -
    from that(1) obtain q where "n = 12 * q" by auto
    with that(2) show ?thesis by (cases q) simp_all
  qed
  moreover have "(n - 1) div 12 = n div 12" if "n mod 12 \<noteq> 0"
    using that by (metis One_nat_def Suc_pred div_Suc mod_0 neq0_conv)
  ultimately show ?case using Suc.IH [OF 1] by (auto split: if_splits)
qed

text \<open>
  At rate 2/3 the permutation reaches past the code block: for a 224-cell output, the
  size the receiver gives it, depuncturing writes cell 225 whatever the input is.
\<close>

theorem viterbi_depuncturing_2_3_overflows:
  assumes "length ob = 224"
  shows "viterbi_depuncturing PUNC_RATE_2_3 ib ob = None"
proof -
  have "foreach [0..<146] (depunc_body ib) (0, ob0) = None" if "length ob0 = 224" for ob0
  proof -
    have "depunc_body ib 145 (b, ob') = None" if "foreach [0..<145] (depunc_body ib) (0, ob0) = Some (b, ob')" for b ob'
      using depunc_base [OF that] \<open>length ob0 = 224\<close>
      by (auto simp: depunc_body_def depuncShuffle_def Let_def wr_out bind_eq_None_conv rd_def)
    moreover have "[0..<146] = [0..<145] @ [145]" using upt_Suc_append [of 0 145] by simp
    ultimately show ?thesis by (cases "foreach [0..<145] (depunc_body ib) (0, ob0)") auto
  qed
  moreover have "[0..<149] = [0..<146] @ [146..<149]" using upt_add_eq_append [of 0 146 3] by simp
  ultimately have "foreach [0..<149] (depunc_body ib) (0, ob0) = None" if "length ob0 = 224" for ob0
    using that by (simp only: foreach_append Option.bind.simps)
  moreover have "foreach [0..<OUTPUT_LEN] (\<lambda>i b. wr b i 0) ob = Some (replicate 224 0)"
    using assms by (subst foreach_write_prefix) (simp_all add: map_replicate_const)
  ultimately show ?thesis
    unfolding viterbi_depuncturing_def depunc_body_def [symmetric] by (simp add: Let_def)
qed

theorem viterbi_depuncturing_2_3_overflows_witness:
  "viterbi_depuncturing PUNC_RATE_2_3 (replicate 224 1) (replicate 224 0) = None"
  by (rule viterbi_depuncturing_2_3_overflows) simp

end
