(* ===== verification/Viterbi_Decoder.thy ===== *)
theory Viterbi_Decoder
  imports Viterbi_Encoder
begin

text \<open>
  \<^verbatim>\<open>viterbi.c\<close>, receiver side: the survivor memory (64 columns of 64 trellis states), its
  initialisation, and the four phases of decoding: clear a column, add the branch metrics,
  add-compare-select, trace back. Pointers into the survivor memory are pairs of a column
  and a state; \<open>None\<close> is the null pointer. The \<^verbatim>\<open>int\<close> costs are integers, the \<^verbatim>\<open>short\<close> of
  the trace-back search is taken modulo \<open>2 ^ 16\<close>.
\<close>

section \<open>State\<close>

abbreviation (input) SM_STEP :: nat where "SM_STEP \<equiv> 64"
abbreviation (input) SM_STATE :: nat where "SM_STATE \<equiv> 64"

record survivorMemory =
  step :: int
  state :: int
  branchCount :: u8
  prev :: "(nat \<times> nat) option list"
  input :: "u8 list"
  sm_output :: "s8 list list"
  cost :: "int list"
  minPathId :: u8
  minCost :: int

record viterbiDecoder =
  smu :: "survivorMemory list list"
  init_cost :: "int list"
  initFlag :: int

definition smu_at :: "viterbiDecoder \<Rightarrow> nat \<Rightarrow> nat \<Rightarrow> survivorMemory option" where
  "smu_at vd c n = do { col \<leftarrow> rd (smu vd) c; rd col n }"

definition smu_set :: "viterbiDecoder \<Rightarrow> nat \<Rightarrow> nat \<Rightarrow> survivorMemory \<Rightarrow> viterbiDecoder option" where
  "smu_set vd c n sm = do {
     col \<leftarrow> rd (smu vd) c;
     col \<leftarrow> wr col n sm;
     cols \<leftarrow> wr (smu vd) c col;
     Some (vd\<lparr>smu := cols\<rparr>) }"

section \<open>Initialisation of the trellis\<close>

text \<open>One of the two blocks of the loop body: branch \<open>count\<close> of \<open>smu[i][nState]\<close> comes from state \<open>j\<close>.\<close>

definition add_branch :: "nat \<Rightarrow> nat \<Rightarrow> u8 \<Rightarrow> nat \<Rightarrow> viterbiDecoder \<Rightarrow> viterbiDecoder option" where
  "add_branch i j b nState vd = do {
     sm \<leftarrow> smu_at vd i nState;
     let count = unat (branchCount sm);
     p \<leftarrow> wr (prev sm) count (Some (if i = 0 then SM_STEP - 1 else i - 1, j));
     inp \<leftarrow> wr (input sm) count b;
     outp \<leftarrow> wr (sm_output sm) count (bitEncoding (of_nat j) b);
     smu_set vd i nState
       (sm\<lparr>branchCount := branchCount sm + 1, prev := p, input := inp, sm_output := outp\<rparr>) }"

definition set_viterbiDecoder :: "viterbiDecoder \<Rightarrow> viterbiDecoder option" where
  "set_viterbiDecoder vd = do {
     vd \<leftarrow> foreach [0..<SM_STEP] (\<lambda>i. foreach [0..<SM_STATE] (\<lambda>j vd. do {
         sm \<leftarrow> smu_at vd i j;
         smu_set vd i j (sm\<lparr>step := int i, state := int j\<rparr>) })) vd;
     foreach [0..<SM_STEP] (\<lambda>i. foreach [0..<SM_STATE] (\<lambda>j vd. do {
         vd \<leftarrow> add_branch i j 0 (j div 2) vd;
         add_branch i j 1 (SM_STATE div 2 + j div 2) vd })) vd }"

section \<open>One column\<close>

definition viterbi_initSmu :: "nat \<Rightarrow> int \<Rightarrow> viterbiDecoder \<Rightarrow> viterbiDecoder option" where
  "viterbi_initSmu column flag = foreach [0..<SM_STATE] (\<lambda>i vd. do {
     sm \<leftarrow> smu_at vd column i;
     cs \<leftarrow> foreach [0..<2] (\<lambda>j cs. wr cs j 0) (cost sm);
     if flag \<noteq> 0 then do {
       ic \<leftarrow> rd (init_cost vd) i;
       smu_set (vd\<lparr>initFlag := 1\<rparr>) column i (sm\<lparr>cost := cs, minCost := ic\<rparr>) }
     else smu_set vd column i (sm\<lparr>cost := cs, minCost := 0\<rparr>) })"

definition viterbi_BMC :: "nat \<Rightarrow> s8 list \<Rightarrow> viterbiDecoder \<Rightarrow> viterbiDecoder option" where
  "viterbi_BMC column iBuf = foreach [0..<SM_STATE] (\<lambda>i vd. do {
     sm \<leftarrow> smu_at vd column i;
     cs \<leftarrow> foreach [0..<2] (\<lambda>j. foreach [0..<2] (\<lambda>k cs. do {
         oj \<leftarrow> rd (sm_output sm) j;
         ojk \<leftarrow> rd oj k;
         y \<leftarrow> rd iBuf k;
         cj \<leftarrow> rd cs j;
         if sint ojk > sint y then wr cs j (cj + (sint ojk - sint y))
         else wr cs j (cj + (sint y - sint ojk)) })) (cost sm);
     smu_set vd column i (sm\<lparr>cost := cs\<rparr>) })"

definition viterbi_ACS :: "nat \<Rightarrow> viterbiDecoder \<Rightarrow> viterbiDecoder option" where
  "viterbi_ACS column vd = do {
     vd \<leftarrow> foreach [0..<SM_STATE] (\<lambda>i vd. do {
         sm \<leftarrow> smu_at vd column i;
         cs \<leftarrow> (if initFlag vd = 0 then
             foreach [0..<2] (\<lambda>j cs. do {
               p \<leftarrow> rd (prev sm) j;
               (c, n) \<leftarrow> p;
               psm \<leftarrow> smu_at vd c n;
               cj \<leftarrow> rd cs j;
               wr cs j (cj + minCost psm) }) (cost sm)
           else Some (cost sm));
         c0 \<leftarrow> rd cs 0;
         c1 \<leftarrow> rd cs 1;
         if c0 > c1 then smu_set vd column i (sm\<lparr>cost := cs, minPathId := 1, minCost := c1\<rparr>)
         else smu_set vd column i (sm\<lparr>cost := cs, minPathId := 0, minCost := c0\<rparr>) }) vd;
     Some (vd\<lparr>initFlag := 0\<rparr>) }"

section \<open>Trace-back and the decoder\<close>

text \<open>Conversion of an \<^verbatim>\<open>int\<close> to \<^verbatim>\<open>short\<close>.\<close>

definition to_short :: "int \<Rightarrow> int" where
  "to_short x = signed_take_bit 15 x"

definition best_state :: "viterbiDecoder \<Rightarrow> nat \<Rightarrow> nat option" where
  "best_state vd oIndex = do {
     sm \<leftarrow> smu_at vd oIndex 0;
     (mc, minId) \<leftarrow> foreach [1..<SM_STATE] (\<lambda>i (mc, minId). do {
         sm \<leftarrow> smu_at vd oIndex i;
         if minCost sm < mc then Some (to_short (minCost sm), i) else Some (mc, minId) })
       (to_short (minCost sm), 0);
     Some minId }"

definition viterbi_TB :: "viterbiDecoder \<Rightarrow> nat \<Rightarrow> u8 list \<Rightarrow> u8 list option" where
  "viterbi_TB vd oIndex oBuf = do {
     minId \<leftarrow> best_state vd oIndex;
     (ptr, oBuf) \<leftarrow> foreach (rev [0..<oIndex + 1]) (\<lambda>i (ptr, oBuf). do {
         (c, n) \<leftarrow> ptr;
         sm \<leftarrow> smu_at vd c n;
         b \<leftarrow> rd (input sm) (unat (minPathId sm));
         oBuf \<leftarrow> wr oBuf i b;
         p \<leftarrow> rd (prev sm) (unat (minPathId sm));
         Some (p, oBuf) }) (Some (oIndex, minId), oBuf);
     Some oBuf }"

definition decode_column :: "s8 list \<Rightarrow> nat \<Rightarrow> viterbiDecoder \<Rightarrow> viterbiDecoder option" where
  "decode_column iBuf i vd = do {
     let column = i;
     vd \<leftarrow> (if column = 0 then viterbi_initSmu column 1 vd else viterbi_initSmu column 0 vd);
     vd \<leftarrow> viterbi_BMC column (drop (i * OUT_RATE) iBuf) vd;
     viterbi_ACS column vd }"

definition viterbi_decoding :: "s8 list \<Rightarrow> u8 list \<Rightarrow> viterbiDecoder \<Rightarrow> (u8 list \<times> viterbiDecoder) option" where
  "viterbi_decoding iBuf oBuf vd = do {
     oBuf \<leftarrow> foreach [0..<USR_DAT_LEN] (\<lambda>i b. wr b i 0) oBuf;
     ic \<leftarrow> wr (init_cost vd) 0 0;
     ic \<leftarrow> foreach [1..<SM_STATE] (\<lambda>i c. wr c i 0xFFFF) ic;
     vd \<leftarrow> foreach [0..<SM_STEP] (decode_column iBuf) (vd\<lparr>init_cost := ic\<rparr>);
     oBuf \<leftarrow> viterbi_TB vd (SM_STEP - 1) oBuf;
     Some (oBuf, vd) }"


section \<open>The trellis as a dynamic program\<close>

definition level :: "nat \<Rightarrow> s8" where
  "level x = (if x = 1 then - 15 else 15)"

definition branch_output :: "nat \<Rightarrow> nat \<Rightarrow> s8 list" where
  "branch_output j b = [level (out0 j b), level (out1 j b)]"

definition dist :: "s8 \<Rightarrow> s8 \<Rightarrow> int" where
  "dist a y = \<bar>sint a - sint y\<bar>"

text \<open>Cost of the branch from state \<open>j\<close> with input \<open>b\<close> at step \<open>t\<close> of the received sequence.\<close>

definition bmetric :: "s8 list \<Rightarrow> nat \<Rightarrow> nat \<Rightarrow> nat \<Rightarrow> int" where
  "bmetric y t j b = dist (level (out0 j b)) (y ! (2 * t)) + dist (level (out1 j b)) (y ! (2 * t + 1))"

text \<open>Cost of the path from state \<open>j\<close> along the inputs \<open>bs\<close>.\<close>

definition path_metric :: "s8 list \<Rightarrow> nat \<Rightarrow> nat list \<Rightarrow> int" where
  "path_metric y j bs = (\<Sum>t<length bs. bmetric y t (run j (take t bs)) (bs ! t))"

text \<open>The two predecessors of a state, and the input that leads into it.\<close>

definition pred_state :: "nat \<Rightarrow> nat \<Rightarrow> nat" where
  "pred_state k n = 2 * (n mod 32) + k"

definition in_bit :: "nat \<Rightarrow> nat" where
  "in_bit n = n div 32"

fun vcost :: "s8 list \<Rightarrow> nat \<Rightarrow> nat \<Rightarrow> int"
and bcost :: "s8 list \<Rightarrow> nat \<Rightarrow> nat \<Rightarrow> nat \<Rightarrow> int" where
  "vcost y t n = (if bcost y t n 0 > bcost y t n 1 then bcost y t n 1 else bcost y t n 0)"
| "bcost y 0 n k = bmetric y 0 (pred_state k n) (in_bit n)"
| "bcost y (Suc t) n k = bmetric y (Suc t) (pred_state k n) (in_bit n) + vcost y t (pred_state k n)"

definition choice :: "s8 list \<Rightarrow> nat \<Rightarrow> nat \<Rightarrow> nat" where
  "choice y t n = (if bcost y t n 0 > bcost y t n 1 then 1 else 0)"

primrec trace :: "s8 list \<Rightarrow> nat \<Rightarrow> nat \<Rightarrow> nat list" where
  "trace y 0 n = [in_bit n]"
| "trace y (Suc t) n = trace y t (pred_state (choice y (Suc t) n) n) @ [in_bit n]"

primrec origin :: "s8 list \<Rightarrow> nat \<Rightarrow> nat \<Rightarrow> nat" where
  "origin y 0 n = pred_state (choice y 0 n) n"
| "origin y (Suc t) n = origin y t (pred_state (choice y (Suc t) n) n)"

declare vcost.simps [simp del] bcost.simps [simp del]

lemma pred_state_less: "n < 64 \<Longrightarrow> k < 2 \<Longrightarrow> pred_state k n < 64"
  by (simp add: pred_state_def)

lemma in_bit_less: "n < 64 \<Longrightarrow> in_bit n < 2"
  by (simp add: in_bit_def)

lemma choice_less: "choice y t n < 2"
  by (simp add: choice_def)

lemma nxt_pred: "n < 64 \<Longrightarrow> k < 2 \<Longrightarrow> nxt (pred_state k n) (in_bit n) = n"
  by (simp add: nxt_def pred_state_def in_bit_def)

lemma pred_nxt:
  assumes "j < 64" and "b < 2"
  shows "pred_state (j mod 2) (nxt j b) = j" and "in_bit (nxt j b) = b"
  using assms by (auto simp: nxt_def pred_state_def in_bit_def)

lemma vcost_le: "k < 2 \<Longrightarrow> vcost y t n \<le> bcost y t n k"
  by (cases k) (auto simp: vcost.simps less_Suc_eq)

lemma vcost_choice: "vcost y t n = bcost y t n (choice y t n)"
  by (simp add: vcost.simps choice_def)

lemma path_metric_snoc:
  "path_metric y j (bs @ [b]) = path_metric y j bs + bmetric y (length bs) (run j bs) b"
proof -
  have "(\<Sum>t<length bs. bmetric y t (run j (take t (bs @ [b]))) ((bs @ [b]) ! t)) = path_metric y j bs"
    unfolding path_metric_def by (rule sum.cong) (simp_all add: nth_append)
  then show ?thesis by (simp add: path_metric_def)
qed

lemma path_metric_Nil [simp]: "path_metric y j [] = 0"
  by (simp add: path_metric_def)

text \<open>The traced path ends in its state and has the computed cost.\<close>

lemma trace_props:
  assumes "n < 64"
  shows "length (trace y t n) = Suc t \<and> is_bin (trace y t n) \<and> origin y t n < 64 \<and>
    run (origin y t n) (trace y t n) = n \<and> path_metric y (origin y t n) (trace y t n) = vcost y t n"
  using assms
proof (induction t arbitrary: n)
  case 0
  then show ?case
    using nxt_pred [OF 0 choice_less] path_metric_snoc [of y "pred_state (choice y 0 n) n" "[]" "in_bit n"]
    by (simp add: in_bit_less pred_state_less choice_less vcost_choice bcost.simps)
next
  case (Suc t)
  let ?p = "pred_state (choice y (Suc t) n) n"
  have "?p < 64" using Suc.prems by (simp add: pred_state_less choice_less)
  from Suc.IH [OF this] show ?case
    using nxt_pred [OF Suc.prems choice_less] Suc.prems
    by (simp add: in_bit_less run_append path_metric_snoc vcost_choice [of y "Suc t"] bcost.simps)
qed

text \<open>No path is cheaper than the cost computed for the state it ends in.\<close>

lemma vcost_lower:
  assumes "j < 64" and "is_bin bs" and "bs \<noteq> []"
  shows "vcost y (length bs - 1) (run j bs) \<le> path_metric y j bs"
  using assms(2,3)
proof (induction bs rule: rev_induct)
  case (snoc b bs)
  let ?i = "run j bs"
  have i: "?i < 64" "b < 2" using run_less [OF assms(1)] snoc.prems(1) by auto
  have "vcost y (length bs) (nxt ?i b) \<le> bcost y (length bs) (nxt ?i b) (?i mod 2)"
    by (rule vcost_le) simp
  also have "\<dots> \<le> path_metric y j (bs @ [b])"
  proof (cases bs rule: rev_cases)
    case Nil
    then show ?thesis using pred_nxt [OF i] by (simp add: bcost.simps path_metric_snoc [of _ _ "[]", simplified])
  next
    case (snoc cs c)
    with snoc.IH snoc.prems have "vcost y (length cs) ?i \<le> path_metric y j bs" by simp
    moreover have "length bs = Suc (length cs)" using snoc by simp
    ultimately show ?thesis using pred_nxt [OF i] by (simp add: bcost.simps path_metric_snoc [of y j bs b])
  qed
  finally show ?case by (simp add: run_append)
qed simp


section \<open>The column operations compute it\<close>

definition branches_ok :: "nat \<Rightarrow> nat \<Rightarrow> survivorMemory \<Rightarrow> bool" where
  "branches_ok c n sm \<longleftrightarrow>
     prev sm = map (\<lambda>k. Some (if c = 0 then 63 else c - 1, pred_state k n)) [0, 1] \<and>
     input sm = [of_nat (in_bit n), of_nat (in_bit n)] \<and>
     sm_output sm = map (\<lambda>k. branch_output (pred_state k n) (in_bit n)) [0, 1]"

text \<open>What \<open>set_viterbiDecoder\<close> establishes and every decoding call keeps.\<close>

definition dec_shape :: "viterbiDecoder \<Rightarrow> bool" where
  "dec_shape vd \<longleftrightarrow> length (smu vd) = 64 \<and> length (init_cost vd) = 64 \<and>
     (\<forall>c<64. length (smu vd ! c) = 64 \<and> (\<forall>n<64. length (cost (smu vd ! c ! n)) = 2))"

definition dec_ok :: "viterbiDecoder \<Rightarrow> bool" where
  "dec_ok vd \<longleftrightarrow> dec_shape vd \<and> (\<forall>c<64. \<forall>n<64. branches_ok c n (smu vd ! c ! n))"

lemma upt_2: "[0..<2] = [0, 1 :: nat]"
  by (simp add: eval_nat_numeral)

lemmas smu_access = smu_at_def smu_set_def

text \<open>A loop over the states of column \<open>c\<close> whose body replaces entry \<open>i\<close> by \<open>g i\<close>.\<close>

lemma column_loop:
  assumes c: "c < length (smu vd)" and len: "length (smu vd ! c) = 64"
    and body: "\<And>i col f. i < 64 \<Longrightarrow> length col = 64 \<Longrightarrow> col ! i = smu vd ! c ! i \<Longrightarrow> f \<in> {initFlag vd, fl} \<Longrightarrow>
      body i (vd\<lparr>initFlag := f, smu := (smu vd)[c := col]\<rparr>)
        = Some (vd\<lparr>initFlag := fl, smu := (smu vd)[c := col[i := g i]]\<rparr>)"
  shows "foreach [0..<64] body vd = Some (vd\<lparr>initFlag := fl, smu := (smu vd)[c := map g [0..<64]]\<rparr>)"
proof -
  let ?col = "smu vd ! c"
  have "foreach [0..<n] body vd = Some (vd\<lparr>initFlag := if n = 0 then initFlag vd else fl,
      smu := (smu vd)[c := map g [0..<n] @ drop n ?col]\<rparr>)" if "n \<le> 64" for n
    using that
  proof (induction n)
    case 0
    have "(smu vd)[c := ?col] = smu vd" by simp
    then show ?case by simp
  next
    case (Suc n)
    let ?f = "if n = 0 then initFlag vd else fl" and ?c = "map g [0..<n] @ drop n ?col"
    have "length ?c = 64" "?c ! n = ?col ! n" using Suc.prems len by (simp_all add: nth_append)
    moreover have "?c[n := g n] = map g [0..<Suc n] @ drop (Suc n) ?col"
      using Suc.prems len by (simp add: list_update_append Cons_nth_drop_Suc [symmetric])
    moreover have "body n (vd\<lparr>initFlag := ?f, smu := (smu vd)[c := ?c]\<rparr>)
        = Some (vd\<lparr>initFlag := fl, smu := (smu vd)[c := ?c[n := g n]]\<rparr>)"
      using Suc.prems calculation(1,2) by (intro body) auto
    ultimately show ?case using Suc by simp
  qed
  from this [of 64] show ?thesis using len by simp
qed

lemma list_of_2: "length xs = 2 \<Longrightarrow> xs = [xs ! 0, xs ! 1]"
  by (auto simp: eval_nat_numeral length_Suc_conv)

lemma clear_two: "length cs = 2 \<Longrightarrow> foreach [0..<2] (\<lambda>j cs. wr cs j 0) cs = Some [0, 0]"
  by (subst foreach_write_prefix) (simp_all add: map_replicate_const eval_nat_numeral)

lemma initSmu_eq:
  assumes "dec_shape vd" and "c < 64"
  shows "viterbi_initSmu c flag vd = Some (vd\<lparr>initFlag := if flag \<noteq> 0 then 1 else initFlag vd,
    smu := (smu vd)[c := map (\<lambda>i. (smu vd ! c ! i)\<lparr>cost := [0, 0],
      minCost := if flag \<noteq> 0 then init_cost vd ! i else 0\<rparr>) [0..<64]]\<rparr>)"
  unfolding viterbi_initSmu_def
proof (rule column_loop)
  show "c < length (smu vd)" "length (smu vd ! c) = 64" using assms by (simp_all add: dec_shape_def)
  fix i f and col :: "survivorMemory list"
  assume i: "i < 64" "length col = 64" "col ! i = smu vd ! c ! i"
    and f: "f \<in> {initFlag vd, if flag \<noteq> 0 then 1 else initFlag vd}"
  let ?vd = "vd\<lparr>initFlag := f, smu := (smu vd)[c := col]\<rparr>"
  have len: "c < length (smu vd)" "length (init_cost vd) = 64" "length (cost (col ! i)) = 2"
    using assms i by (simp_all add: dec_shape_def)
  show "(do {
     sm \<leftarrow> smu_at ?vd c i;
     cs \<leftarrow> foreach [0..<2] (\<lambda>j cs. wr cs j 0) (cost sm);
     if flag \<noteq> 0 then do {
       ic \<leftarrow> rd (init_cost ?vd) i;
       smu_set (?vd\<lparr>initFlag := 1\<rparr>) c i (sm\<lparr>cost := cs, minCost := ic\<rparr>) }
     else smu_set ?vd c i (sm\<lparr>cost := cs, minCost := 0\<rparr>) })
   = Some (vd\<lparr>initFlag := if flag \<noteq> 0 then 1 else initFlag vd, smu := (smu vd)[c := col[i :=
       (smu vd ! c ! i)\<lparr>cost := [0, 0], minCost := if flag \<noteq> 0 then init_cost vd ! i else 0\<rparr>]]\<rparr>)"
    using i len f by (cases "flag = 0") (simp_all add: clear_two smu_access)
qed

lemma dist_branch: "(if sint a > sint y then c + (sint a - sint y) else c + (sint y - sint a)) = c + dist a y"
  by (simp add: dist_def)

lemma BMC_eq:
  assumes "c < length (smu vd)" and "length (smu vd ! c) = 64" and "2 \<le> length y"
    and "\<And>i. i < 64 \<Longrightarrow> \<exists>a0 a1 b0 b1. sm_output (smu vd ! c ! i) = [[a0, a1], [b0, b1]] \<and>
       cost (smu vd ! c ! i) = [0, 0] \<and> q i = [dist a0 (y ! 0) + dist a1 (y ! 1), dist b0 (y ! 0) + dist b1 (y ! 1)]"
  shows "viterbi_BMC c y vd = Some (vd\<lparr>initFlag := initFlag vd,
    smu := (smu vd)[c := map (\<lambda>i. (smu vd ! c ! i)\<lparr>cost := q i\<rparr>) [0..<64]]\<rparr>)"
  unfolding viterbi_BMC_def
proof (rule column_loop [OF assms(1,2)])
  fix i f and col :: "survivorMemory list"
  assume i: "i < 64" "length col = 64" "col ! i = smu vd ! c ! i" and f: "f \<in> {initFlag vd, initFlag vd}"
  obtain a0 a1 b0 b1 where sm: "sm_output (col ! i) = [[a0, a1], [b0, b1]]" "cost (col ! i) = [0, 0]"
    "q i = [dist a0 (y ! 0) + dist a1 (y ! 1), dist b0 (y ! 0) + dist b1 (y ! 1)]"
    using assms(4) [OF i(1)] i(3) by auto
  have costs: "foreach [0..<2] (\<lambda>j. foreach [0..<2] (\<lambda>k cs. do {
         oj \<leftarrow> rd (sm_output (col ! i)) j;
         ojk \<leftarrow> rd oj k;
         x \<leftarrow> rd y k;
         cj \<leftarrow> rd cs j;
         if sint ojk > sint x then wr cs j (cj + (sint ojk - sint x))
         else wr cs j (cj + (sint x - sint ojk)) })) (cost (col ! i)) = Some (q i)"
  proof -
    obtain y0 y1 ys where "y = y0 # y1 # ys"
      using assms(3) by (cases y; cases "tl y") auto
    then show ?thesis unfolding upt_2 sm dist_def by simp
  qed
  let ?vd = "vd\<lparr>initFlag := f, smu := (smu vd)[c := col]\<rparr>"
  have at_i: "smu_at ?vd c i = Some (col ! i)" using assms(1) i by (simp add: smu_access)
  show "(do {
     sm \<leftarrow> smu_at ?vd c i;
     cs \<leftarrow> foreach [0..<2] (\<lambda>j. foreach [0..<2] (\<lambda>k cs. do {
         oj \<leftarrow> rd (sm_output sm) j;
         ojk \<leftarrow> rd oj k;
         y \<leftarrow> rd y k;
         cj \<leftarrow> rd cs j;
         if sint ojk > sint y then wr cs j (cj + (sint ojk - sint y))
         else wr cs j (cj + (sint y - sint ojk)) })) (cost sm);
     smu_set ?vd c i (sm\<lparr>cost := cs\<rparr>) })
   = Some (vd\<lparr>initFlag := initFlag vd, smu := (smu vd)[c := col[i := (smu vd ! c ! i)\<lparr>cost := q i\<rparr>]]\<rparr>)"
    unfolding at_i Option.bind.simps costs using assms(1) i f by (simp add: smu_access)
qed


text \<open>Select: the cheaper branch, the first one on a tie.\<close>

definition select :: "int \<Rightarrow> int \<Rightarrow> survivorMemory \<Rightarrow> survivorMemory" where
  "select q0 q1 sm = sm\<lparr>cost := [q0, q1], minPathId := if q0 > q1 then 1 else 0, minCost := if q0 > q1 then q1 else q0\<rparr>"

lemma select_simps [simp]:
  "minCost (select a b sm) = (if a > b then b else a)"
  "minPathId (select a b sm) = (if a > b then 1 else 0)"
  "cost (select a b sm) = [a, b]"
  "prev (select a b sm) = prev sm" "input (select a b sm) = input sm" "sm_output (select a b sm) = sm_output sm"
  "branchCount (select a b sm) = branchCount sm"
  by (simp_all add: select_def)

lemma ACS_eq:
  assumes c: "c < length (smu vd)" "length (smu vd ! c) = 64"
    and costs: "\<And>i. i < 64 \<Longrightarrow> cost (smu vd ! c ! i) = [p i 0, p i 1]"
    and first: "\<And>i k. initFlag vd \<noteq> 0 \<Longrightarrow> i < 64 \<Longrightarrow> k < 2 \<Longrightarrow> q i k = p i k"
    and later: "\<And>i. initFlag vd = 0 \<Longrightarrow> i < 64 \<Longrightarrow> \<exists>d a b. prev (smu vd ! c ! i) = [Some (d, a), Some (d, b)] \<and>
       d \<noteq> c \<and> d < length (smu vd) \<and> a < length (smu vd ! d) \<and> b < length (smu vd ! d) \<and>
       q i 0 = p i 0 + minCost (smu vd ! d ! a) \<and> q i 1 = p i (1::nat) + minCost (smu vd ! d ! b)"
  shows "viterbi_ACS c vd = Some (vd\<lparr>initFlag := 0,
    smu := (smu vd)[c := map (\<lambda>i. select (q i 0) (q i 1) (smu vd ! c ! i)) [0..<64]]\<rparr>)"
proof -
  let ?body = "\<lambda>i vd. do {
         sm \<leftarrow> smu_at vd c i;
         cs \<leftarrow> (if initFlag vd = 0 then
             foreach [0..<2] (\<lambda>j cs. do {
               p \<leftarrow> rd (prev sm) j;
               (c, n) \<leftarrow> p;
               psm \<leftarrow> smu_at vd c n;
               cj \<leftarrow> rd cs j;
               wr cs j (cj + minCost psm) }) (cost sm)
           else Some (cost sm));
         c0 \<leftarrow> rd cs 0;
         c1 \<leftarrow> rd cs 1;
         if c0 > c1 then smu_set vd c i (sm\<lparr>cost := cs, minPathId := 1, minCost := c1\<rparr>)
         else smu_set vd c i (sm\<lparr>cost := cs, minPathId := 0, minCost := c0\<rparr>) }"
  have "foreach [0..<64] ?body vd = Some (vd\<lparr>initFlag := initFlag vd,
    smu := (smu vd)[c := map (\<lambda>i. select (q i 0) (q i 1) (smu vd ! c ! i)) [0..<64]]\<rparr>)"
  proof (rule column_loop [OF c])
    fix i f and col :: "survivorMemory list"
    assume i: "i < 64" "length col = 64" "col ! i = smu vd ! c ! i" and f: "f \<in> {initFlag vd, initFlag vd}"
    let ?vd = "vd\<lparr>initFlag := f, smu := (smu vd)[c := col]\<rparr>"
    show "?body i ?vd = Some (vd\<lparr>initFlag := initFlag vd,
      smu := (smu vd)[c := col[i := select (q i 0) (q i 1) (smu vd ! c ! i)]]\<rparr>)"
    proof (cases "initFlag vd = 0")
      case True
      from later [OF True i(1)] obtain d a b where d: "prev (smu vd ! c ! i) = [Some (d, a), Some (d, b)]"
        "d \<noteq> c" "d < length (smu vd)" "a < length (smu vd ! d)" "b < length (smu vd ! d)"
        "q i 0 = p i 0 + minCost (smu vd ! d ! a)" "q i 1 = p i 1 + minCost (smu vd ! d ! b)" by blast
      then show ?thesis
        using c(1) i f costs [OF i(1)] True by (simp add: smu_access upt_2 select_def)
    next
      case False
      then show ?thesis
        using c(1) i f costs [OF i(1)] first [of i 0] first [of i 1] by (simp add: smu_access select_def)
    qed
  qed
  then show ?thesis unfolding viterbi_ACS_def by simp
qed

text \<open>The whole of column \<open>c\<close>, when column \<open>c - 1\<close> already holds the optimal costs.\<close>

definition column_done :: "s8 list \<Rightarrow> nat \<Rightarrow> viterbiDecoder \<Rightarrow> bool" where
  "column_done y c vd \<longleftrightarrow> (\<forall>n<64. minCost (smu vd ! c ! n) = vcost y c n \<and>
     minPathId (smu vd ! c ! n) = of_nat (choice y c n))"

lemma decode_column_eq:
  assumes ok: "dec_ok vd" and c: "c < 64" and y: "2 * c + 2 \<le> length y"
    and init: "c \<noteq> 0 \<Longrightarrow> initFlag vd = 0 \<and> column_done y (c - 1) vd"
  shows "decode_column y c vd = Some (vd\<lparr>initFlag := 0, smu := (smu vd)[c :=
    map (\<lambda>n. select (bcost y c n 0) (bcost y c n 1)
      ((smu vd ! c ! n)\<lparr>minCost := if c = 0 then init_cost vd ! n else 0\<rparr>)) [0..<64]]\<rparr>)"
proof -
  have shape: "dec_shape vd" "c < length (smu vd)" "length (smu vd ! c) = 64"
    and br: "\<And>n. n < 64 \<Longrightarrow> branches_ok c n (smu vd ! c ! n)"
    using ok c by (auto simp: dec_ok_def dec_shape_def)
  let ?fl = "if c = 0 then 1 else initFlag vd" and ?mc = "\<lambda>n. if c = 0 then init_cost vd ! n else 0"
  let ?bm = "\<lambda>n k. bmetric y c (pred_state k n) (in_bit n)"
  let ?vd1 = "vd\<lparr>initFlag := ?fl, smu := (smu vd)[c := map (\<lambda>n. (smu vd ! c ! n)\<lparr>cost := [0, 0], minCost := ?mc n\<rparr>) [0..<64]]\<rparr>"
  let ?vd2 = "vd\<lparr>initFlag := ?fl, smu := (smu vd)[c := map (\<lambda>n. (smu vd ! c ! n)\<lparr>cost := [?bm n 0, ?bm n 1], minCost := ?mc n\<rparr>) [0..<64]]\<rparr>"
  have 1: "(if c = 0 then viterbi_initSmu c 1 vd else viterbi_initSmu c 0 vd) = Some ?vd1"
    using initSmu_eq [OF shape(1) c, of 1] initSmu_eq [OF shape(1) c, of 0] by (cases "c = 0") simp_all
  have bmc: "viterbi_BMC c (drop (c * OUT_RATE) y) ?vd1 = Some (?vd1\<lparr>initFlag := initFlag ?vd1, smu := (smu ?vd1)[c :=
    map (\<lambda>n. (smu ?vd1 ! c ! n)\<lparr>cost := [?bm n 0, ?bm n 1]\<rparr>) [0..<64]]\<rparr>)"
  proof (rule BMC_eq)
    fix n :: nat assume n: "n < 64"
    then show "\<exists>a0 a1 b0 b1. sm_output (smu ?vd1 ! c ! n) = [[a0, a1], [b0, b1]] \<and> cost (smu ?vd1 ! c ! n) = [0, 0] \<and>
       [?bm n 0, ?bm n 1] = [dist a0 (drop (c * OUT_RATE) y ! 0) + dist a1 (drop (c * OUT_RATE) y ! 1),
         dist b0 (drop (c * OUT_RATE) y ! 0) + dist b1 (drop (c * OUT_RATE) y ! 1)]"
      using shape(2,3) br [OF n] y by (simp add: branches_ok_def branch_output_def bmetric_def mult.commute)
  qed (use shape y in simp_all)
  have bmc_col: "map (\<lambda>n. (smu ?vd1 ! c ! n)\<lparr>cost := [?bm n 0, ?bm n 1]\<rparr>) [0..<64] =
    map (\<lambda>n. (smu vd ! c ! n)\<lparr>cost := [?bm n 0, ?bm n 1], minCost := ?mc n\<rparr>) [0..<64]"
    using shape(2) by (intro map_cong) simp_all
  have 2: "viterbi_BMC c (drop (c * OUT_RATE) y) ?vd1 = Some ?vd2" unfolding bmc bmc_col by simp
  have acs: "viterbi_ACS c ?vd2 = Some (?vd2\<lparr>initFlag := 0, smu := (smu ?vd2)[c :=
    map (\<lambda>n. select (bcost y c n 0) (bcost y c n 1) (smu ?vd2 ! c ! n)) [0..<64]]\<rparr>)"
  proof (rule ACS_eq [where p = ?bm])
    fix n :: nat assume flag: "initFlag ?vd2 = 0" and n: "n < 64"
    then have c0: "c \<noteq> 0" by (auto split: if_splits)
    then have "c - 1 < length (smu vd)" "length (smu vd ! (c - 1)) = 64"
      using shape(1) c by (auto simp: dec_shape_def)
    moreover have "bcost y c n k = ?bm n k + vcost y (c - 1) (pred_state k n)" for k
      using c0 by (cases c) (simp_all add: bcost.simps)
    ultimately show "\<exists>d a b. prev (smu ?vd2 ! c ! n) = [Some (d, a), Some (d, b)] \<and>
       d \<noteq> c \<and> d < length (smu ?vd2) \<and> a < length (smu ?vd2 ! d) \<and> b < length (smu ?vd2 ! d) \<and>
       bcost y c n 0 = ?bm n 0 + minCost (smu ?vd2 ! d ! a) \<and> bcost y c n 1 = ?bm n 1 + minCost (smu ?vd2 ! d ! b)"
      using c0 init br [OF n] n shape(2)
      by (intro exI [of _ "c - 1"] exI [of _ "pred_state 0 n"] exI [of _ "pred_state 1 n"])
        (simp add: branches_ok_def column_done_def pred_state_less)
  next
    fix n k :: nat assume "initFlag ?vd2 \<noteq> 0" "n < 64" "k < 2"
    then show "bcost y c n k = ?bm n k" using init by (auto simp: bcost.simps split: if_splits)
  qed (use shape in simp_all)
  have acs_col: "map (\<lambda>n. select (bcost y c n 0) (bcost y c n 1) (smu ?vd2 ! c ! n)) [0..<64] =
    map (\<lambda>n. select (bcost y c n 0) (bcost y c n 1) ((smu vd ! c ! n)\<lparr>minCost := ?mc n\<rparr>)) [0..<64]"
    using shape(2) by (intro map_cong) (simp_all add: select_def)
  have 3: "viterbi_ACS c ?vd2 = Some (vd\<lparr>initFlag := 0, smu := (smu vd)[c :=
    map (\<lambda>n. select (bcost y c n 0) (bcost y c n 1) ((smu vd ! c ! n)\<lparr>minCost := ?mc n\<rparr>)) [0..<64]]\<rparr>)"
    unfolding acs acs_col by simp
  show ?thesis
    unfolding decode_column_def Let_def 1 Option.bind.simps 2 3 ..
qed


section \<open>All columns\<close>

definition decoded_upto :: "s8 list \<Rightarrow> nat \<Rightarrow> viterbiDecoder \<Rightarrow> bool" where
  "decoded_upto y c vd \<longleftrightarrow> dec_ok vd \<and> (c \<noteq> 0 \<longrightarrow> initFlag vd = 0) \<and> (\<forall>d<c. column_done y d vd)"

lemma decode_column_inv:
  assumes "decoded_upto y c vd" and "c < 64" and "2 * c + 2 \<le> length y"
  shows "\<exists>vd'. decode_column y c vd = Some vd' \<and> decoded_upto y (Suc c) vd'"
proof -
  from assms(1) have ok: "dec_ok vd" and init: "c \<noteq> 0 \<Longrightarrow> initFlag vd = 0 \<and> column_done y (c - 1) vd"
    and dn: "\<And>d. d < c \<Longrightarrow> column_done y d vd"
    by (auto simp: decoded_upto_def)
  define col where "col = map (\<lambda>n. select (bcost y c n 0) (bcost y c n 1)
      ((smu vd ! c ! n)\<lparr>minCost := if c = 0 then init_cost vd ! n else 0\<rparr>)) [0..<64]"
  let ?vd = "vd\<lparr>initFlag := 0, smu := (smu vd)[c := col]\<rparr>"
  have len: "length (smu vd) = 64" using ok by (simp add: dec_ok_def dec_shape_def)
  have nth: "(smu vd)[c := col] ! d = (if d = c then col else smu vd ! d)" if "d < 64" for d
    using that len by (cases "d = c") auto
  have entry: "length col = 64" "n < 64 \<Longrightarrow> branches_ok c n (col ! n) \<and> length (cost (col ! n)) = 2 \<and>
      minCost (col ! n) = vcost y c n \<and> minPathId (col ! n) = of_nat (choice y c n)" for n
    using ok assms(2) by (auto simp: col_def dec_ok_def branches_ok_def vcost.simps choice_def)
  have "dec_ok ?vd"
    using ok entry len unfolding dec_ok_def dec_shape_def by (simp add: nth)
  moreover have "column_done y d ?vd" if "d < Suc c" for d
    using that entry(2) dn [of d] assms(2) nth [of d] by (cases "d = c") (simp_all add: column_done_def)
  ultimately show ?thesis
    using decode_column_eq [OF ok assms(2,3) init] by (simp add: decoded_upto_def col_def)
qed

lemma decode_columns:
  assumes "dec_ok vd" and "128 \<le> length y"
  shows "\<exists>vd'. foreach [0..<64] (decode_column y) vd = Some vd' \<and> decoded_upto y 64 vd'"
proof (rule foreach_upt_inv [where I = "decoded_upto y"])
  show "decoded_upto y 0 vd" using assms(1) by (simp add: decoded_upto_def)
  show "\<exists>s'. decode_column y i s = Some s' \<and> decoded_upto y (Suc i) s'"
    if "0 \<le> i" "i < 64" "decoded_upto y i s" for i s
    using that assms(2) by (intro decode_column_inv) simp_all
qed simp

section \<open>Metrics fit the code's integer types\<close>

lemma dist_bound: "0 \<le> dist (level x) y \<and> dist (level x) y \<le> 143"
proof -
  have "- 128 \<le> sint y" "sint y < 128" using sint_greater_eq [of y] sint_less [of y] by simp_all
  then show ?thesis by (auto simp: dist_def level_def)
qed

lemma bmetric_bound: "0 \<le> bmetric y t j b \<and> bmetric y t j b \<le> 286"
  using dist_bound [of "out0 j b" "y ! (2 * t)"] dist_bound [of "out1 j b" "y ! (2 * t + 1)"]
  by (simp add: bmetric_def)

lemma bcost_bound: "0 \<le> bcost y t n k \<and> bcost y t n k \<le> 286 * (int t + 1)"
proof (induction t arbitrary: n k)
  case 0
  then show ?case using bmetric_bound by (simp add: bcost.simps)
next
  case (Suc t)
  have "0 \<le> vcost y t m \<and> vcost y t m \<le> 286 * (int t + 1)" for m
    using Suc [of m] by (simp add: vcost.simps)
  from this [of "pred_state k n"] show ?case
    using bmetric_bound [of y "Suc t" "pred_state k n" "in_bit n"] by (simp add: bcost.simps)
qed

lemma vcost_bound: "0 \<le> vcost y t n \<and> vcost y t n \<le> 286 * (int t + 1)"
  using bcost_bound [of y t n] by (simp add: vcost.simps)

lemma to_short_id: "0 \<le> x \<Longrightarrow> x \<le> 18304 \<Longrightarrow> to_short x = x"
  by (simp add: to_short_def signed_take_bit_int_eq_self)

section \<open>Trace-back\<close>

lemma smu_at_ok: "dec_ok vd \<Longrightarrow> c < 64 \<Longrightarrow> n < 64 \<Longrightarrow> smu_at vd c n = Some (smu vd ! c ! n)"
  by (simp add: smu_at_def dec_ok_def dec_shape_def)

lemma best_state_min:
  assumes "dec_ok vd" and "column_done y 63 vd"
  shows "\<exists>n<64. best_state vd 63 = Some n \<and> (\<forall>m<64. vcost y 63 n \<le> vcost y 63 m)"
proof -
  let ?I = "\<lambda>i (mc, n). n < i \<and> mc = vcost y 63 n \<and> (\<forall>m<i. vcost y 63 n \<le> vcost y 63 m)"
  have at: "smu_at vd 63 n = Some (smu vd ! 63 ! n)" "minCost (smu vd ! 63 ! n) = vcost y 63 n"
    "to_short (vcost y 63 n) = vcost y 63 n" if "n < 64" for n
    using that assms smu_at_ok vcost_bound [of y 63 n] by (auto simp: column_done_def intro: to_short_id)
  have "\<exists>s'. foreach [1..<64] (\<lambda>i (mc, minId). do {
         sm \<leftarrow> smu_at vd 63 i;
         if minCost sm < mc then Some (to_short (minCost sm), i) else Some (mc, minId) })
       (vcost y 63 0, 0) = Some s' \<and> ?I 64 s'"
    by (rule foreach_upt_inv [where I = ?I]) (auto simp: at less_Suc_eq; fastforce)+
  then show ?thesis
    using at [of 0] by (auto simp: best_state_def)
qed

lemma rev_upt_Suc: "rev [0..<Suc t] = t # rev [0..<t]"
  by simp

lemma TB_loop:
  assumes "dec_ok vd" and "t < 64" and "\<forall>d\<le>t. column_done y d vd" and "n < 64" and "t < length ob"
  shows "\<exists>p. foreach (rev [0..<Suc t]) (\<lambda>i (ptr, oBuf). do {
         (c, n) \<leftarrow> ptr;
         sm \<leftarrow> smu_at vd c n;
         b \<leftarrow> rd (input sm) (unat (minPathId sm));
         oBuf \<leftarrow> wr oBuf i b;
         p \<leftarrow> rd (prev sm) (unat (minPathId sm));
         Some (p, oBuf) }) (Some (t, n), ob) = Some (p, map of_nat (trace y t n) @ drop (Suc t) ob)"
  using assms(2-5)
proof (induction t arbitrary: n ob)
  case 0
  have "smu_at vd 0 n = Some (smu vd ! 0 ! n)" "branches_ok 0 n (smu vd ! 0 ! n)" "column_done y 0 vd"
    using assms(1) 0 smu_at_ok by (auto simp: dec_ok_def)
  then show ?case
    using 0 by (cases ob) (auto simp: branches_ok_def column_done_def choice_def)
next
  case (Suc t)
  let ?k = "choice y (Suc t) n" and ?sm = "smu vd ! Suc t ! n"
  let ?p = "pred_state ?k n" and ?ob = "ob[Suc t := of_nat (in_bit n)]"
  have sm: "smu_at vd (Suc t) n = Some ?sm" "branches_ok (Suc t) n ?sm" "minPathId ?sm = of_nat ?k"
    using assms(1) Suc.prems smu_at_ok by (auto simp: dec_ok_def column_done_def)
  have k: "unat (of_nat ?k :: u8) = ?k" "?k = 0 \<or> ?k = 1" by (auto simp: choice_def)
  have rds: "rd (input ?sm) ?k = Some (of_nat (in_bit n))" "rd (prev ?sm) ?k = Some (Some (t, ?p))"
    using sm(2) k(2) by (auto simp: branches_ok_def)
  have "?p < 64" using Suc.prems by (simp add: pred_state_less choice_less)
  then obtain q where q: "foreach (rev [0..<Suc t]) (\<lambda>i (ptr, oBuf). do {
         (c, n) \<leftarrow> ptr;
         sm \<leftarrow> smu_at vd c n;
         b \<leftarrow> rd (input sm) (unat (minPathId sm));
         oBuf \<leftarrow> wr oBuf i b;
         p \<leftarrow> rd (prev sm) (unat (minPathId sm));
         Some (p, oBuf) }) (Some (t, ?p), ?ob) = Some (q, map of_nat (trace y t ?p) @ drop (Suc t) ?ob)"
    using Suc.IH [of ?p ?ob] Suc.prems by auto
  have "drop (Suc t) ?ob = of_nat (in_bit n) # drop (Suc (Suc t)) ob"
    using Suc.prems by (simp add: Cons_nth_drop_Suc [symmetric] drop_update_swap)
  then show ?case
    using q sm rds k(1) Suc.prems unfolding rev_upt_Suc [of "Suc t"] by (intro exI [of _ q]) simp
qed

section \<open>Maximum-likelihood decoding\<close>

lemma viterbi_decoding_best:
  assumes "dec_ok vd" and "128 \<le> length y" and "64 \<le> length ob"
  shows "\<exists>bs s vd'. viterbi_decoding y ob vd = Some (map of_nat bs @ drop 64 ob, vd') \<and> dec_ok vd' \<and>
    length bs = 64 \<and> is_bin bs \<and> s < 64 \<and>
    (\<forall>s' bs'. s' < 64 \<longrightarrow> length bs' = 64 \<longrightarrow> is_bin bs' \<longrightarrow> path_metric y s bs \<le> path_metric y s' bs')"
proof -
  let ?ic = "0 # replicate 63 0xFFFF" and ?ob = "replicate 64 0 @ drop 64 ob"
  have len: "length (init_cost vd) = 64" using assms(1) by (simp add: dec_ok_def dec_shape_def)
  have ic: "(do { ic \<leftarrow> wr (init_cost vd) 0 0; foreach [1..<SM_STATE] (\<lambda>i c. wr c i 0xFFFF) ic }) = Some ?ic"
  proof -
    have "[1..<64] = map Suc [0..<63]" using map_Suc_upt [of 0 63] by simp
    then have "foreach [1..<64] (\<lambda>i c. wr c i 0xFFFF) ((init_cost vd)[0 := 0])
        = foreach [0..<63] (\<lambda>i c. wr c (1 + i) 0xFFFF) ((init_cost vd)[0 := 0])"
      by (simp only: foreach_map plus_1_eq_Suc)
    moreover have "foreach [0..<63] (\<lambda>i c. wr c (1 + i) 0xFFFF) ((init_cost vd)[0 := 0]) = Some ?ic"
      using len by (subst foreach_write_at, simp, cases "init_cost vd") (simp_all add: map_replicate_const)
    ultimately show ?thesis using len by simp
  qed
  have z: "foreach [0..<USR_DAT_LEN] (\<lambda>i b. wr b i 0) ob = Some ?ob"
    using assms(3) by (subst foreach_write_prefix) (simp_all add: map_replicate_const)
  have "dec_ok (vd\<lparr>init_cost := ?ic\<rparr>)" using assms(1) by (simp add: dec_ok_def dec_shape_def)
  from decode_columns [OF this assms(2)] obtain vd' where
    vd': "foreach [0..<64] (decode_column y) (vd\<lparr>init_cost := ?ic\<rparr>) = Some vd'" "decoded_upto y 64 vd'" by blast
  then have ok: "dec_ok vd'" "\<And>d. d < 64 \<Longrightarrow> column_done y d vd'" by (auto simp: decoded_upto_def)
  from best_state_min [OF this(1) this(2)] obtain n where
    n: "n < 64" "best_state vd' 63 = Some n" "\<And>m. m < 64 \<Longrightarrow> vcost y 63 n \<le> vcost y 63 m" by auto
  let ?bs = "trace y 63 n" and ?s = "origin y 63 n"
  have "viterbi_TB vd' 63 ?ob = Some (map of_nat ?bs @ drop 64 ob)"
    using TB_loop [OF ok(1), of 63 y n ?ob] ok(2) n(1,2) by (auto simp: viterbi_TB_def)
  then have "viterbi_decoding y ob vd = Some (map of_nat ?bs @ drop 64 ob, vd')"
    using ic z vd'(1) unfolding viterbi_decoding_def by (auto simp: bind_eq_Some_conv)
  moreover have "path_metric y ?s ?bs \<le> path_metric y s' bs'" if "s' < 64" "length bs' = 64" "is_bin bs'" for s' bs'
  proof -
    have "bs' \<noteq> []" using that(2) by auto
    have "path_metric y ?s ?bs = vcost y 63 n" using trace_props [OF n(1)] by simp
    also have "\<dots> \<le> vcost y 63 (run s' bs')" using n(3) run_less [OF that(1,3)] by simp
    also have "\<dots> \<le> path_metric y s' bs'" using vcost_lower [OF that(1,3) \<open>bs' \<noteq> []\<close>, of y] that(2) by simp
    finally show ?thesis .
  qed
  ultimately show ?thesis using ok(1) trace_props [OF n(1), of y 63]
    by (intro exI [of _ ?bs] exI [of _ ?s] exI [of _ vd']) simp
qed


section \<open>Initialisation\<close>

text \<open>Entry \<open>n\<close> of column \<open>c\<close> with its first \<open>k\<close> branches filled in.\<close>

definition filled :: "nat \<Rightarrow> nat \<Rightarrow> nat \<Rightarrow> survivorMemory \<Rightarrow> bool" where
  "filled c n k sm \<longleftrightarrow> branchCount sm = of_nat k \<and> length (prev sm) = 2 \<and> length (input sm) = 2 \<and>
     length (sm_output sm) = 2 \<and> length (cost sm) = 2 \<and>
     (\<forall>l<k. prev sm ! l = Some (if c = 0 then 63 else c - 1, pred_state l n) \<and>
        input sm ! l = of_nat (in_bit n) \<and> sm_output sm ! l = branch_output (pred_state l n) (in_bit n))"

definition trellis :: "(nat \<Rightarrow> nat \<Rightarrow> nat) \<Rightarrow> viterbiDecoder \<Rightarrow> bool" where
  "trellis cnt vd \<longleftrightarrow> length (smu vd) = 64 \<and> length (init_cost vd) = 64 \<and>
     (\<forall>c<64. length (smu vd ! c) = 64 \<and> (\<forall>n<64. filled c n (cnt c n) (smu vd ! c ! n)))"

lemma trellis_cong:
  "trellis cnt vd \<Longrightarrow> (\<And>c n. c < 64 \<Longrightarrow> n < 64 \<Longrightarrow> cnt c n = cnt' c n) \<Longrightarrow> trellis cnt' vd"
  by (simp add: trellis_def)

lemma trellis_full: "trellis (\<lambda>c n. 2) vd \<Longrightarrow> dec_ok vd"
  unfolding trellis_def dec_ok_def dec_shape_def branches_ok_def filled_def
  by (auto simp: list_eq_iff_nth_eq less_Suc_eq numeral_2_eq_2)

lemma trellis_set:
  assumes "trellis cnt vd" and "c < 64" and "n < 64" and "filled c n k sm"
  shows "\<exists>vd'. smu_set vd c n sm = Some vd' \<and> trellis (\<lambda>d m. if d = c \<and> m = n then k else cnt d m) vd'"
  using assms by (auto simp: trellis_def smu_set_def nth_list_update)

lemma trellis_at: "trellis cnt vd \<Longrightarrow> c < 64 \<Longrightarrow> n < 64 \<Longrightarrow> smu_at vd c n = Some (smu vd ! c ! n) \<and> filled c n (cnt c n) (smu vd ! c ! n)"
  by (simp add: trellis_def smu_at_def)

lemma bitEncoding_branch: "j < 64 \<Longrightarrow> b < 2 \<Longrightarrow> bitEncoding (of_nat j) (of_nat b) = branch_output j b"
  by (simp add: bitEncoding_eq branch_output_def level_def)

lemma add_branch_step:
  assumes tr: "trellis cnt vd" and i: "i < 64" and n: "n < 64" and k: "cnt i n < 2"
    and j: "j = pred_state (cnt i n) n" and b: "b = of_nat (in_bit n)"
  shows "\<exists>vd'. add_branch i j b n vd = Some vd' \<and>
    trellis (\<lambda>d m. if d = i \<and> m = n then Suc (cnt i n) else cnt d m) vd'"
proof -
  let ?sm = "smu vd ! i ! n" and ?k = "cnt i n"
  have at: "smu_at vd i n = Some ?sm" and fl: "filled i n ?k ?sm" using trellis_at [OF tr i n] by auto
  have cnt: "unat (branchCount ?sm) = ?k" using fl k by (auto simp: filled_def less_2_cases_iff)
  have out: "bitEncoding (of_nat j) b = branch_output j (in_bit n)"
    using n k unfolding b j by (intro bitEncoding_branch pred_state_less in_bit_less)
  let ?sm' = "?sm\<lparr>branchCount := branchCount ?sm + 1,
    prev := (prev ?sm)[?k := Some (if i = 0 then 63 else i - 1, j)],
    input := (input ?sm)[?k := b], sm_output := (sm_output ?sm)[?k := branch_output j (in_bit n)]\<rparr>"
  have "filled i n (Suc ?k) ?sm'"
    using fl k unfolding filled_def j b by (auto simp: nth_list_update less_Suc_eq)
  from trellis_set [OF tr i n this]
  have "\<exists>vd'. smu_set vd i n ?sm' = Some vd' \<and> trellis (\<lambda>d m. if d = i \<and> m = n then Suc ?k else cnt d m) vd'" .
  moreover have "add_branch i j b n vd = smu_set vd i n ?sm'"
    using at cnt out fl k by (simp add: add_branch_def filled_def Let_def)
  ultimately show ?thesis by simp
qed

definition filling :: "nat \<Rightarrow> nat \<Rightarrow> nat \<Rightarrow> nat \<Rightarrow> nat" where
  "filling i m c n = (if c < i then 2 else if c = i then min 2 (m - 2 * (n mod 32)) else 0)"

lemma filling_step:
  assumes "j < 64" and "n < 64"
  shows "filling i (Suc j) c n = (if c = i \<and> n mod 32 = j div 2 then Suc (j mod 2) else filling i j c n)"
    and "n mod 32 = j div 2 \<Longrightarrow> filling i j i n = j mod 2"
proof -
  show "n mod 32 = j div 2 \<Longrightarrow> filling i j i n = j mod 2"
    by (simp add: filling_def minus_mult_div_eq_mod [symmetric])
  have "min 2 (Suc j - 2 * q) = (if q = j div 2 then Suc (j mod 2) else min 2 (j - 2 * q))" for q
    by presburger
  then show "filling i (Suc j) c n = (if c = i \<and> n mod 32 = j div 2 then Suc (j mod 2) else filling i j c n)"
    by (simp add: filling_def)
qed

lemma add_branches:
  assumes tr: "trellis (filling i j) vd" and i: "i < 64" and j: "j < 64"
  shows "\<exists>vd'. (do { vd \<leftarrow> add_branch i j 0 (j div 2) vd; add_branch i j 1 (SM_STATE div 2 + j div 2) vd }) = Some vd'
    \<and> trellis (filling i (Suc j)) vd'"
proof -
  let ?n = "j div 2" and ?n' = "SM_STATE div 2 + j div 2" and ?k = "j mod 2"
  have n: "?n < 64" "?n' < 64" "?n mod 32 = j div 2" "?n' mod 32 = j div 2" "in_bit ?n = 0" "in_bit ?n' = 1"
    "j = pred_state ?k ?n" "j = pred_state ?k ?n'" "?n \<noteq> ?n'"
    using j by (simp_all add: in_bit_def pred_state_def)
  have c: "filling i j i ?n = ?k" "filling i j i ?n' = ?k"
    using filling_step(2) [OF j n(1) n(3)] filling_step(2) [OF j n(2) n(4)] by simp_all
  let ?c1 = "\<lambda>d m. if d = i \<and> m = ?n then Suc ?k else filling i j d m"
  from add_branch_step [OF tr i n(1), of j 0] obtain vd1 where
    1: "add_branch i j 0 ?n vd = Some vd1" "trellis ?c1 vd1"
    unfolding c using n by auto
  have c1: "?c1 i ?n' = ?k" using c n by simp
  from add_branch_step [OF 1(2) i n(2), of j 1] obtain vd2 where
    2: "add_branch i j 1 ?n' vd1 = Some vd2" "trellis (\<lambda>d m. if d = i \<and> m = ?n' then Suc ?k else ?c1 d m) vd2"
    unfolding c1 using n by auto
  from 2(2) have "trellis (filling i (Suc j)) vd2"
  proof (rule trellis_cong)
    fix d m :: nat assume "d < 64" and m: "m < 64"
    have "m mod 32 = (if m < 32 then m else m - 32)" using m by (simp add: le_mod_geq)
    moreover have "j div 2 < 32" using j by simp
    ultimately have "m mod 32 = j div 2 \<longleftrightarrow> m = ?n \<or> m = ?n'" by auto
    then show "(if d = i \<and> m = ?n' then Suc ?k else ?c1 d m) = filling i (Suc j) d m"
      by (auto simp: filling_step(1) [OF j m])
  qed
  with 1(1) 2(1) show ?thesis by simp
qed

lemma set_steps:
  assumes "trellis cnt vd"
  shows "\<exists>vd'. foreach [0..<64] (\<lambda>i. foreach [0..<64] (\<lambda>j vd. do {
         sm \<leftarrow> smu_at vd i j;
         smu_set vd i j (sm\<lparr>step := int i, state := int j\<rparr>) })) vd = Some vd' \<and> trellis cnt vd'"
proof (rule foreach_upt_inv [where I = "\<lambda>_. trellis cnt"])
  fix i :: nat and vd assume i: "i < 64" and tr: "trellis cnt vd"
  show "\<exists>vd'. foreach [0..<64] (\<lambda>j vd. do {
         sm \<leftarrow> smu_at vd i j;
         smu_set vd i j (sm\<lparr>step := int i, state := int j\<rparr>) }) vd = Some vd' \<and> trellis cnt vd'"
  proof (rule foreach_upt_inv [where I = "\<lambda>_. trellis cnt"])
    fix j :: nat and vd assume j: "j < 64" and tr: "trellis cnt vd"
    let ?sm = "(smu vd ! i ! j)\<lparr>step := int i, state := int j\<rparr>"
    have "filled i j (cnt i j) ?sm" using trellis_at [OF tr i j] by (simp add: filled_def)
    from trellis_set [OF tr i j this] trellis_at [OF tr i j]
    show "\<exists>vd'. (do { sm \<leftarrow> smu_at vd i j; smu_set vd i j (sm\<lparr>step := int i, state := int j\<rparr>) }) = Some vd' \<and> trellis cnt vd'"
      by (auto elim!: trellis_cong)
  qed (use tr in simp_all)
qed (use assms in simp_all)

lemma set_viterbiDecoder_trellis:
  assumes "trellis (\<lambda>c n. 0) vd"
  shows "\<exists>vd'. set_viterbiDecoder vd = Some vd' \<and> trellis (\<lambda>c n. 2) vd'"
proof -
  from set_steps [OF assms] obtain vd1 where
    1: "foreach [0..<64] (\<lambda>i. foreach [0..<64] (\<lambda>j vd. do {
         sm \<leftarrow> smu_at vd i j;
         smu_set vd i j (sm\<lparr>step := int i, state := int j\<rparr>) })) vd = Some vd1" "trellis (\<lambda>c n. 0) vd1" by blast
  have "\<exists>vd'. foreach [0..<64] (\<lambda>i. foreach [0..<64] (\<lambda>j vd. do {
         vd \<leftarrow> add_branch i j 0 (j div 2) vd;
         add_branch i j 1 (SM_STATE div 2 + j div 2) vd })) vd1 = Some vd' \<and> trellis (filling 64 0) vd'"
  proof (rule foreach_upt_inv [where I = "\<lambda>i. trellis (filling i 0)"])
    show "trellis (filling 0 0) vd1" using 1(2) by (rule trellis_cong) (simp add: filling_def)
  next
    fix i :: nat and vd assume i: "i < 64" and tr: "trellis (filling i 0) vd"
    have "\<exists>vd'. foreach [0..<64] (\<lambda>j vd. do {
         vd \<leftarrow> add_branch i j 0 (j div 2) vd;
         add_branch i j 1 (SM_STATE div 2 + j div 2) vd }) vd = Some vd' \<and> trellis (filling i 64) vd'"
      by (rule foreach_upt_inv [where I = "\<lambda>j. trellis (filling i j)"]) (use tr i in \<open>auto intro: add_branches [simplified]\<close>)
    then show "\<exists>vd'. foreach [0..<64] (\<lambda>j vd. do {
         vd \<leftarrow> add_branch i j 0 (j div 2) vd;
         add_branch i j 1 (SM_STATE div 2 + j div 2) vd }) vd = Some vd' \<and> trellis (filling (Suc i) 0) vd'"
      by (auto elim!: trellis_cong simp: filling_def)
  qed simp
  then obtain vd' where 2: "foreach [0..<64] (\<lambda>i. foreach [0..<64] (\<lambda>j vd. do {
         vd \<leftarrow> add_branch i j 0 (j div 2) vd;
         add_branch i j 1 (SM_STATE div 2 + j div 2) vd })) vd1 = Some vd'" "trellis (filling 64 0) vd'" by blast
  from 2(2) have "trellis (\<lambda>c n. 2) vd'" by (rule trellis_cong) (simp add: filling_def)
  with 1(1) 2(1) show ?thesis unfolding set_viterbiDecoder_def by simp
qed


lemma set_viterbiDecoder_full:
  assumes "trellis (\<lambda>c n. 2) vd"
  shows "set_viterbiDecoder vd = None"
proof -
  from set_steps [OF assms] obtain vd1 where
    1: "foreach [0..<64] (\<lambda>i. foreach [0..<64] (\<lambda>j vd. do {
         sm \<leftarrow> smu_at vd i j;
         smu_set vd i j (sm\<lparr>step := int i, state := int j\<rparr>) })) vd = Some vd1" "trellis (\<lambda>c n. 2) vd1" by blast
  have "smu_at vd1 0 0 = Some (smu vd1 ! 0 ! 0) \<and> filled 0 0 2 (smu vd1 ! 0 ! 0)"
    using trellis_at [OF 1(2), of 0 0] by simp
  then have "add_branch 0 0 0 0 vd1 = None"
    by (simp add: add_branch_def filled_def Let_def wr_out)
  moreover have "[0..<64] = (0 :: nat) # [1..<64]" by (simp add: upt_conv_Cons)
  ultimately show ?thesis
    using 1(1) unfolding set_viterbiDecoder_def by simp
qed

section \<open>Distinct inputs have distinct codewords\<close>

text \<open>A path from any register is a path from zero whose first six inputs load the register.\<close>

definition reg_bits :: "nat \<Rightarrow> nat list" where
  "reg_bits s = [s mod 2, s div 2 mod 2, s div 4 mod 2, s div 8 mod 2, s div 16 mod 2, s div 32 mod 2]"

lemma reg_bits: "length (reg_bits s) = 6" "is_bin (reg_bits s)"
  by (auto simp: reg_bits_def)

lemma run_six: "run 0 [a, b, c, d, e, f] = a + 2 * b + 4 * c + 8 * d + 16 * e + 32 * f"
  by (simp add: nxt_def)

lemma run_reg_bits:
  assumes "s < 64"
  shows "run 0 (reg_bits s) = s"
proof -
  have step: "m = m mod 2 + 2 * (m div 2)" for m :: nat by simp
  have "s div 2 div 2 = s div 4" "s div 4 div 2 = s div 8" "s div 8 div 2 = s div 16" "s div 16 div 2 = s div 32"
    "s div 32 div 2 = 0"
    using assms by (simp_all add: div_mult2_eq [symmetric])
  then show ?thesis
    unfolding reg_bits_def run_six
    using step [of s] step [of "s div 2"] step [of "s div 4"] step [of "s div 8"] step [of "s div 16"] step [of "s div 32"]
    by linarith
qed

text \<open>
  The only window of twelve differences that the code maps to zero twelve times is zero;
  \<open>e k\<close> is the difference of the two inputs \<open>k\<close> steps into the window.
\<close>

lemma window_zero:
  fixes e :: "nat \<Rightarrow> bool"
  assumes "\<And>t. 6 \<le> t \<Longrightarrow> t \<le> 11 \<Longrightarrow> (e t \<noteq> (e (t - 2) \<noteq> (e (t - 3) \<noteq> (e (t - 5) \<noteq> e (t - 6))))) = False"
    and "\<And>t. 6 \<le> t \<Longrightarrow> t \<le> 11 \<Longrightarrow> (e t \<noteq> (e (t - 1) \<noteq> (e (t - 2) \<noteq> (e (t - 3) \<noteq> e (t - 6))))) = False"
    and "k < 12"
  shows "\<not> e k"
proof -
  have p: "e (t - 1) = e (t - 5)" if "6 \<le> t" "t \<le> 11" for t
    using assms(1,2) [OF that] by auto
  have q: "e 5 = e 1" "e 6 = e 2" "e 7 = e 3" "e 8 = e 4" "e 9 = e 1" "e 10 = e 2"
    using p [of 6] p [of 7] p [of 8] p [of 9] p [of 10] p [of 11] by simp_all
  have r: "(e 6 \<noteq> (e 4 \<noteq> (e 3 \<noteq> (e 1 \<noteq> e 0)))) = False" "(e 7 \<noteq> (e 5 \<noteq> (e 4 \<noteq> (e 2 \<noteq> e 1)))) = False"
    "(e 8 \<noteq> (e 6 \<noteq> (e 5 \<noteq> (e 3 \<noteq> e 2)))) = False" "(e 9 \<noteq> (e 7 \<noteq> (e 6 \<noteq> (e 4 \<noteq> e 3)))) = False"
    "(e 10 \<noteq> (e 8 \<noteq> (e 7 \<noteq> (e 5 \<noteq> e 4)))) = False" "(e 11 \<noteq> (e 9 \<noteq> (e 8 \<noteq> (e 6 \<noteq> e 5)))) = False"
    using assms(1) [of 6] assms(1) [of 7] assms(1) [of 8] assms(1) [of 9] assms(1) [of 10] assms(1) [of 11]
    by simp_all
  have "\<not> e 0 \<and> \<not> e 1 \<and> \<not> e 2 \<and> \<not> e 3 \<and> \<not> e 4 \<and> \<not> e 11"
    using r unfolding q by (cases "e 0"; cases "e 1"; cases "e 2"; cases "e 3"; cases "e 4"; simp)
  moreover have "k = 0 \<or> k = 1 \<or> k = 2 \<or> k = 3 \<or> k = 4 \<or> k = 5 \<or> k = 6 \<or> k = 7 \<or> k = 8 \<or> k = 9 \<or> k = 10 \<or> k = 11"
    using assms(3) by presburger
  ultimately show ?thesis using q by presburger
qed

lemma parity5: "((a::nat) + b + c + d + e) mod 2 = (a' + b' + c' + d' + e') mod 2 \<Longrightarrow>
  (odd (a + a') \<noteq> (odd (b + b') \<noteq> (odd (c + c') \<noteq> (odd (d + d') \<noteq> odd (e + e'))))) = False"
  by (auto simp: mod2_eq_if split: if_splits)

lemma coded_inj:
  assumes "length bs = length bs'" and "6 \<le> length bs" and "is_bin bs" and "is_bin bs'"
    and "s < 64" and "s' < 64" and eq: "coded s bs = coded s' bs'"
  shows "s = s' \<and> bs = bs'"
proof -
  let ?X = "reg_bits s @ bs" and ?X' = "reg_bits s' @ bs'" and ?n = "6 + length bs"
  have bin: "is_bin ?X" "is_bin ?X'" and len: "length ?X = ?n" "length ?X' = ?n"
    using assms reg_bits by auto
  have out: "coded 0 ?X ! k = coded 0 ?X' ! k" if "12 \<le> k" for k
    using that eq by (simp add: coded_append run_reg_bits assms(5,6) reg_bits nth_append)
  define e where "e t \<longleftrightarrow> odd (?X ! t + ?X' ! t)" for t
  have tapX: "tap ?X t k = ?X ! (t - k)" "tap ?X' t k = ?X' ! (t - k)" if "k \<le> 6" "6 \<le> t" "t < ?n" for t k
  proof -
    have "t - k < ?n" using that by simp
    then show "tap ?X t k = ?X ! (t - k)" "tap ?X' t k = ?X' ! (t - k)"
      using that len by (simp_all only: tap_def) simp_all
  qed
  have ix: "k \<le> 6" if "k \<in> {1, 2, 3, 5, 6}" for k :: nat using that by auto
  have e0: "(e t \<noteq> (e (t - 2) \<noteq> (e (t - 3) \<noteq> (e (t - 5) \<noteq> e (t - 6))))) = False" if "6 \<le> t" "t < ?n" for t
  proof -
    have "(?X ! t + ?X ! (t - 2) + ?X ! (t - 3) + ?X ! (t - 5) + ?X ! (t - 6)) mod 2 = coded 0 ?X ! (2 * t)"
      using coded_conv(1) [OF bin(1), of t] that(2) len(1) ix by (simp only: tapX [OF ix that] insert_iff simp_thms)
    moreover have "(?X' ! t + ?X' ! (t - 2) + ?X' ! (t - 3) + ?X' ! (t - 5) + ?X' ! (t - 6)) mod 2 = coded 0 ?X' ! (2 * t)"
      using coded_conv(1) [OF bin(2), of t] that(2) len(2) ix by (simp only: tapX [OF ix that] insert_iff simp_thms)
    moreover have "coded 0 ?X ! (2 * t) = coded 0 ?X' ! (2 * t)" using that(1) by (intro out) simp
    ultimately show ?thesis unfolding e_def by (intro parity5) simp
  qed
  have e1: "(e t \<noteq> (e (t - 1) \<noteq> (e (t - 2) \<noteq> (e (t - 3) \<noteq> e (t - 6))))) = False" if "6 \<le> t" "t < ?n" for t
  proof -
    have "(?X ! t + ?X ! (t - 1) + ?X ! (t - 2) + ?X ! (t - 3) + ?X ! (t - 6)) mod 2 = coded 0 ?X ! (2 * t + 1)"
      using coded_conv(2) [OF bin(1), of t] that(2) len(1) ix by (simp only: tapX [OF ix that] insert_iff simp_thms)
    moreover have "(?X' ! t + ?X' ! (t - 1) + ?X' ! (t - 2) + ?X' ! (t - 3) + ?X' ! (t - 6)) mod 2 = coded 0 ?X' ! (2 * t + 1)"
      using coded_conv(2) [OF bin(2), of t] that(2) len(2) ix by (simp only: tapX [OF ix that] insert_iff simp_thms)
    moreover have "coded 0 ?X ! (2 * t + 1) = coded 0 ?X' ! (2 * t + 1)" using that(1) by (intro out) simp
    ultimately show ?thesis unfolding e_def by (intro parity5) simp
  qed
  have window: "\<not> e (w + k)" if w: "w + 12 \<le> ?n" and k: "k < 12" for w k
  proof (rule window_zero [where e = "\<lambda>k. e (w + k)", OF _ _ k])
    fix t :: nat assume t: "6 \<le> t" "t \<le> 11"
    then have "w + t - 1 = w + (t - 1)" "w + t - 2 = w + (t - 2)" "w + t - 3 = w + (t - 3)"
      "w + t - 5 = w + (t - 5)" "w + t - 6 = w + (t - 6)" "6 \<le> w + t" "w + t < ?n" using w by simp_all
    then show "(e (w + t) \<noteq> (e (w + (t - 2)) \<noteq> (e (w + (t - 3)) \<noteq> (e (w + (t - 5)) \<noteq> e (w + (t - 6)))))) = False"
      "(e (w + t) \<noteq> (e (w + (t - 1)) \<noteq> (e (w + (t - 2)) \<noteq> (e (w + (t - 3)) \<noteq> e (w + (t - 6)))))) = False"
      using e0 [of "w + t"] e1 [of "w + t"] by (simp_all only:)
  qed
  have zero: "\<not> e t" if t: "t < ?n" for t
  proof (cases "t + 12 \<le> ?n")
    case True
    then show ?thesis using window [of t 0] by simp
  next
    case False
    then show ?thesis using window [of "?n - 12" "t - (?n - 12)"] t assms(2) by simp
  qed
  have "?X ! t = ?X' ! t" if t: "t < ?n" for t
  proof -
    have "?X ! t < 2" "?X' ! t < 2" using bin len t by (metis nth_mem lessThan_iff subsetD)+
    with zero [OF t] show ?thesis unfolding e_def by presburger
  qed
  then have "?X = ?X'" using len by (intro nth_equalityI) auto
  then have "reg_bits s = reg_bits s'" "bs = bs'" using reg_bits by (simp_all add: append_eq_append_conv)
  then show ?thesis using run_reg_bits assms(5,6) by metis
qed


section \<open>Hard decisions\<close>

text \<open>The path cost is a sum over the coded bits.\<close>

lemma path_metric_coded:
  "path_metric y j bs = (\<Sum>i<2 * length bs. dist (level (coded j bs ! i)) (y ! i))"
proof (induction bs rule: rev_induct)
  case (snoc b bs)
  let ?c = "coded j bs" and ?n = "2 * length bs"
  have "(\<Sum>i<?n. dist (level (coded j (bs @ [b]) ! i)) (y ! i)) = path_metric y j bs"
    unfolding snoc by (rule sum.cong) (simp_all add: coded_append nth_append)
  then show ?case
    by (simp add: path_metric_snoc bmetric_def coded_append nth_append)
qed simp

text \<open>Number of coded bits in which a path differs from the hard decisions \<open>r\<close>.\<close>

definition hamming :: "nat list \<Rightarrow> nat list \<Rightarrow> nat" where
  "hamming c r = card {i. i < length c \<and> c ! i \<noteq> r ! i}"

lemma dist_hard: "c < 2 \<Longrightarrow> r < 2 \<Longrightarrow> dist (level c) (hard_level (of_nat r)) = 5 + 20 * of_bool (c \<noteq> r)"
  by (auto simp: dist_def level_def hard_level_def less_2_cases_iff)

lemma path_metric_hard:
  assumes "is_bin r" and "length r = 2 * length bs" and "take (length r) y = map (\<lambda>x. hard_level (of_nat x)) r"
  shows "path_metric y j bs = 10 * int (length bs) + 20 * int (hamming (coded j bs) r)"
proof -
  let ?n = "2 * length bs" and ?c = "coded j bs"
  have "dist (level (?c ! i)) (y ! i) = 5 + 20 * of_bool (?c ! i \<noteq> r ! i)" if "i < ?n" for i
  proof -
    have "y ! i = hard_level (of_nat (r ! i))" using assms(2,3) that by (metis nth_map nth_take)
    moreover have "?c ! i < 2" "r ! i < 2" using coded_bin [of j bs] assms(1,2) that
      by (metis nth_mem lessThan_iff subsetD coded_length)+
    ultimately show ?thesis by (simp add: dist_hard)
  qed
  then have "path_metric y j bs = (\<Sum>i<?n. 5 + 20 * of_bool (?c ! i \<noteq> r ! i))"
    by (simp add: path_metric_coded)
  also have "\<dots> = 5 * int ?n + 20 * (\<Sum>i<?n. of_bool (?c ! i \<noteq> r ! i))"
    by (simp add: sum.distrib sum_distrib_left)
  also have "(\<Sum>i<?n. of_bool (?c ! i \<noteq> r ! i)) = int (hamming ?c r)"
    by (simp add: hamming_def lessThan_def Collect_conj_eq Int_commute)
  finally show ?thesis by simp
qed

section \<open>Properties\<close>

text \<open>
  On a decoder whose memory is as the C runtime leaves it, \<open>set_viterbiDecoder\<close> builds
  the trellis: every entry has its two branches, from the two states whose shift leads to
  it, with the right input and levels. It may be called once only: branch counters are
  never reset, so a second call writes beyond \<^verbatim>\<open>prev[2]\<close>.
\<close>

theorem set_viterbiDecoder_once:
  assumes "trellis (\<lambda>c n. 0) vd"
  shows "\<exists>vd'. set_viterbiDecoder vd = Some vd' \<and> dec_ok vd' \<and> set_viterbiDecoder vd' = None"
  using set_viterbiDecoder_trellis [OF assms] trellis_full set_viterbiDecoder_full by blast

text \<open>The zero-initialised decoder.\<close>

definition zero_decoder :: viterbiDecoder where
  "zero_decoder = \<lparr>smu = replicate 64 (replicate 64 \<lparr>step = 0, state = 0, branchCount = 0, prev = [None, None],
     input = [0, 0], sm_output = [[0, 0], [0, 0]], cost = [0, 0], minPathId = 0, minCost = 0\<rparr>),
     init_cost = replicate 64 0, initFlag = 0\<rparr>"

lemma zero_decoder_trellis: "trellis (\<lambda>c n. 0) zero_decoder"
  by (simp add: trellis_def zero_decoder_def filled_def)

theorem set_viterbiDecoder_once_witness:
  "\<exists>vd'. set_viterbiDecoder zero_decoder = Some vd' \<and> dec_ok vd' \<and> set_viterbiDecoder vd' = None"
  by (rule set_viterbiDecoder_once) (rule zero_decoder_trellis)


text \<open>The decoder after its initialisation.\<close>

definition ready_decoder :: viterbiDecoder where
  "ready_decoder = the (set_viterbiDecoder zero_decoder)"

lemma ready_decoder_ok: "dec_ok ready_decoder"
  using set_viterbiDecoder_trellis [OF zero_decoder_trellis] trellis_full by (auto simp: ready_decoder_def)


text \<open>
  For hard decisions the decoder finds a nearest codeword: the returned bits differ from
  the received ones in no more coded positions than any other path does.
\<close>

theorem viterbi_decoding_nearest:
  assumes "dec_ok vd" and "is_bin r" and "length r = 128" and "64 \<le> length ob"
  shows "\<exists>bs s vd'. viterbi_decoding (map (\<lambda>x. hard_level (of_nat x)) r @ z) ob vd = Some (map of_nat bs @ drop 64 ob, vd') \<and>
    dec_ok vd' \<and> length bs = 64 \<and> is_bin bs \<and> s < 64 \<and>
    (\<forall>s' bs'. s' < 64 \<longrightarrow> length bs' = 64 \<longrightarrow> is_bin bs' \<longrightarrow> hamming (coded s bs) r \<le> hamming (coded s' bs') r)"
proof -
  let ?y = "map (\<lambda>x. hard_level (of_nat x)) r @ z"
  have "128 \<le> length ?y" using assms(3) by simp
  from viterbi_decoding_best [OF assms(1) this assms(4)] obtain bs s vd' where
    d: "viterbi_decoding ?y ob vd = Some (map of_nat bs @ drop 64 ob, vd')" "dec_ok vd'" "length bs = 64" "is_bin bs" "s < 64"
    and best: "\<And>s' bs'. s' < 64 \<Longrightarrow> length bs' = 64 \<Longrightarrow> is_bin bs' \<Longrightarrow> path_metric ?y s bs \<le> path_metric ?y s' bs'"
    by blast
  have pm: "path_metric ?y s' bs' = 640 + 20 * int (hamming (coded s' bs') r)" if "length bs' = 64" for s' bs'
    using path_metric_hard [OF assms(2), of bs' ?y s'] assms(3) that by simp
  have "hamming (coded s bs) r \<le> hamming (coded s' bs') r" if "s' < 64" "length bs' = 64" "is_bin bs'" for s' bs'
    using best [OF that] pm [OF that(2), of s'] pm [OF d(3), of s] by simp
  with d show ?thesis by blast
qed

theorem viterbi_decoding_nearest_witness:
  "\<exists>bs s vd'. viterbi_decoding (map (\<lambda>x. hard_level (of_nat x)) (replicate 128 1) @ []) (replicate 64 0) ready_decoder
      = Some (map of_nat bs @ drop 64 (replicate 64 0), vd') \<and>
    dec_ok vd' \<and> length bs = 64 \<and> is_bin bs \<and> s < 64 \<and>
    (\<forall>s' bs'. s' < 64 \<longrightarrow> length bs' = 64 \<longrightarrow> is_bin bs' \<longrightarrow>
       hamming (coded s bs) (replicate 128 1) \<le> hamming (coded s' bs') (replicate 128 1))"
  by (rule viterbi_decoding_nearest [OF ready_decoder_ok]) simp_all

text \<open>
  C38: without channel errors decoding is exact. What the encoder produced for 64 bits, sent
  as hard levels, decodes to these bits, whatever is behind the 128 levels.
\<close>

theorem viterbi_noiseless_roundtrip:
  assumes "dec_ok vd" and "is_bits (take 64 ib)" and "112 \<le> length ib" and "224 \<le> length eb" and "64 \<le> length ob"
  shows "\<exists>ib' c vd'. viterbi_encoding ib eb = Some (ib', c) \<and>
    viterbi_decoding (map hard_level c) ob vd = Some (take 64 ib @ drop 64 ob, vd') \<and> dec_ok vd'"
proof -
  let ?x = "map unat (take 64 ib)"
  let ?r = "coded 0 ?x"
  have x: "length ?x = 64" "is_bin ?x" using assms(2,3) unat_bits by auto
  have r: "is_bin ?r" "length ?r = 128" using coded_bin x by simp_all
  let ?z = "map hard_level (replicate 96 0 @ drop 224 eb)"
  from viterbi_decoding_best [OF assms(1) _ assms(5), of "map (\<lambda>x. hard_level (of_nat x)) ?r @ ?z"]
  obtain bs s vd' where
    d: "viterbi_decoding (map (\<lambda>x. hard_level (of_nat x)) ?r @ ?z) ob vd = Some (map of_nat bs @ drop 64 ob, vd')"
    "dec_ok vd'" "length bs = 64" "is_bin bs" "s < 64"
    "path_metric (map (\<lambda>x. hard_level (of_nat x)) ?r @ ?z) s bs \<le> path_metric (map (\<lambda>x. hard_level (of_nat x)) ?r @ ?z) 0 ?x"
    using r(2) x by fastforce
  have "hamming (coded s bs) ?r \<le> hamming ?r ?r"
    using d(6) path_metric_hard [OF r(1), of bs] path_metric_hard [OF r(1), of ?x] d(3) x r(2) by simp
  then have "hamming (coded s bs) ?r = 0" by (simp add: hamming_def)
  then have "coded s bs = coded 0 ?x"
    using d(3) x by (intro nth_equalityI) (auto simp: hamming_def)
  then have "bs = ?x" using coded_inj [of bs ?x s 0] d(3-5) x by simp
  then show ?thesis
    using d(1,2) viterbi_encoding_eq [OF assms(2-4)] by (simp add: comp_def)
qed

theorem viterbi_noiseless_roundtrip_witness:
  "\<exists>ib' c vd'. viterbi_encoding (replicate 112 1) (replicate 224 0) = Some (ib', c) \<and>
    viterbi_decoding (map hard_level c) (replicate 64 0) ready_decoder = Some (replicate 64 1, vd') \<and> dec_ok vd'"
  using viterbi_noiseless_roundtrip [OF ready_decoder_ok, of "replicate 112 1" "replicate 224 0" "replicate 64 0"]
  by simp

end
