(* ===== verification/Framing.thy ===== *)
theory Framing
  imports Wifi_Common
begin

text \<open>
  \<^verbatim>\<open>pilot.c\<close>, \<^verbatim>\<open>CyclicPrefix.c\<close> and \<^verbatim>\<open>datatypeconv.c\<close>: routines that place samples in
  frames without computing on them. They are polymorphic in the sample type where the
  code only copies; the pilots themselves are a parameter of the insertion lemmas' type
  (real or any other number type with 1 and minus 1).
\<close>

section \<open>Pilots\<close>

definition pilotLoc :: "nat list" where
  "pilotLoc = [7, 15, 23, 31, 39, 47, 55, 63, 71, 79, 87, 95, 103, 111, 119, 127]"

definition pilotData :: "'f::{one,uminus} comp_t list" where
  "pilotData =
     (let a = \<lparr>real_part = - 1, imag_part = 1\<rparr>; b = \<lparr>real_part = 1, imag_part = 1\<rparr>
      in [a, b, b, b, a, b, b, b, a, b, b, b, a, b, b, b])"

text \<open>The loop reads \<^verbatim>\<open>pilotLoc[j]\<close> in every iteration; \<open>k\<close> counts the data samples used.\<close>

definition pilotInsertion :: "'f::{one,uminus} comp_t list \<Rightarrow> 'f comp_t list \<Rightarrow> 'f comp_t list option" where
  "pilotInsertion idata odata = map_option (snd \<circ> snd) (foreach [0..<128] (\<lambda>i (j, k, odata). do {
     loc \<leftarrow> rd pilotLoc j;
     if loc = i then do {
       p \<leftarrow> rd pilotData j;
       odata \<leftarrow> wr odata i p;
       Some (j + 1, k, odata) }
     else do {
       d \<leftarrow> rd idata k;
       odata \<leftarrow> wr odata i d;
       Some (j, k + 1, odata) } }) (0, 0, odata))"

definition pilotExtract :: "'f comp_t list \<Rightarrow> 'f list \<Rightarrow> 'f list option" where
  "pilotExtract idata pilot_data = map_option snd (foreach [0..<PILOT_LEN] (\<lambda>i (j, pilot_data). do {
     loc \<leftarrow> rd pilotLoc i;
     s \<leftarrow> rd idata loc;
     pilot_data \<leftarrow> wr pilot_data j (real_part s);
     pilot_data \<leftarrow> wr pilot_data (j + 1) (imag_part s);
     Some (j + 2, pilot_data) }) (0, pilot_data))"

definition pilotRemove :: "int \<Rightarrow> 'f comp_t list \<Rightarrow> 'f comp_t list \<Rightarrow> 'f comp_t list option" where
  "pilotRemove len idata odata = map_option (snd \<circ> snd) (foreach [0..<nat len] (\<lambda>i (j, k, odata). do {
     loc \<leftarrow> rd pilotLoc j;
     if i \<noteq> loc then do {
       d \<leftarrow> rd idata i;
       odata \<leftarrow> wr odata k d;
       Some (j, k + 1, odata) }
     else Some (j + 1, k, odata) }) (0, 0, odata))"

section \<open>Cyclic prefix\<close>

definition cyclicPrefix :: "'s list \<Rightarrow> 's list \<Rightarrow> int \<Rightarrow> int \<Rightarrow> 's list option" where
  "cyclicPrefix iData oData len preLen = do {
     let tailIndex = len - preLen;
     oData \<leftarrow> foreach [0..<nat preLen] (\<lambda>i b. do { x \<leftarrow> rd iData (nat (tailIndex + int i)); wr b i x }) oData;
     foreach [0..<nat len] (\<lambda>i b. do { x \<leftarrow> rd iData i; wr b (nat (preLen + int i)) x }) oData }"

section \<open>Complex samples as pairs of numbers\<close>

text \<open>The loops step by two: iteration \<open>j\<close> handles the cells \<open>i = 2 * j\<close> and \<open>i + 1\<close>.\<close>

definition complextofloat :: "int \<Rightarrow> 'f comp_t list \<Rightarrow> 'f list \<Rightarrow> 'f list option" where
  "complextofloat indatlen ibuf obuf = foreach [0..<nat ((indatlen + 1) div 2)] (\<lambda>j obuf. do {
     let i = 2 * j;
     s \<leftarrow> rd ibuf j;
     obuf \<leftarrow> wr obuf i (real_part s);
     wr obuf (i + 1) (imag_part s) }) obuf"

definition floattocomplex :: "int \<Rightarrow> 'f list \<Rightarrow> 'f comp_t list \<Rightarrow> 'f comp_t list option" where
  "floattocomplex indatlen ibuf obuf = foreach [0..<nat ((indatlen + 1) div 2)] (\<lambda>j obuf. do {
     let i = 2 * j;
     s \<leftarrow> rd obuf j;
     r \<leftarrow> rd ibuf i;
     m \<leftarrow> rd ibuf (i + 1);
     wr obuf j (s\<lparr>real_part := r, imag_part := m\<rparr>) }) obuf"

section \<open>Where the pilots are\<close>

lemma pilotLoc_eq: "pilotLoc = map (\<lambda>j. 8 * j + 7) [0..<16]"
  by (simp add: pilotLoc_def eval_nat_numeral)

lemma pilotLoc_length [simp]: "length pilotLoc = 16"
  by (simp add: pilotLoc_def)

lemma pilotData_length [simp]: "length pilotData = 16"
  by (simp add: pilotData_def Let_def)

lemma pilotLoc_nth: "j < 16 \<Longrightarrow> pilotLoc ! j = 8 * j + 7"
  by (simp add: pilotLoc_eq)

lemma rd_pilotLoc: "i < 128 \<Longrightarrow> rd pilotLoc (i div 8) = Some (8 * (i div 8) + 7)"
  by (simp add: pilotLoc_nth)

text \<open>Symbol \<open>i\<close> of the sent frame, for 112 data samples \<open>d\<close>.\<close>

definition with_pilots :: "'f::{one,uminus} comp_t list \<Rightarrow> nat \<Rightarrow> 'f comp_t" where
  "with_pilots d i = (if i mod 8 = 7 then pilotData ! (i div 8) else d ! (i - i div 8))"

text \<open>In iteration \<open>i\<close> the counters are \<open>j = i div 8\<close> and \<open>k = i - i div 8\<close>.\<close>

lemma data_count: "i - i div 8 = 7 * (i div 8) + i mod (8 :: nat)"
  using div_mult_mod_eq [of i 8] by linarith

lemma pilot_counters:
  "i mod 8 = 7 \<Longrightarrow> Suc i div 8 = Suc (i div 8) \<and> Suc i - Suc i div 8 = i - i div 8"
  "i mod 8 \<noteq> 7 \<Longrightarrow> Suc i div 8 = i div 8 \<and> Suc i - Suc i div 8 = Suc (i - i div 8)"
  "i mod 8 = 7 \<longleftrightarrow> 8 * (i div 8) + 7 = (i :: nat)"
proof -
  show "i mod 8 = 7 \<longleftrightarrow> 8 * (i div 8) + 7 = i" using div_mult_mod_eq [of i 8] by linarith
  show "Suc i div 8 = Suc (i div 8) \<and> Suc i - Suc i div 8 = i - i div 8" if "i mod 8 = 7"
    using that by (simp add: data_count div_Suc mod_Suc)
  show "Suc i div 8 = i div 8 \<and> Suc i - Suc i div 8 = Suc (i - i div 8)" if "i mod 8 \<noteq> 7"
    using that by (simp add: div_Suc mod_Suc Suc_diff_le)
qed

lemma data_index: "i < 128 \<Longrightarrow> i mod 8 \<noteq> 7 \<Longrightarrow> i - i div 8 < (112 :: nat)"
proof -
  assume "i < 128" "i mod 8 \<noteq> 7"
  moreover have "i mod 8 < 8" by simp
  ultimately have "i div 8 < 16" "i mod 8 < 7" by linarith+
  then show ?thesis unfolding data_count by linarith
qed

lemma pilotInsertion_loop:
  assumes "n \<le> 128" and "112 \<le> length d" and "128 \<le> length ob"
  shows "foreach [0..<n] (\<lambda>i (j, k, odata). do {
     loc \<leftarrow> rd pilotLoc j;
     if loc = i then do {
       p \<leftarrow> rd pilotData j;
       odata \<leftarrow> wr odata i p;
       Some (j + 1, k, odata) }
     else do {
       x \<leftarrow> rd d k;
       odata \<leftarrow> wr odata i x;
       Some (j, k + 1, odata) } }) (0, 0, ob)
   = Some (n div 8, n - n div 8, map (with_pilots d) [0..<n] @ drop n ob)"
  using assms(1)
proof (induction n)
  case 0
  then show ?case by simp
next
  case (Suc n)
  have loc: "rd pilotLoc (n div 8) = Some (8 * (n div 8) + 7)" using Suc.prems by (intro rd_pilotLoc) simp
  have "drop n ob = ob ! n # drop (Suc n) ob" using Suc.prems assms(3) by (simp add: Cons_nth_drop_Suc)
  then have wr: "wr (map (with_pilots d) [0..<n] @ drop n ob) n v = Some (map (with_pilots d) [0..<n] @ v # drop (Suc n) ob)" for v
    using Suc.prems assms(3) by (simp add: list_update_append)
  show ?case
  proof (cases "n mod 8 = 7")
    case True
    then have "8 * (n div 8) + 7 = n" using pilot_counters(3) by blast
    then have "pilotLoc ! (n div 8) = n" using Suc.prems by (simp add: pilotLoc_nth)
    moreover have "n div 8 < 16" using Suc.prems by simp
    moreover have "with_pilots d n = pilotData ! (n div 8)" using True by (simp add: with_pilots_def)
    ultimately show ?thesis using Suc.IH Suc.prems wr pilot_counters(1) [OF True] by simp
  next
    case False
    then have "8 * (n div 8) + 7 \<noteq> n" using pilot_counters(3) by blast
    moreover have "n - n div 8 < length d" using data_index [of n] False Suc.prems assms(2) by simp
    moreover have "with_pilots d n = d ! (n - n div 8)" using False by (simp add: with_pilots_def)
    ultimately show ?thesis using Suc.IH Suc.prems loc wr pilot_counters(2) [OF False] by simp
  qed
qed

lemma pilotInsertion_eq:
  assumes "112 \<le> length d" and "128 \<le> length ob"
  shows "pilotInsertion d ob = Some (map (with_pilots d) [0..<128] @ drop 128 ob)"
  unfolding pilotInsertion_def pilotInsertion_loop [OF order_refl assms] by simp

text \<open>Removal keeps the samples between the pilots, in order.\<close>

definition data_loc :: "nat \<Rightarrow> nat" where
  "data_loc k = k + k div 7"

lemma data_loc: "i mod 8 \<noteq> 7 \<Longrightarrow> data_loc (i - i div 8) = i"
proof -
  assume "i mod 8 \<noteq> 7"
  moreover have "i mod 8 < 8" by simp
  ultimately have "i mod 8 < 7" by linarith
  then show ?thesis using div_mult_mod_eq [of i 8] by (simp add: data_loc_def data_count)
qed

lemma data_loc_data: "data_loc k mod 8 \<noteq> 7" "data_loc k - data_loc k div 8 = k" "k < 112 \<Longrightarrow> data_loc k < 128"
proof -
  have r: "k mod 7 < 7" by simp
  have loc: "data_loc k = 8 * (k div 7) + k mod 7" using div_mult_mod_eq [of k 7] unfolding data_loc_def by linarith
  have dm: "data_loc k mod 8 = k mod 7" "data_loc k div 8 = k div 7" unfolding loc using r by simp_all
  show "data_loc k mod 8 \<noteq> 7" using r by (simp add: dm)
  show "data_loc k - data_loc k div 8 = k" unfolding dm by (simp add: data_loc_def)
  show "data_loc k < 128" if "k < 112"
  proof -
    have "k div 7 < 16" using that by linarith
    then show ?thesis unfolding loc using r by linarith
  qed
qed

lemma pilotRemove_loop:
  assumes "n \<le> 128" and "128 \<le> length d" and "112 \<le> length ob"
  shows "foreach [0..<n] (\<lambda>i (j, k, odata). do {
     loc \<leftarrow> rd pilotLoc j;
     if i \<noteq> loc then do {
       x \<leftarrow> rd d i;
       odata \<leftarrow> wr odata k x;
       Some (j, k + 1, odata) }
     else Some (j + 1, k, odata) }) (0, 0, ob)
   = Some (n div 8, n - n div 8, map (\<lambda>k. d ! data_loc k) [0..<n - n div 8] @ drop (n - n div 8) ob)"
  using assms(1)
proof (induction n)
  case 0
  then show ?case by simp
next
  case (Suc n)
  let ?k = "n - n div 8"
  have loc: "rd pilotLoc (n div 8) = Some (8 * (n div 8) + 7)" using Suc.prems by (intro rd_pilotLoc) simp
  show ?case
  proof (cases "n mod 8 = 7")
    case True
    then have "n = 8 * (n div 8) + 7" using pilot_counters(3) by metis
    then show ?thesis using Suc loc pilot_counters(1) [OF True] by simp
  next
    case False
    then have "n \<noteq> 8 * (n div 8) + 7" using pilot_counters(3) by metis
    moreover have k: "?k < 112" using data_index [of n] False Suc.prems by simp
    moreover have "drop ?k ob = ob ! ?k # drop (Suc ?k) ob" using k assms(3) by (simp add: Cons_nth_drop_Suc)
    then have wr: "wr (map (\<lambda>k. d ! data_loc k) [0..<?k] @ drop ?k ob) ?k v
        = Some (map (\<lambda>k. d ! data_loc k) [0..<?k] @ v # drop (Suc ?k) ob)" for v
      using k assms(3) by (simp add: list_update_append)
    have "Suc n div 8 = n div 8" "Suc n - n div 8 = Suc ?k" using pilot_counters(2) [OF False] by auto
    ultimately show ?thesis
      using Suc.IH Suc.prems loc wr data_loc [OF False] assms(2) by simp
  qed
qed

lemma pilotRemove_eq:
  assumes "128 \<le> length d" and "112 \<le> length ob"
  shows "pilotRemove 128 d ob = Some (map (\<lambda>k. d ! data_loc k) [0..<112] @ drop 112 ob)"
  using pilotRemove_loop [OF order_refl assms] unfolding pilotRemove_def by simp

text \<open>
  Removing the pilots recovers the 112 data samples the sender put between them.
\<close>

theorem pilotRemove_pilotInsertion:
  assumes "112 \<le> length d" and "128 \<le> length ob" and "112 \<le> length ob'"
  shows "Option.bind (pilotInsertion d ob) (\<lambda>f. pilotRemove 128 f ob') = Some (take 112 d @ drop 112 ob')"
proof -
  let ?f = "map (with_pilots d) [0..<128] @ drop 128 ob"
  have f: "?f ! data_loc k = d ! k" if "k < 112" for k
  proof -
    have "?f ! data_loc k = with_pilots d (data_loc k)"
      using data_loc_data(3) [OF that] by (simp only: nth_append length_map length_upt if_True nth_map_upt) simp
    then show ?thesis by (simp add: with_pilots_def data_loc_data)
  qed
  have "pilotRemove 128 ?f ob' = Some (map (\<lambda>k. ?f ! data_loc k) [0..<112] @ drop 112 ob')"
    using assms(3) by (intro pilotRemove_eq) simp_all
  also have "map (\<lambda>k. ?f ! data_loc k) [0..<112] = map (\<lambda>k. d ! k) [0..<112]"
    by (intro map_cong refl f) (simp only: set_upt atLeastLessThan_iff)
  also have "\<dots> = take 112 d" using assms(1) by (rule map_nth_take)
  finally show ?thesis using pilotInsertion_eq [OF assms(1,2)] by simp
qed

theorem pilotRemove_pilotInsertion_witness:
  "Option.bind (pilotInsertion (replicate 113 \<lparr>real_part = 3, imag_part = 4\<rparr>) (replicate 128 \<lparr>real_part = 0, imag_part = 0\<rparr>))
     (\<lambda>f. pilotRemove 128 f (replicate 112 \<lparr>real_part = 0, imag_part = 0\<rparr>))
   = Some (replicate 112 \<lparr>real_part = 3, imag_part = 4 :: int\<rparr>)"
  using pilotRemove_pilotInsertion [of "replicate 113 \<lparr>real_part = 3, imag_part = 4 :: int\<rparr>"
      "replicate 128 \<lparr>real_part = 0, imag_part = 0\<rparr>" "replicate 112 \<lparr>real_part = 0, imag_part = 0\<rparr>"]
  by simp


section \<open>Pilot extraction\<close>

lemma pilotExtract_loop:
  assumes "n \<le> 16" and "128 \<le> length d" and "2 * n \<le> length ob"
  shows "foreach [0..<n] (\<lambda>i (j, pilot_data). do {
     loc \<leftarrow> rd pilotLoc i;
     s \<leftarrow> rd d loc;
     pilot_data \<leftarrow> wr pilot_data j (real_part s);
     pilot_data \<leftarrow> wr pilot_data (j + 1) (imag_part s);
     Some (j + 2, pilot_data) }) (0, ob)
   = Some (2 * n, concat (map (\<lambda>i. [real_part (d ! (8 * i + 7)), imag_part (d ! (8 * i + 7))]) [0..<n]) @ drop (2 * n) ob)"
  using assms(1,3)
proof (induction n)
  case 0
  then show ?case by simp
next
  case (Suc n)
  let ?p = "\<lambda>i. [real_part (d ! (8 * i + 7)), imag_part (d ! (8 * i + 7))]"
  have len: "length (concat (map ?p [0..<n])) = 2 * n" by (rule length_concat_blocks) simp
  have two: "drop (2 * n) ob = ob ! (2 * n) # ob ! (2 * n + 1) # drop (2 * n + 2) ob"
    using Suc.prems by (simp add: Cons_nth_drop_Suc)
  have "rd pilotLoc n = Some (8 * n + 7)" "rd d (8 * n + 7) = Some (d ! (8 * n + 7))"
    using Suc.prems assms(2) by (simp_all add: pilotLoc_nth)
  then show ?case using Suc len unfolding two by (simp add: list_update_append)
qed

text \<open>The thirty-two numbers of the pilots a receiver sees.\<close>

lemma pilotExtract_eq:
  assumes "128 \<le> length d" and "32 \<le> length ob"
  shows "pilotExtract d ob = Some (concat (map (\<lambda>j. [real_part (d ! (8 * j + 7)), imag_part (d ! (8 * j + 7))]) [0..<16]) @ drop 32 ob)"
  using pilotExtract_loop [of 16 d ob] assms unfolding pilotExtract_def by simp

text \<open>
  The receiver's pilot buffer is too small. Extraction writes 32 numbers, and
  \<^verbatim>\<open>RX.c\<close> allocates \<^verbatim>\<open>PILOT_LEN\<close> (16): with that buffer the call leaves it, for every
  received symbol.
\<close>

theorem pilotExtract_overflows:
  assumes "128 \<le> length d" and "length ob = PILOT_LEN"
  shows "pilotExtract d ob = None"
proof -
  let ?body = "\<lambda>i (j, pilot_data). do {
     loc \<leftarrow> rd pilotLoc i;
     s \<leftarrow> rd d loc;
     pilot_data \<leftarrow> wr pilot_data j (real_part s);
     pilot_data \<leftarrow> wr pilot_data (j + 1) (imag_part s);
     Some (j + 2, pilot_data) }"
  let ?p = "concat (map (\<lambda>i. [real_part (d ! (8 * i + 7)), imag_part (d ! (8 * i + 7))]) [0..<8])"
  have "foreach [0..<8] ?body (0, ob) = Some (16, ?p)"
    using pilotExtract_loop [of 8 d ob] assms by simp
  moreover have "length ?p = 16" by (subst length_concat_blocks [where w = 2]) simp_all
  then have "?body 8 (16, ?p) = None" using assms(1) by (simp add: pilotLoc_nth wr_out)
  moreover have "[0..<16] = [0..<8] @ 8 # [9..<(16 :: nat)]"
    using upt_add_eq_append [of 0 8 8] by (simp add: upt_conv_Cons [of 8])
  ultimately show ?thesis
    unfolding pilotExtract_def by (simp only: foreach_append foreach.simps Option.bind.simps option.map)
qed

theorem pilotExtract_overflows_witness:
  "pilotExtract (replicate 128 \<lparr>real_part = 1, imag_part = 2 :: int\<rparr>) (replicate PILOT_LEN 0) = None"
  by (rule pilotExtract_overflows) simp_all

section \<open>Cyclic prefix and conversions\<close>

lemma cyclicPrefix_eq:
  fixes x ob :: "'a list"
  assumes "p \<le> n" and "n \<le> length x" and "p + n \<le> length ob"
  shows "cyclicPrefix x ob (int n) (int p) = Some (drop (n - p) (take n x) @ take n x @ drop (p + n) ob)"
proof -
  let ?ob = "map (\<lambda>i. x ! (n - p + i)) [0..<p] @ drop p ob"
  have "foreach [0..<p] (\<lambda>i b. do { y \<leftarrow> rd x (nat (int n - int p + int i)); wr b i y }) ob = Some ?ob"
  proof (intro foreach_write_fun)
    fix i and b :: "'a list" assume i: "i < p" "length b = length ob"
    have "int n - int p + int i = int (n - p + i)" using assms(1) by simp
    then have "nat (int n - int p + int i) = n - p + i" by (simp only: nat_int)
    then show "(do { y \<leftarrow> rd x (nat (int n - int p + int i)); wr b i y }) = Some (b[i := x ! (n - p + i)])"
      using i assms by simp
  qed (use assms in simp)
  moreover have "foreach [0..<n] (\<lambda>i b. do { y \<leftarrow> rd x i; wr b (nat (int p + int i)) y }) ?ob
      = foreach [0..<n] (\<lambda>i b. wr b (p + i) (x ! i)) ?ob"
    using assms by (intro foreach_cong) (auto simp flip: of_nat_add)
  moreover have "\<dots> = Some (take p ?ob @ map (\<lambda>i. x ! i) [0..<n] @ drop (p + n) ?ob)"
    using assms by (intro foreach_write_at) simp
  moreover have "map (\<lambda>i. x ! (n - p + i)) [0..<p] = drop (n - p) (take n x)"
    using assms by (intro nth_equalityI) (auto simp: add.commute)
  ultimately show ?thesis
    using assms by (simp add: cyclicPrefix_def map_nth_take add.commute [of p n])
qed

text \<open>
  A sent symbol is its own last \<open>p\<close> samples followed by the symbol, so every window
  of \<open>n\<close> samples that starts inside the prefix is a rotation of the symbol.
\<close>

theorem cyclicPrefix_rotation:
  assumes "p \<le> n" and "n \<le> length x" and "p + n \<le> length ob"
  shows "\<exists>ob'. cyclicPrefix x ob (int n) (int p) = Some ob' \<and> length ob' = length ob \<and> drop (p + n) ob' = drop (p + n) ob \<and>
    (\<forall>k\<le>p. take n (drop k ob') = rotate (n - p + k) (take n x))"
proof -
  let ?x = "take n x"
  let ?ob = "drop (n - p) ?x @ ?x @ drop (p + n) ob"
  have len: "length ?x = n" using assms(2) by simp
  have "take n (drop k ?ob) = rotate (n - p + k) ?x" if k: "k \<le> p" for k
  proof (cases "k = p")
    case True
    then show ?thesis using len assms(1) by simp
  next
    case False
    with k have lt: "n - p + k < n" using assms(1) by simp
    have "take n (drop k ?ob) = drop (n - p + k) ?x @ take (n - p + k) ?x"
      using k len assms(1) by (simp add: add.commute)
    also have "\<dots> = rotate (n - p + k) ?x" using lt len by (simp add: rotate_drop_take)
    finally show ?thesis .
  qed
  then show ?thesis using cyclicPrefix_eq [OF assms] assms by auto
qed

theorem cyclicPrefix_rotation_witness:
  "\<exists>ob'. cyclicPrefix [1, 2, 3, 4 :: int] (replicate 7 0) (int 4) (int 2) = Some ob' \<and> length ob' = length (replicate 7 (0::int)) \<and>
    drop (2 + 4) ob' = drop (2 + 4) (replicate 7 0) \<and>
    (\<forall>k\<le>2. take 4 (drop k ob') = rotate (4 - 2 + k) (take 4 [1, 2, 3, 4]))"
  by (rule cyclicPrefix_rotation) simp_all

text \<open>Real and imaginary parts of \<open>n\<close> samples in sequence.\<close>

definition interleaved :: "'f comp_t list \<Rightarrow> 'f list" where
  "interleaved xs = concat (map (\<lambda>s. [real_part s, imag_part s]) xs)"

lemma complextofloat_eq:
  fixes xs :: "'a comp_t list"
  assumes "n \<le> length xs" and "2 * n \<le> length ob"
  shows "complextofloat (2 * int n) xs ob = Some (interleaved (take n xs) @ drop (2 * n) ob)"
proof -
  have "foreach [0..<n] (\<lambda>j obuf. do {
     let i = 2 * j;
     s \<leftarrow> rd xs j;
     obuf \<leftarrow> wr obuf i (real_part s);
     wr obuf (i + 1) (imag_part s) }) ob
    = Some (concat (map (\<lambda>j. [real_part (xs ! j), imag_part (xs ! j)]) [0..<n]) @ drop (2 * n) ob)"
  proof (rule foreach_blocks [OF assms(2)])
    fix k and b :: "'a list" assume "k < n" "length b = length ob"
    then have k: "k < length xs" "2 * k + 2 \<le> length b" using assms by simp_all
    from two_updates [OF k(2)]
    show "(do {
     let i = 2 * k;
     s \<leftarrow> rd xs k;
     obuf \<leftarrow> wr b i (real_part s);
     wr obuf (i + 1) (imag_part s) }) = Some (take (2 * k) b @ [real_part (xs ! k), imag_part (xs ! k)] @ drop (2 * k + 2) b)"
      using k by (simp add: Let_def)
  qed simp
  moreover have "map (\<lambda>j. [real_part (xs ! j), imag_part (xs ! j)]) [0..<n] = map (\<lambda>s. [real_part s, imag_part s]) (take n xs)"
    using assms(1) by (simp add: map_nth_take_comp [where h = "\<lambda>s. [real_part s, imag_part s]"])
  ultimately show ?thesis by (simp add: complextofloat_def interleaved_def nat_div_distrib)
qed


lemma interleaved_length [simp]: "length (interleaved xs) = 2 * length xs"
  by (simp add: interleaved_def length_concat comp_def sum_list_triv)

lemma interleaved_nth:
  "i < length xs \<Longrightarrow> interleaved xs ! (2 * i) = real_part (xs ! i) \<and> interleaved xs ! (2 * i + 1) = imag_part (xs ! i)"
proof (induction xs arbitrary: i)
  case (Cons x xs)
  then show ?case by (cases i) (auto simp: interleaved_def)
qed simp

text \<open>
  Writing samples out as numbers and reading them back gives the samples again.
\<close>

theorem floattocomplex_complextofloat:
  fixes xs ob' :: "'f comp_t list"
  assumes "n \<le> length xs" and "2 * n \<le> length ob" and "n \<le> length ob'"
  shows "Option.bind (complextofloat (2 * int n) xs ob) (\<lambda>f. floattocomplex (2 * int n) f ob') = Some (take n xs @ drop n ob')"
proof -
  let ?f = "interleaved (take n xs) @ drop (2 * n) ob"
  have "foreach [0..<n] (\<lambda>j obuf. do {
     let i = 2 * j;
     s \<leftarrow> rd obuf j;
     r \<leftarrow> rd ?f i;
     m \<leftarrow> rd ?f (i + 1);
     wr obuf j (s\<lparr>real_part := r, imag_part := m\<rparr>) }) ob' = Some (map (\<lambda>j. xs ! j) [0..<n] @ drop n ob')"
  proof (rule foreach_write_fun [OF assms(3)])
    fix i and b :: "'f comp_t list" assume i: "i < n" "length b = length ob'"
    have "rd ?f (2 * i) = Some (real_part (xs ! i))" "rd ?f (2 * i + 1) = Some (imag_part (xs ! i))"
      using i interleaved_nth [of i "take n xs"] assms(1) by (simp_all add: nth_append)
    then show "(do {
     let i' = 2 * i;
     s \<leftarrow> rd b i;
     r \<leftarrow> rd ?f i';
     m \<leftarrow> rd ?f (i' + 1);
     wr b i (s\<lparr>real_part := r, imag_part := m\<rparr>) }) = Some (b[i := xs ! i])"
      using i assms(3) by (simp add: Let_def)
  qed
  then show ?thesis
    using complextofloat_eq [OF assms(1,2)] assms(1) by (simp add: floattocomplex_def map_nth_take)
qed

theorem floattocomplex_complextofloat_witness:
  "Option.bind (complextofloat (2 * int 1) [\<lparr>real_part = 1, imag_part = 2\<rparr>, \<lparr>real_part = 3, imag_part = 4\<rparr>] [0, 0 :: int])
     (\<lambda>f. floattocomplex (2 * int 1) f [\<lparr>real_part = 0, imag_part = 0\<rparr>]) = Some [\<lparr>real_part = 1, imag_part = 2\<rparr>]"
  using floattocomplex_complextofloat [of 1 "[\<lparr>real_part = 1, imag_part = 2\<rparr>, \<lparr>real_part = 3, imag_part = 4\<rparr>]" "[0, 0 :: int]"
      "[\<lparr>real_part = 0, imag_part = 0\<rparr>]"] by simp

end
