(* ===== verification/Qpsk.thy ===== *)
theory Qpsk
  imports Complex_Main Wifi_Common
begin

text \<open>
  \<^verbatim>\<open>qpsk_Mod_Demod.c\<close> (\<^verbatim>\<open>SOFTINPUT\<close> undefined). A floating-point operation is the exact
  operation on real numbers followed by a rounding function; the two rounding functions, to
  double and to float, are the parameter \<open>F\<close> of the definitions. What the lemmas need of
  them is the locale \<open>rounding\<close>, and \<open>ieee\<close> is an instance that rounds to 53 and 24
  significant bits.
\<close>

section \<open>Floating-point arithmetic\<close>

record fp =
  dbl :: "real \<Rightarrow> real"
  flt :: "real \<Rightarrow> real"

definition rounds_well :: "(real \<Rightarrow> real) \<Rightarrow> bool" where
  "rounds_well r \<longleftrightarrow> (\<forall>x. \<bar>r x - x\<bar> \<le> (\<bar>x\<bar> + 1) / 1000000)"

locale rounding =
  fixes F :: fp
  assumes dbl_ok: "rounds_well (dbl F)" and flt_ok: "rounds_well (flt F)"

text \<open>Rounding to \<open>p\<close> significant bits, ties upwards.\<close>

definition round_sig :: "int \<Rightarrow> real \<Rightarrow> real" where
  "round_sig p x = (if x = 0 then 0
     else let s = 2 powr (of_int (p - 1 - \<lfloor>log 2 \<bar>x\<bar>\<rfloor>)) in of_int (round (x * s)) / s)"

definition ieee :: fp where
  "ieee = \<lparr>dbl = round_sig 53, flt = round_sig 24\<rparr>"

lemma round_sig_error:
  assumes "24 \<le> p"
  shows "\<bar>round_sig p x - x\<bar> \<le> (\<bar>x\<bar> + 1) / 1000000"
proof (cases "x = 0")
  case True
  then show ?thesis by (simp add: round_sig_def)
next
  case False
  define e where "e = \<lfloor>log 2 \<bar>x\<bar>\<rfloor>"
  define s :: real where "s = 2 powr (of_int (p - 1 - e))"
  have s: "0 < s" by (simp add: s_def)
  have "of_int e \<le> log 2 \<bar>x\<bar>" by (simp add: e_def)
  then have "2 powr of_int e \<le> \<bar>x\<bar>" using False by (simp add: le_log_iff)
  moreover have "2 powr (of_int e) * s = 2 powr (of_int (p - 1))"
    by (simp add: s_def powr_add [symmetric])
  moreover have "(2 :: real) powr of_int 23 \<le> 2 powr of_int (p - 1)" using assms by (intro powr_mono) simp_all
  ultimately have "2 ^ 23 \<le> \<bar>x\<bar> * s"
    using mult_right_mono [of "2 powr of_int e" "\<bar>x\<bar>" s] s by (simp add: powr_realpow [of 2 23, simplified])
  have "round_sig p x = of_int (round (x * s)) / s"
    using False unfolding round_sig_def Let_def e_def [symmetric] s_def [symmetric] by simp
  then have "round_sig p x - x = (of_int (round (x * s)) - x * s) / s"
    using s by (simp add: diff_divide_distrib)
  then have "\<bar>round_sig p x - x\<bar> = \<bar>of_int (round (x * s)) - x * s\<bar> / s" using s by simp
  also have "\<dots> \<le> (1 / 2) / s" using s of_int_round_abs_le [of "x * s"] by (intro divide_right_mono) simp_all
  also have "\<dots> \<le> \<bar>x\<bar> / 1000000"
    using \<open>2 ^ 23 \<le> \<bar>x\<bar> * s\<close> s by (simp add: field_simps)
  also have "\<dots> \<le> (\<bar>x\<bar> + 1) / 1000000" by (simp add: field_simps)
  finally show ?thesis .
qed

lemma round_sig_well: "24 \<le> p \<Longrightarrow> rounds_well (round_sig p)"
  unfolding rounds_well_def using round_sig_error by blast

interpretation ieee_rounding: rounding ieee
  by unfold_locales (simp_all add: ieee_def round_sig_well)

section \<open>Modulation\<close>

definition PM1 :: "fp \<Rightarrow> real" where "PM1 F = dbl F (dbl F (sqrt 2) / 2)"

definition PM2 :: "fp \<Rightarrow> real" where "PM2 F = dbl F (- dbl F (sqrt 2) / 2)"

text \<open>The first loop: two bits to a number; \<open>None\<close> in a cell is the indeterminate initial value.\<close>

definition dec_num :: "nat \<Rightarrow> u8 list \<Rightarrow> nat option list option" where
  "dec_num bitlen bitstream = foreach [0..<(bitlen + 1) div 2] (\<lambda>i dn. do {
     let j = 2 * i;
     b0 \<leftarrow> rd bitstream j;
     if b0 = 0 \<or> b0 = 1 then do {
       b1 \<leftarrow> rd bitstream (j + 1);
       if b0 = 0 \<and> b1 = 0 then wr dn i (Some 0)
       else if b0 = 0 \<and> b1 = 1 then wr dn i (Some 1)
       else if b0 = 1 \<and> b1 = 0 then wr dn i (Some 2)
       else if b0 = 1 \<and> b1 = 1 then wr dn i (Some 3)
       else Some dn }
     else Some dn }) (replicate (bitlen div 2) None)"

definition MOD_QPSK :: "fp \<Rightarrow> int \<Rightarrow> u8 list \<Rightarrow> real list \<Rightarrow> real list \<Rightarrow> real list
    \<Rightarrow> (real list \<times> real list \<times> real list) option" where
  "MOD_QPSK F bitlen bitstream QPSK_real QPSK_img obuf = do {
     let n = nat bitlen;
     Dec_Num \<leftarrow> dec_num n bitstream;
     (re, im) \<leftarrow> foreach [0..<n div 2] (\<lambda>i (re, im). do {
         cell \<leftarrow> rd Dec_Num i;
         d \<leftarrow> cell;
         re \<leftarrow> wr re i (if d = 0 \<or> d = 1 then PM2 F else PM1 F);
         im \<leftarrow> wr im i (if d = 0 \<or> d = 3 then PM2 F else PM1 F);
         Some (re, im) }) (QPSK_real, QPSK_img);
     obuf \<leftarrow> foreach [0..<(n + 1) div 2] (\<lambda>j obuf. do {
         let i = 2 * j;
         r \<leftarrow> rd re j;
         obuf \<leftarrow> wr obuf i (flt F r);
         m \<leftarrow> rd im j;
         wr obuf (i + 1) (flt F m) }) obuf;
     Some (re, im, obuf) }"

section \<open>Demodulation\<close>

definition distance :: "fp \<Rightarrow> real \<Rightarrow> real \<Rightarrow> real \<Rightarrow> real \<Rightarrow> real" where
  "distance F x y a b =
     dbl F (sqrt (dbl F (dbl F ((dbl F (x - a))\<^sup>2) + dbl F ((dbl F (y - b))\<^sup>2))))"

definition distances :: "fp \<Rightarrow> real \<Rightarrow> real \<Rightarrow> real list" where
  "distances F x y =
     [distance F x y (PM2 F) (PM2 F), distance F x y (PM2 F) (PM1 F),
      distance F x y (PM1 F) (PM1 F), distance F x y (PM1 F) (PM2 F)]"

text \<open>The search for the smallest distance; \<open>loc\<close> is the function's variable of that name.\<close>

definition smallest :: "real list \<Rightarrow> nat \<Rightarrow> nat" where
  "smallest d loc = snd (fold (\<lambda>j (small, loc). if d ! j \<le> small then (d ! j, j) else (small, loc)) [0..<4] (d ! 0, loc))"

definition put_pair :: "s8 list \<Rightarrow> nat \<Rightarrow> s8 \<Rightarrow> s8 \<Rightarrow> s8 list option" where
  "put_pair out m a b = do { out \<leftarrow> wr out m a; wr out (m + 1) b }"

text \<open>
  The last loop runs for \<open>m = 2 * n\<close> too and then reads \<^verbatim>\<open>dec_bit[n]\<close>, the byte behind the
  array: the parameter \<open>stray\<close>.
\<close>

definition DeMOD_QPSK :: "fp \<Rightarrow> u8 \<Rightarrow> int \<Rightarrow> real comp_t list \<Rightarrow> s8 list \<Rightarrow> s8 list option" where
  "DeMOD_QPSK F stray n ibuf out = do {
     (loc, dec_bit) \<leftarrow> foreach [0..<nat n] (\<lambda>i (loc, dec_bit). do {
         s \<leftarrow> rd ibuf i;
         let d = distances F (real_part s) (imag_part s);
         let loc = smallest d loc;
         dec_bit \<leftarrow> (if loc < 4 then wr dec_bit i (of_nat loc) else Some dec_bit);
         Some (loc, dec_bit) }) (0, replicate (nat n) (0 :: u8));
     foreach [0..<nat n + 1] (\<lambda>j out. do {
         let m = 2 * j;
         let b = (if j < length dec_bit then dec_bit ! j else stray);
         if b = 0 then put_pair out m 0 0
         else if b = 1 then put_pair out m 0 1
         else if b = 2 then put_pair out m 1 0
         else if b = 3 then put_pair out m 1 1
         else Some out }) out }"


section \<open>Distances survive the rounding\<close>

context rounding
begin

lemma dbl_close: "\<bar>dbl F v - v\<bar> \<le> (\<bar>v\<bar> + 1) / 1000000"
  using dbl_ok unfolding rounds_well_def by blast

lemma flt_close: "\<bar>flt F v - v\<bar> \<le> (\<bar>v\<bar> + 1) / 1000000"
  using flt_ok unfolding rounds_well_def by blast

lemma dbl_bounds:
  assumes "- h \<le> v" and "v \<le> h"
  shows "dbl F v \<le> v + (h + 1) / 1000000" and "v - (h + 1) / 1000000 \<le> dbl F v"
  using dbl_close [of v] assms by (auto simp: abs_if field_simps split: if_splits)

lemma dbl_pos:
  assumes "0 \<le> l" and "l \<le> v"
  shows "l - (l + 1) / 1000000 \<le> dbl F v"
  using dbl_close [of v] assms by (auto simp: abs_if field_simps split: if_splits)

lemma dbl_neg:
  assumes "0 \<le> l" and "v \<le> - l"
  shows "dbl F v \<le> - (l - (l + 1) / 1000000)"
  using dbl_close [of v] assms by (auto simp: abs_if field_simps split: if_splits)

lemma sqrt_2: "(141421 / 100000) \<le> sqrt 2" "sqrt 2 \<le> (141422 / 100000)"
proof -
  show "(141421 / 100000) \<le> sqrt 2" by (rule real_le_rsqrt) (simp add: power2_eq_square)
  show "sqrt 2 \<le> (141422 / 100000)" by (rule real_le_lsqrt) (simp_all add: power2_eq_square)
qed

lemma PM_bounds: "(7071 / 10000) \<le> PM1 F" "PM1 F \<le> (70713 / 100000)" "- (70713 / 100000) \<le> PM2 F" "PM2 F \<le> - (7071 / 10000)"
proof -
  have s: "(1414204 / 1000000) \<le> dbl F (sqrt 2)" "dbl F (sqrt 2) \<le> (1414226 / 1000000)"
    using sqrt_2 dbl_bounds [of 2 "sqrt 2"] by simp_all
  then show "(7071 / 10000) \<le> PM1 F" "PM1 F \<le> (70713 / 100000)" "- (70713 / 100000) \<le> PM2 F" "PM2 F \<le> - (7071 / 10000)"
    using dbl_bounds [of 1 "dbl F (sqrt 2) / 2"] dbl_bounds [of 1 "- dbl F (sqrt 2) / 2"]
    unfolding PM1_def PM2_def by simp_all
qed

lemma square_near:
  assumes "\<bar>v - c\<bar> \<le> (3 / 10)"
  shows "dbl F ((dbl F (v - c))\<^sup>2) \<le> (902 / 10000)" and "- (1 / 100000) \<le> dbl F ((dbl F (v - c))\<^sup>2)"
proof -
  have "- (3 / 10) \<le> v - c" "v - c \<le> (3 / 10)" using assms unfolding abs_le_iff by linarith+
  from dbl_bounds [OF this] this have "\<bar>dbl F (v - c)\<bar> \<le> (30001 / 100000)"
    unfolding abs_le_iff by simp
  then have "\<bar>dbl F (v - c)\<bar>\<^sup>2 \<le> (30001 / 100000)\<^sup>2" by (intro power_mono) simp_all
  then have "(dbl F (v - c))\<^sup>2 \<le> (9001 / 100000)" by (simp add: power2_eq_square)
  moreover have "- 1 \<le> (dbl F (v - c))\<^sup>2" by (rule order_trans [of _ 0]) simp_all
  ultimately show "dbl F ((dbl F (v - c))\<^sup>2) \<le> (902 / 10000)"
    using dbl_bounds(1) [of 1 "(dbl F (v - c))\<^sup>2"] by simp
  show "- (1 / 100000) \<le> dbl F ((dbl F (v - c))\<^sup>2)" using dbl_pos [of 0 "(dbl F (v - c))\<^sup>2"] by simp
qed

lemma square_far:
  assumes "(11 / 10) \<le> \<bar>v - c\<bar>"
  shows "(118 / 100) \<le> dbl F ((dbl F (v - c))\<^sup>2)"
proof -
  have "(1099 / 1000) \<le> \<bar>dbl F (v - c)\<bar>"
    using dbl_pos [of "(11 / 10)" "v - c"] dbl_neg [of "(11 / 10)" "v - c"] assms by (auto simp: abs_if split: if_splits)
  then have "(1099 / 1000)\<^sup>2 \<le> \<bar>dbl F (v - c)\<bar>\<^sup>2" by (intro power_mono) simp_all
  then have "(12 / 10) \<le> (dbl F (v - c))\<^sup>2" by (simp add: power2_eq_square)
  then show ?thesis using dbl_pos [of "(12 / 10)" "(dbl F (v - c))\<^sup>2"] by simp
qed

lemma square_low: "- (1 / 100000) \<le> dbl F (v\<^sup>2)"
  using dbl_pos [of 0 "v\<^sup>2"] by simp

lemma distance_near:
  assumes "\<bar>x - a\<bar> \<le> (3 / 10)" and "\<bar>y - b\<bar> \<le> (3 / 10)"
  shows "distance F x y a b \<le> (5 / 10)"
proof -
  let ?s = "dbl F ((dbl F (x - a))\<^sup>2) + dbl F ((dbl F (y - b))\<^sup>2)"
  have s: "?s \<le> (1804 / 10000)" "- (2 / 100000) \<le> ?s"
    using square_near [OF assms(1)] square_near [OF assms(2)] by simp_all
  then have d: "dbl F ?s \<le> (2 / 10)" "- (2 / 10) \<le> dbl F ?s" using dbl_bounds [of 1 ?s] by simp_all
  have "sqrt (2 / 10) \<le> ((45 / 100) :: real)" by (rule real_le_lsqrt) (simp_all add: power2_eq_square)
  moreover have "sqrt (dbl F ?s) \<le> sqrt (2 / 10)" "sqrt (- (2 / 10)) \<le> sqrt (dbl F ?s)" using d by (simp_all only: real_sqrt_le_iff)
  moreover have "sqrt (- (2 / 10)) = - sqrt ((2 / 10) :: real)" by (rule real_sqrt_minus)
  ultimately have "sqrt (dbl F ?s) \<le> (45 / 100)" "- (45 / 100) \<le> sqrt (dbl F ?s)" by linarith+
  from dbl_bounds(1) [OF this(2,1)] this show ?thesis unfolding distance_def by simp
qed

lemma distance_far:
  assumes "(11 / 10) \<le> \<bar>x - a\<bar> \<or> (11 / 10) \<le> \<bar>y - b\<bar>"
  shows "1 \<le> distance F x y a b"
proof -
  let ?s = "dbl F ((dbl F (x - a))\<^sup>2) + dbl F ((dbl F (y - b))\<^sup>2)"
  have "(117 / 100) \<le> ?s"
    using assms square_far [of x a] square_far [of y b] square_low [of "dbl F (x - a)"] square_low [of "dbl F (y - b)"]
    by fastforce
  then have "(116 / 100) \<le> dbl F ?s" using dbl_pos [of "(117 / 100)" ?s] by simp
  then have "sqrt (116 / 100) \<le> sqrt (dbl F ?s)" by (simp only: real_sqrt_le_iff)
  moreover have "(107 / 100) \<le> sqrt ((116 / 100) :: real)" by (rule real_le_rsqrt) (simp add: power2_eq_square)
  ultimately have "(107 / 100) \<le> sqrt (dbl F ?s)" by linarith
  then show ?thesis unfolding distance_def using dbl_pos [of "(107 / 100)" "sqrt (dbl F ?s)"] by simp
qed

end

section \<open>Decisions\<close>

definition symbol :: "fp \<Rightarrow> nat \<Rightarrow> real \<times> real" where
  "symbol F k = (if k = 0 \<or> k = 1 then PM2 F else PM1 F, if k = 0 \<or> k = 3 then PM2 F else PM1 F)"

definition decide :: "fp \<Rightarrow> real comp_t \<Rightarrow> nat" where
  "decide F s = smallest (distances F (real_part s) (imag_part s)) 0"

text \<open>The two bits of a symbol number, in the type of the demodulator's output.\<close>

definition bit_pair :: "nat \<Rightarrow> s8 list" where
  "bit_pair k = [of_nat (k div 2), of_nat (k mod 2)]"

lemma upt_4: "[0..<4] = [0, 1, 2, 3 :: nat]"
  by (simp add: eval_nat_numeral)

lemma smallest_loc: "smallest d loc = smallest d 0"
  by (simp add: smallest_def upt_4)

lemma smallest_less: "smallest d loc < 4"
  by (simp add: smallest_def upt_4)

lemma less_4_cases: "k < 4 \<Longrightarrow> k = 0 \<or> k = 1 \<or> k = 2 \<or> k = (3 :: nat)"
  by linarith

lemma smallest_unique:
  assumes "k < 4" and "\<And>j. j < 4 \<Longrightarrow> j \<noteq> k \<Longrightarrow> d ! k < d ! j"
  shows "smallest d 0 = k"
  using less_4_cases [OF assms(1)] assms(2) [of 0] assms(2) [of 1] assms(2) [of 2] assms(2) [of 3]
  by (auto simp: smallest_def upt_4)

lemma distances_nth: "j < 4 \<Longrightarrow> distances F x y ! j = distance F x y (fst (symbol F j)) (snd (symbol F j))"
  using less_4_cases [of j] by (auto simp: distances_def symbol_def)

context rounding
begin

lemma symbols_apart:
  assumes "j < 4" and "k < 4" and "j \<noteq> k"
  shows "14142 / 10000 \<le> \<bar>fst (symbol F k) - fst (symbol F j)\<bar> \<or> 14142 / 10000 \<le> \<bar>snd (symbol F k) - snd (symbol F j)\<bar>"
  using less_4_cases [OF assms(1)] less_4_cases [OF assms(2)] assms(3) PM_bounds
  by (elim disjE) (simp_all add: symbol_def)

lemma decide_near:
  assumes k: "k < 4" and x: "\<bar>real_part s - fst (symbol F k)\<bar> \<le> 3 / 10" and y: "\<bar>imag_part s - snd (symbol F k)\<bar> \<le> 3 / 10"
  shows "decide F s = k"
  unfolding decide_def
proof (rule smallest_unique [OF k])
  fix j :: nat assume j: "j < 4" "j \<noteq> k"
  have "distances F (real_part s) (imag_part s) ! k \<le> 1 / 2"
    unfolding distances_nth [OF k] using distance_near [OF x y] by simp
  moreover have far: "11 / 10 \<le> \<bar>v - b\<bar>" if "14142 / 10000 \<le> \<bar>a - b\<bar>" "\<bar>v - a\<bar> \<le> 3 / 10" for v a b :: real
    using that by (auto simp: abs_if split: if_splits)
  have "1 \<le> distances F (real_part s) (imag_part s) ! j"
    unfolding distances_nth [OF j(1)]
    using symbols_apart [OF j(1) k j(2)] far [OF _ x] far [OF _ y] by (intro distance_far) blast
  ultimately show "distances F (real_part s) (imag_part s) ! k < distances F (real_part s) (imag_part s) ! j" by simp
qed

lemma flt_small: "\<bar>v\<bar> \<le> 1 \<Longrightarrow> \<bar>flt F v - v\<bar> \<le> 1 / 100"
  by (rule order_trans [OF flt_close]) simp

lemma flt_symbol: "\<bar>flt F (fst (symbol F k)) - fst (symbol F k)\<bar> \<le> 1 / 100" "\<bar>flt F (snd (symbol F k)) - snd (symbol F k)\<bar> \<le> 1 / 100"
  using PM_bounds flt_small [of "PM1 F"] flt_small [of "PM2 F"] by (simp_all add: symbol_def)

end

section \<open>The two functions\<close>

text \<open>Symbol number \<open>i\<close> of a bit stream.\<close>

definition sym_num :: "u8 list \<Rightarrow> nat \<Rightarrow> nat" where
  "sym_num bs i = 2 * unat (bs ! (2 * i)) + unat (bs ! (2 * i + 1))"

lemma sym_num_less: "is_bits bs \<Longrightarrow> 2 * i + 1 < length bs \<Longrightarrow> sym_num bs i < 4"
  using is_bits_nth [of bs "2 * i"] is_bits_nth [of bs "2 * i + 1"] by (auto simp: sym_num_def)

lemma bit_pair_sym_num:
  assumes "is_bits bs" and "2 * i + 1 < length bs"
  shows "bit_pair (sym_num bs i) = [bs ! (2 * i), bs ! (2 * i + 1)]"
  using is_bits_nth [OF assms(1), of "2 * i"] is_bits_nth [OF assms] assms(2)
  by (elim disjE; auto simp: sym_num_def bit_pair_def)

lemma dec_num_eq:
  assumes "is_bits bs" and "2 * n \<le> length bs"
  shows "dec_num (2 * n) bs = Some (map (\<lambda>i. Some (sym_num bs i)) [0..<n])"
proof -
  have n: "(2 * n + 1) div 2 = n" "2 * n div 2 = n" by simp_all
  have "dec_num (2 * n) bs = Some (map (\<lambda>i. Some (sym_num bs i)) [0..<n] @ drop n (replicate n None))"
    unfolding dec_num_def n
  proof (rule foreach_write_fun)
    fix i and b :: "nat option list" assume i: "i < n" "length b = length (replicate n (None :: nat option))"
    then have ix: "2 * i < length bs" "2 * i + 1 < length bs" using assms(2) by simp_all
    show "(do {
     let j = 2 * i;
     b0 \<leftarrow> rd bs j;
     if b0 = 0 \<or> b0 = 1 then do {
       b1 \<leftarrow> rd bs (j + 1);
       if b0 = 0 \<and> b1 = 0 then wr b i (Some 0)
       else if b0 = 0 \<and> b1 = 1 then wr b i (Some 1)
       else if b0 = 1 \<and> b1 = 0 then wr b i (Some 2)
       else if b0 = 1 \<and> b1 = 1 then wr b i (Some 3)
       else Some b }
     else Some b }) = Some (b[i := Some (sym_num bs i)])"
      using is_bits_nth [OF assms(1) ix(1)] is_bits_nth [OF assms(1) ix(2)] i ix
      by (elim disjE; simp add: Let_def sym_num_def)
  qed simp
  then show ?thesis by simp
qed

text \<open>The numbers \<open>MOD_QPSK\<close> puts into the float buffer, two for every symbol.\<close>

definition modulated :: "fp \<Rightarrow> u8 list \<Rightarrow> nat \<Rightarrow> real list" where
  "modulated F bs n = concat (map (\<lambda>i. [flt F (fst (symbol F (sym_num bs i))), flt F (snd (symbol F (sym_num bs i)))]) [0..<n])"

lemma modulated_length [simp]: "length (modulated F bs n) = 2 * n"
  unfolding modulated_def by (rule length_concat_blocks) simp

lemma modulated_nth:
  "i < n \<Longrightarrow> modulated F bs n ! (2 * i) = flt F (fst (symbol F (sym_num bs i))) \<and>
    modulated F bs n ! (2 * i + 1) = flt F (snd (symbol F (sym_num bs i)))"
proof (induction n)
  case (Suc n)
  have "modulated F bs (Suc n) = modulated F bs n @ [flt F (fst (symbol F (sym_num bs n))), flt F (snd (symbol F (sym_num bs n)))]"
    by (simp add: modulated_def)
  with Suc show ?case by (cases "i = n") (simp_all add: nth_append)
qed simp

lemma MOD_QPSK_eq:
  assumes "is_bits bs" and "2 * n \<le> length bs" and "n \<le> length re" and "n \<le> length im" and "2 * n \<le> length ob"
  shows "MOD_QPSK F (2 * int n) bs re im ob =
    Some (map (\<lambda>i. fst (symbol F (sym_num bs i))) [0..<n] @ drop n re,
          map (\<lambda>i. snd (symbol F (sym_num bs i))) [0..<n] @ drop n im, modulated F bs n @ drop (2 * n) ob)"
proof -
  let ?re = "\<lambda>n. map (\<lambda>i. fst (symbol F (sym_num bs i))) [0..<n] @ drop n re"
  let ?im = "\<lambda>n. map (\<lambda>i. snd (symbol F (sym_num bs i))) [0..<n] @ drop n im"
  let ?dn = "map (\<lambda>i. Some (sym_num bs i)) [0..<n]"
  have loop: "foreach [0..<m] (\<lambda>i (re, im). do {
         cell \<leftarrow> rd ?dn i;
         d \<leftarrow> cell;
         re \<leftarrow> wr re i (if d = 0 \<or> d = 1 then PM2 F else PM1 F);
         im \<leftarrow> wr im i (if d = 0 \<or> d = 3 then PM2 F else PM1 F);
         Some (re, im) }) (re, im) = Some (?re m, ?im m)" if "m \<le> n" for m
    using that
  proof (induction m)
    case 0
    then show ?case by simp
  next
    case (Suc m)
    then have "drop m re = re ! m # drop (Suc m) re" "drop m im = im ! m # drop (Suc m) im"
      using assms(3,4) by (simp_all add: Cons_nth_drop_Suc)
    with Suc show ?case by (simp add: list_update_append symbol_def)
  qed
  have out: "foreach [0..<n] (\<lambda>j obuf. do {
         let i = 2 * j;
         r \<leftarrow> rd (?re n) j;
         obuf \<leftarrow> wr obuf i (flt F r);
         m \<leftarrow> rd (?im n) j;
         wr obuf (i + 1) (flt F m) }) ob = Some (modulated F bs n @ drop (2 * n) ob)"
    unfolding modulated_def
  proof (rule foreach_blocks [OF assms(5)])
    fix k and b :: "real list" assume k: "k < n" "length b = length ob"
    then have "2 * k + 2 \<le> length b" using assms(5) by simp
    from two_updates [OF this] this k
    show "(do {
         let i = 2 * k;
         r \<leftarrow> rd (?re n) k;
         obuf \<leftarrow> wr b i (flt F r);
         m \<leftarrow> rd (?im n) k;
         wr obuf (i + 1) (flt F m) }) = Some (take (2 * k) b @
           [flt F (fst (symbol F (sym_num bs k))), flt F (snd (symbol F (sym_num bs k)))] @ drop (2 * k + 2) b)"
      by (simp add: Let_def nth_append)
  qed simp
  have n: "nat (2 * int n) = 2 * n" "(2 * n + 1) div 2 = n" "2 * n div 2 = n" by simp_all
  show ?thesis
    unfolding MOD_QPSK_def Let_def n dec_num_eq [OF assms(1,2)] Option.bind.simps loop [OF order_refl]
    using out by (simp add: Let_def)
qed


definition demod_pair :: "nat \<Rightarrow> nat \<Rightarrow> s8 list \<Rightarrow> s8 list option" where
  "demod_pair j b out = (if b < 4 then wr out (2 * j) (of_nat (b div 2)) \<bind> (\<lambda>out. wr out (2 * j + 1) (of_nat (b mod 2))) else Some out)"

lemma demod_pair_eq:
  "(if b = 0 then put_pair out (2 * j) 0 0
    else if b = 1 then put_pair out (2 * j) 0 1
    else if b = 2 then put_pair out (2 * j) 1 0
    else if b = 3 then put_pair out (2 * j) 1 1
    else Some out) = demod_pair j (unat (b :: u8)) out"
proof (cases "unat b < 4")
  case True
  then have "b = of_nat (unat b)" "unat b = 0 \<or> unat b = 1 \<or> unat b = 2 \<or> unat b = 3"
    using less_4_cases by simp_all
  then show ?thesis by (elim disjE) (auto simp: demod_pair_def put_pair_def unat_eq_zero)
next
  case False
  then have "b \<noteq> 0" "b \<noteq> 1" "b \<noteq> 2" "b \<noteq> 3" by auto
  then show ?thesis using False by (simp add: demod_pair_def)
qed

lemma demod_symbols:
  assumes "n \<le> length ib" and "n \<le> length db"
  shows "\<exists>loc. foreach [0..<n] (\<lambda>i (loc, dec_bit). do {
         s \<leftarrow> rd ib i;
         let d = distances F (real_part s) (imag_part s);
         let loc = smallest d loc;
         dec_bit \<leftarrow> (if loc < 4 then wr dec_bit i (of_nat loc) else Some dec_bit);
         Some (loc, dec_bit) }) (0, db)
     = Some (loc, map (\<lambda>i. of_nat (decide F (ib ! i))) [0..<n] @ drop n (db :: u8 list))"
  using assms
proof (induction n)
  case 0
  then show ?case by simp
next
  case (Suc n)
  then obtain loc where loc: "foreach [0..<n] (\<lambda>i (loc, dec_bit). do {
         s \<leftarrow> rd ib i;
         let d = distances F (real_part s) (imag_part s);
         let loc = smallest d loc;
         dec_bit \<leftarrow> (if loc < 4 then wr dec_bit i (of_nat loc) else Some dec_bit);
         Some (loc, dec_bit) }) (0, db)
     = Some (loc, map (\<lambda>i. of_nat (decide F (ib ! i))) [0..<n] @ drop n db)" by auto
  have "drop n db = db ! n # drop (Suc n) db" using Suc.prems by (simp add: Cons_nth_drop_Suc)
  moreover have "smallest (distances F (real_part (ib ! n)) (imag_part (ib ! n))) loc = decide F (ib ! n)"
    unfolding decide_def by (rule smallest_loc)
  moreover have "decide F (ib ! n) < 4" by (simp add: decide_def smallest_less)
  ultimately show ?case using loc Suc.prems
    by (intro exI [of _ "decide F (ib ! n)"]) (simp add: list_update_append Let_def)
qed

text \<open>
  The bits of the decided symbols, then the two cells behind them as the stray byte leaves
  them.
\<close>

lemma DeMOD_QPSK_split:
  assumes "n \<le> length ib" and "2 * n \<le> length out"
  shows "DeMOD_QPSK F stray (int n) ib out =
    demod_pair n (unat stray) (concat (map (\<lambda>s. bit_pair (decide F s)) (take n ib)) @ drop (2 * n) out)"
proof -
  obtain loc where loc: "foreach [0..<n] (\<lambda>i (loc, dec_bit). do {
         s \<leftarrow> rd ib i;
         let d = distances F (real_part s) (imag_part s);
         let loc = smallest d loc;
         dec_bit \<leftarrow> (if loc < 4 then wr dec_bit i (of_nat loc) else Some dec_bit);
         Some (loc, dec_bit) }) (0, replicate n (0 :: u8))
     = Some (loc, map (\<lambda>i. of_nat (decide F (ib ! i))) [0..<n])"
    using demod_symbols [OF assms(1), of "replicate n 0" F] by auto
  have d4: "decide F s < 4" for s by (simp add: decide_def smallest_less)
  have u: "unat (of_nat (decide F s) :: u8) = decide F s" for s
  proof -
    have "decide F s < 256" using d4 [of s] by simp
    then show ?thesis by (simp add: unat_of_nat)
  qed
  have pairs: "foreach [0..<n] (\<lambda>j out. demod_pair j (decide F (ib ! j)) out) out
      = Some (concat (map (\<lambda>j. bit_pair (decide F (ib ! j))) [0..<n]) @ drop (2 * n) out)"
  proof (rule foreach_blocks [OF assms(2)])
    fix k and b :: "s8 list" assume k: "k < n" "length b = length out"
    then have "2 * k + 2 \<le> length b" using assms(2) by simp
    from two_updates [OF this] this d4 [of "ib ! k"]
    show "demod_pair k (decide F (ib ! k)) b = Some (take (2 * k) b @ bit_pair (decide F (ib ! k)) @ drop (2 * k + 2) b)"
      by (simp add: demod_pair_def bit_pair_def)
  qed (simp add: bit_pair_def)
  have "map (\<lambda>j. bit_pair (decide F (ib ! j))) [0..<n] = map (\<lambda>s. bit_pair (decide F s)) (take n ib)"
    using assms(1) by (rule map_nth_take_comp)
  moreover have "foreach [0..<n] (\<lambda>j out. demod_pair j (unat (if j < n then map (\<lambda>i. of_nat (decide F (ib ! i))) [0..<n] ! j else stray)) out) out
      = foreach [0..<n] (\<lambda>j out. demod_pair j (decide F (ib ! j)) out) out"
    by (rule foreach_cong) (simp_all add: u)
  ultimately show ?thesis
    using loc pairs by (simp add: DeMOD_QPSK_def Let_def demod_pair_eq)
qed

lemma DeMOD_QPSK_bits:
  assumes "n \<le> length ib" and "2 * n + 2 \<le> length out"
  shows "\<exists>out'. DeMOD_QPSK F stray (int n) ib out = Some out' \<and> length out' = length out \<and>
    take (2 * n) out' = concat (map (\<lambda>s. bit_pair (decide F s)) (take n ib)) \<and> drop (2 * n + 2) out' = drop (2 * n + 2) out"
proof -
  let ?b = "concat (map (\<lambda>s. bit_pair (decide F s)) (take n ib))"
  have len: "length ?b = 2 * n" using assms(1) by (simp add: length_concat comp_def bit_pair_def sum_list_triv)
  have "2 * n \<le> length out" using assms(2) by simp
  from DeMOD_QPSK_split [OF assms(1) this, of F stray] show ?thesis
    using len assms(2) by (simp add: demod_pair_def)
qed

section \<open>Properties\<close>

text \<open>A received sample within \<open>d\<close> of sample \<open>i\<close> of a buffer of real and imaginary parts.\<close>

definition sample_near :: "real \<Rightarrow> real list \<Rightarrow> nat \<Rightarrow> real comp_t \<Rightarrow> bool" where
  "sample_near d tx i s \<longleftrightarrow> \<bar>real_part s - tx ! (2 * i)\<bar> \<le> d \<and> \<bar>imag_part s - tx ! (2 * i + 1)\<bar> \<le> d"

lemma take_pairs: "2 * n \<le> length bs \<Longrightarrow> take (2 * n) bs = concat (map (\<lambda>i. [bs ! (2 * i), bs ! (2 * i + 1)]) [0..<n])"
proof (induction n)
  case (Suc n)
  then have "take (2 * Suc n) bs = take (2 * n) bs @ [bs ! (2 * n), bs ! (2 * n + 1)]"
    by (simp add: take_Suc_conv_app_nth)
  with Suc show ?case by simp
qed simp

lemma DeMOD_QPSK_near:
  assumes "rounding F" and "is_bits bs" and "2 * n \<le> length bs" and "n \<le> length rx" and "2 * n + 2 \<le> length out"
    and near: "\<And>i. i < n \<Longrightarrow> sample_near (28 / 100) (modulated F bs n @ z) i (rx ! i)"
  shows "\<exists>out'. DeMOD_QPSK F stray (int n) rx out = Some out' \<and> length out' = length out \<and>
    take (2 * n) out' = take (2 * n) bs \<and> drop (2 * n + 2) out' = drop (2 * n + 2) out"
proof -
  have dec: "decide F (rx ! i) = sym_num bs i" if i: "i < n" for i
  proof (rule rounding.decide_near [OF assms(1)])
    show "sym_num bs i < 4" using sym_num_less [OF assms(2)] assms(3) i by simp
    have "(modulated F bs n @ z) ! (2 * i) = flt F (fst (symbol F (sym_num bs i)))"
      "(modulated F bs n @ z) ! (2 * i + 1) = flt F (snd (symbol F (sym_num bs i)))"
      using modulated_nth [OF i, of F bs] i by (simp_all add: nth_append)
    then show "\<bar>real_part (rx ! i) - fst (symbol F (sym_num bs i))\<bar> \<le> 3 / 10"
      "\<bar>imag_part (rx ! i) - snd (symbol F (sym_num bs i))\<bar> \<le> 3 / 10"
      using near [OF i] rounding.flt_symbol [OF assms(1), of "sym_num bs i"]
      by (auto simp: sample_near_def abs_if split: if_splits)
  qed
  have "take (2 * n) bs = concat (map (\<lambda>i. bit_pair (decide F (rx ! i))) [0..<n])"
    unfolding take_pairs [OF assms(3)]
    using assms(3) dec by (intro arg_cong [of _ _ concat] map_cong) (simp_all add: bit_pair_sym_num [OF assms(2)])
  also have "\<dots> = concat (map (\<lambda>s. bit_pair (decide F s)) (take n rx))"
    using assms(4) by (simp add: map_nth_take_comp [where h = "\<lambda>s. bit_pair (decide F s)"])
  finally show ?thesis
    using DeMOD_QPSK_bits [OF assms(4,5), of F stray] by auto
qed



text \<open>
  The loop of \<^verbatim>\<open>DeMOD_QPSK\<close> runs once too often. With an output of exactly the \<open>2 * n\<close>
  cells the receiver gives it, the call leaves the buffer whenever the byte behind
  \<^verbatim>\<open>dec_bit\<close> is 0, 1, 2 or 3.
\<close>

theorem DeMOD_QPSK_overruns:
  assumes "n \<le> length rx" and "length out = 2 * n" and "unat stray < 4"
  shows "DeMOD_QPSK F stray (int n) rx out = None"
proof -
  let ?b = "concat (map (\<lambda>s. bit_pair (decide F s)) (take n rx))"
  have "length ?b = 2 * n" using assms(1) by (simp add: length_concat comp_def bit_pair_def sum_list_triv)
  then show ?thesis
    using DeMOD_QPSK_split [of n rx out F stray] assms by (simp add: demod_pair_def wr_out)
qed

theorem DeMOD_QPSK_overruns_witness:
  "DeMOD_QPSK ieee 3 (int 112) (replicate 112 \<lparr>real_part = 1, imag_part = 1\<rparr>) (replicate 224 0) = None"
  by (rule DeMOD_QPSK_overruns) simp_all

end
