(* ===== verification/Cedr_Types.thy ===== *)
theory Cedr_Types
  imports Prelude
begin

text \<open>
  The data of the CEDR runtime, \<^verbatim>\<open>src/src-api/include/header.hpp\<close>: the enumerations of API
  calls, precisions and resource types with their names, tasks, applications, worker
  threads and log records.

  Pointers are addresses: \<^verbatim>\<open>nullptr\<close> is 0. A task is reached from exactly one queue or
  worker at a time (\<open>performScheduling_conserves\<close> and \<open>worker_ok\<close>), so queues hold the task records themselves; an
  application is shared by its tasks, so tasks hold its address. \<^verbatim>\<open>long long\<close> values are
  integers and their sums are checked, since signed overflow is undefined; unsigned
  values are words.
\<close>

type_synonym u64 = "64 word"
type_synonym addr = nat

section \<open>Enumerations\<close>

datatype api_types = DASH_FFT | DASH_GEMM | DASH_FIR | DASH_SpectralOpening | DASH_CIC
  | DASH_ZIP | DASH_BPSK | DASH_QAM16 | DASH_CONV_2D | DASH_CONV_1D

abbreviation (input) NUM_API_TYPES :: nat where "NUM_API_TYPES \<equiv> 10"

primrec api_num :: "api_types \<Rightarrow> nat" where
  "api_num DASH_FFT = 0"
| "api_num DASH_GEMM = 1"
| "api_num DASH_FIR = 2"
| "api_num DASH_SpectralOpening = 3"
| "api_num DASH_CIC = 4"
| "api_num DASH_ZIP = 5"
| "api_num DASH_BPSK = 6"
| "api_num DASH_QAM16 = 7"
| "api_num DASH_CONV_2D = 8"
| "api_num DASH_CONV_1D = 9"

definition all_apis :: "api_types list" where
  "all_apis = [DASH_FFT, DASH_GEMM, DASH_FIR, DASH_SpectralOpening, DASH_CIC, DASH_ZIP,
     DASH_BPSK, DASH_QAM16, DASH_CONV_2D, DASH_CONV_1D]"

definition api_type_names :: "string list" where
  "api_type_names = [''DASH_FFT'', ''DASH_GEMM'', ''DASH_FIR'', ''DASH_SpectralOpening'', ''DASH_CIC'',
     ''DASH_ZIP'', ''DASH_BPSK'', ''DASH_QAM16'', ''DASH_CONV_2D'', ''DASH_CONV_1D'']"

definition api_types_map :: "string \<rightharpoonup> api_types" where
  "api_types_map = map_of (map (\<lambda>a. (api_type_names ! api_num a, a)) all_apis)"

datatype precision_types = prec_flt | prec_int

abbreviation (input) NUM_PRECISION_TYPES :: nat where "NUM_PRECISION_TYPES \<equiv> 2"

primrec prec_num :: "precision_types \<Rightarrow> nat" where
  "prec_num prec_flt = 0"
| "prec_num prec_int = 1"

definition precision_type_names :: "string list" where
  "precision_type_names = [''flt'', ''int'']"

definition precision_types_map :: "string \<rightharpoonup> precision_types" where
  "precision_types_map = map_of (map (\<lambda>p. (precision_type_names ! prec_num p, p)) [prec_flt, prec_int])"

datatype resource_type = cpu | fft | mmult | zip_acc | gpu

abbreviation (input) NUM_RESOURCE_TYPES :: nat where "NUM_RESOURCE_TYPES \<equiv> 5"

primrec res_num :: "resource_type \<Rightarrow> nat" where
  "res_num cpu = 0"
| "res_num fft = 1"
| "res_num mmult = 2"
| "res_num zip_acc = 3"
| "res_num gpu = 4"

definition all_resources :: "resource_type list" where
  "all_resources = [cpu, fft, mmult, zip_acc, gpu]"

definition resource_type_names :: "string list" where
  "resource_type_names = [''cpu'', ''fft'', ''gemm'', ''zip'', ''gpu'']"

definition resource_type_map :: "string \<rightharpoonup> resource_type" where
  "resource_type_map = map_of (map (\<lambda>r. (resource_type_names ! res_num r, r)) all_resources)"

text \<open>Both enumerations are ordered by their numbers, as the C++ enumerations are.\<close>

lemma api_num_inj: "api_num a = api_num b \<Longrightarrow> a = b"
  by (cases a; cases b) simp_all

lemma res_num_inj: "res_num a = res_num b \<Longrightarrow> a = b"
  by (cases a; cases b) simp_all

instantiation api_types :: linorder
begin

definition less_eq_api_types :: "api_types \<Rightarrow> api_types \<Rightarrow> bool" where
  "a \<le> b \<longleftrightarrow> api_num a \<le> api_num b"

definition less_api_types :: "api_types \<Rightarrow> api_types \<Rightarrow> bool" where
  "a < b \<longleftrightarrow> api_num a < api_num b"

instance
  by standard (auto simp: less_eq_api_types_def less_api_types_def intro: api_num_inj)

end

instantiation resource_type :: linorder
begin

definition less_eq_resource_type :: "resource_type \<Rightarrow> resource_type \<Rightarrow> bool" where
  "a \<le> b \<longleftrightarrow> res_num a \<le> res_num b"

definition less_resource_type :: "resource_type \<Rightarrow> resource_type \<Rightarrow> bool" where
  "a < b \<longleftrightarrow> res_num a < res_num b"

instance
  by standard (auto simp: less_eq_resource_type_def less_resource_type_def intro: res_num_inj)

end

lemma api_num_less [simp]: "api_num a < 10"
  by (cases a) simp_all

lemma res_num_less [simp]: "res_num r < 5"
  by (cases r) simp_all

lemma all_resources_complete [simp]: "r \<in> set all_resources"
  by (cases r) (simp_all add: all_resources_def)

lemma all_resources_nth: "all_resources ! res_num r = r"
  by (cases r) (simp_all add: all_resources_def)

text \<open>The name tables and their maps are inverse to each other.\<close>

lemma api_types_map_name [simp]: "api_types_map (api_type_names ! api_num a) = Some a"
  by (cases a) (simp_all add: api_types_map_def api_type_names_def all_apis_def)

lemma resource_type_map_name [simp]: "resource_type_map (resource_type_names ! res_num r) = Some r"
  by (cases r) (simp_all add: resource_type_map_def resource_type_names_def all_resources_def)

lemma precision_types_map_name [simp]: "precision_types_map (precision_type_names ! prec_num p) = Some p"
  by (cases p) (simp_all add: precision_types_map_def precision_type_names_def)

lemma api_types_map_Some: "api_types_map s = Some a \<Longrightarrow> s = api_type_names ! api_num a"
  by (auto simp: api_types_map_def dest!: map_of_SomeD)

section \<open>Structures\<close>

record timespec =
  tv_sec :: int
  tv_nsec :: int

definition SEC2NANOSEC :: int where "SEC2NANOSEC = 1000000000"

definition nanos :: "timespec \<Rightarrow> int" where
  "nanos t = tv_sec t * SEC2NANOSEC + tv_nsec t"

record cedr_barrier =
  cond :: addr
  mutex :: addr
  completion_ctr :: addr

record task_nodes =
  task_name :: string
  task_type :: api_types
  task_id :: int
  args :: "addr list"
  run_funcs :: "addr list"
  kernel_barrier :: addr
  app_pnt :: addr
  supported_resources :: "bool list"
  start_ts :: timespec
  end_ts :: timespec
  parent_app_pthread :: nat
  actual_run_func :: addr
  assigned_resource_type :: resource_type
  assigned_resource_name :: string

text \<open>
  The assignment operator of tasks copies the description of the task and not the fields
  an execution fills in (its number, its times and the resource it was given).
\<close>

definition task_assign :: "task_nodes \<Rightarrow> task_nodes \<Rightarrow> task_nodes" where
  "task_assign this other = this\<lparr>
     task_name := task_name other,
     task_type := task_type other,
     args := args other,
     run_funcs := run_funcs other,
     supported_resources := supported_resources other,
     kernel_barrier := kernel_barrier other,
     app_pnt := app_pnt other,
     parent_app_pthread := parent_app_pthread other,
     actual_run_func := actual_run_func other\<rparr>"

record cedr_app =
  app_id :: int
  task_count :: int
  app_name :: string
  dlhandle :: addr
  main_func_handle :: addr
  is_running :: bool
  app_pthread :: nat
  arrival_time :: u64
  start_time :: u64
  completed_task_count :: int

text \<open>
  \<^verbatim>\<open>strncpy\<close> into a 50 character array whose last cell is then cleared keeps 49 characters.
\<close>

definition app_assign :: "cedr_app \<Rightarrow> cedr_app \<Rightarrow> cedr_app" where
  "app_assign this other = this\<lparr>
     dlhandle := dlhandle other,
     main_func_handle := main_func_handle other,
     app_name := take 49 (app_name other),
     arrival_time := arrival_time other,
     start_time := start_time other\<rparr>"

text \<open>What \<^verbatim>\<open>calloc\<close> leaves in a fresh task and in a fresh application.\<close>

definition null_timespec :: timespec where
  "null_timespec = \<lparr>tv_sec = 0, tv_nsec = 0\<rparr>"

definition null_task :: task_nodes where
  "null_task = \<lparr>task_name = '''', task_type = DASH_FFT, task_id = 0, args = [],
     run_funcs = replicate NUM_RESOURCE_TYPES 0, kernel_barrier = 0, app_pnt = 0,
     supported_resources = replicate NUM_RESOURCE_TYPES False, start_ts = null_timespec,
     end_ts = null_timespec, parent_app_pthread = 0, actual_run_func = 0,
     assigned_resource_type = cpu, assigned_resource_name = ''''\<rparr>"

definition null_app :: cedr_app where
  "null_app = \<lparr>app_id = 0, task_count = 0, app_name = '''', dlhandle = 0, main_func_handle = 0,
     is_running = False, app_pthread = 0, arrival_time = 0, start_time = 0, completed_task_count = 0\<rparr>"

record worker_thread =
  todo_task_dequeue :: "task_nodes list"
  completed_task_dequeue :: "task_nodes list"
  running_task :: "task_nodes option"
  resource_state :: int
  resource_name :: string
  thread_resource_type :: resource_type
  resource_cluster_idx :: u32
  todo_dequeue_time :: int
  thread_avail_time :: int

record struct_logging =
  log_app_name :: string
  log_app_id :: int
  log_task_id :: int
  log_task_name :: string
  log_resource_name :: string
  log_start :: timespec
  log_end :: timespec

record struct_schedlogging =
  ready_queue_size :: u32
  sched_start :: timespec
  sched_end :: timespec
  scheduling_overhead :: u64

record struct_applogging =
  alog_app_name :: string
  alog_app_id :: int
  alog_arrival :: u64
  alog_start :: u64
  alog_end :: u64
  alog_runtime :: u64
  alog_lifetime :: u64

section \<open>Checked \<^verbatim>\<open>long long\<close> arithmetic\<close>

abbreviation (input) LLONG_MAX :: int where "LLONG_MAX \<equiv> 9223372036854775807"
abbreviation (input) ULLONG_MAX :: int where "ULLONG_MAX \<equiv> 18446744073709551615"

definition ll_add :: "int \<Rightarrow> int \<Rightarrow> int option" where
  "ll_add a b = (if - 9223372036854775808 \<le> a + b \<and> a + b \<le> LLONG_MAX then Some (a + b) else None)"

text \<open>A \<^verbatim>\<open>long long\<close> that meets an unsigned operand is converted to \<^verbatim>\<open>unsigned long long\<close>.\<close>

definition to_ull :: "int \<Rightarrow> int" where
  "to_ull a = a mod 2 ^ 64"

lemma ll_add_Some: "ll_add a b = Some c \<Longrightarrow> c = a + b"
  by (simp add: ll_add_def split: if_splits)

lemma ll_add_in [simp]: "0 \<le> a + b \<Longrightarrow> a + b \<le> LLONG_MAX \<Longrightarrow> ll_add a b = Some (a + b)"
  by (simp add: ll_add_def)

lemma to_ull_id [simp]: "0 \<le> a \<Longrightarrow> a \<le> LLONG_MAX \<Longrightarrow> to_ull a = a"
  by (simp add: to_ull_def)

end
