(* ===== verification/Config.thy ===== *)
theory Config
  imports Cedr_Types
begin

text \<open>
  The configuration of the runtime, \<^verbatim>\<open>src/src-api/config_manager.cpp\<close>: the defaults, the
  reader of the configuration file and the getters.

  The JSON library is \<^verbatim>\<open>nlohmann/json\<close>; its values are a datatype with the two accesses the
  reader makes, \<^verbatim>\<open>find\<close>/\<^verbatim>\<open>contains\<close>/\<^verbatim>\<open>operator[]\<close> (\<open>jfind\<close>) and the typed conversions. A
  conversion of a value of another type throws \<open>TypeError\<close>. Floating-point numbers are
  outside the model. Nothing catches the exceptions, so they end the process.
\<close>

section \<open>Values of the configuration file\<close>

datatype json = JNull | JBool bool | JInt int | JString string | JArray "json list"
  | JObject "(string \<times> json) list"

datatype cfg_error = ParseError | TypeError | OutOfRange

datatype cfg_file = NotOpened | Malformed | Parsed json

fun jfind :: "json \<Rightarrow> string \<rightharpoonup> json" where
  "jfind (JObject kvs) k = map_of kvs k"
| "jfind _ k = None"

fun get_int :: "json \<Rightarrow> cfg_error + int" where
  "get_int (JInt n) = Inr n"
| "get_int (JBool b) = Inr (of_bool b)"
| "get_int _ = Inl TypeError"

definition get_uint :: "json \<Rightarrow> cfg_error + u32" where
  "get_uint j = map_sum id word_of_int (get_int j)"

definition get_ulong :: "json \<Rightarrow> cfg_error + u64" where
  "get_ulong j = map_sum id word_of_int (get_int j)"

definition get_llong :: "json \<Rightarrow> cfg_error + int" where
  "get_llong j = map_sum id (\<lambda>n. sint (word_of_int n :: u64)) (get_int j)"

fun get_bool :: "json \<Rightarrow> cfg_error + bool" where
  "get_bool (JBool b) = Inr b"
| "get_bool _ = Inl TypeError"

fun get_string :: "json \<Rightarrow> cfg_error + string" where
  "get_string (JString s) = Inr s"
| "get_string _ = Inl TypeError"

definition bindR :: "'e + 'a \<Rightarrow> ('a \<Rightarrow> 'e + 'b) \<Rightarrow> 'e + 'b" where
  "bindR m f = (case m of Inl e \<Rightarrow> Inl e | Inr x \<Rightarrow> f x)"

primrec foldR :: "('x \<Rightarrow> 's \<Rightarrow> 'e + 's) \<Rightarrow> 'x list \<Rightarrow> 's \<Rightarrow> 'e + 's" where
  "foldR f [] s = Inr s"
| "foldR f (x # xs) s = bindR (f x s) (foldR f xs)"

text \<open>A loop whose body succeeds and keeps an invariant succeeds and keeps it.\<close>

lemma foldR_total:
  assumes "I s" and "\<And>x s. x \<in> set xs \<Longrightarrow> I s \<Longrightarrow> \<exists>s'. f x s = Inr s' \<and> I s'"
  shows "\<exists>s'. foldR f xs s = Inr s' \<and> I s'"
  using assms
proof (induction xs arbitrary: s)
  case (Cons x xs)
  from Cons.prems(2)[of x s] Cons.prems(1) obtain s1 where s1: "f x s = Inr s1" "I s1" by auto
  from Cons.IH[OF s1(2)] Cons.prems(2) s1(1) show ?case by (auto simp: bindR_def)
qed simp

text \<open>A loop that succeeds at every element, with an invariant that counts them.\<close>

lemma foldR_nth:
  assumes "I 0 s" and "\<And>k s. k < length xs \<Longrightarrow> I k s \<Longrightarrow> \<exists>s'. f (xs ! k) s = Inr s' \<and> I (Suc k) s'"
  shows "\<exists>s'. foldR f xs s = Inr s' \<and> I (length xs) s'"
  using assms
proof (induction xs arbitrary: s I)
  case (Cons x xs)
  from Cons.prems(2)[of 0 s] Cons.prems(1) obtain s1 where s1: "f x s = Inr s1" "I (Suc 0) s1" by auto
  have "\<exists>s'. f (xs ! k) t = Inr s' \<and> I (Suc (Suc k)) s'" if "k < length xs" "I (Suc k) t" for k t
    using Cons.prems(2)[of "Suc k" t] that by simp
  from Cons.IH[of "\<lambda>k. I (Suc k)", OF s1(2) this] s1(1) show ?case by (auto simp: bindR_def)
qed auto

primrec get_strings_of :: "json list \<Rightarrow> cfg_error + string list" where
  "get_strings_of [] = Inr []"
| "get_strings_of (j # js) = bindR (get_string j) (\<lambda>s. map_sum id (Cons s) (get_strings_of js))"

fun get_strings :: "json \<Rightarrow> cfg_error + string list" where
  "get_strings (JArray js) = get_strings_of js"
| "get_strings _ = Inl TypeError"

lemma bindR_Inr [simp]: "bindR (Inr x) f = f x"
  by (simp add: bindR_def)

lemma bindR_Inl [simp]: "bindR (Inl e) f = Inl e"
  by (simp add: bindR_def)

lemma bindR_eq_Inr: "bindR m f = Inr y \<longleftrightarrow> (\<exists>x. m = Inr x \<and> f x = Inr y)"
  by (cases m) auto

lemma map_sum_eq_Inr: "map_sum f g m = Inr y \<longleftrightarrow> (\<exists>x. m = Inr x \<and> y = g x)"
  by (cases m) auto

section \<open>The configuration\<close>

record config =
  resource_array :: "u32 list"
  cache_schedules :: bool
  enable_queueing :: bool
  use_papi :: bool
  loosen_thread_permissions :: bool
  fixed_periodic_injection :: bool
  exit_when_idle :: bool
  dash_exec_times :: "int list list"
  PAPI_Counters :: "string list"
  scheduler :: string
  max_parallel_jobs :: u64
  random_seed :: u64
  dash_binary_paths :: "string list"

text \<open>The constructor; the processor architecture selects the accelerator defaults.\<close>

definition ConfigManager :: "bool \<Rightarrow> config" where
  "ConfigManager aarch64 = \<lparr>
     resource_array = (if aarch64 then [3, 1, 1, 0, 0] else [3, 0, 0, 0, 0]),
     cache_schedules = False,
     enable_queueing = True,
     use_papi = False,
     loosen_thread_permissions = True,
     fixed_periodic_injection = True,
     exit_when_idle = False,
     dash_exec_times = replicate NUM_API_TYPES (replicate NUM_RESOURCE_TYPES 0),
     PAPI_Counters = [],
     scheduler = ''SIMPLE'',
     max_parallel_jobs = 12,
     random_seed = 0,
     dash_binary_paths = [''./libdash-rt/libdash-rt.so'']\<rparr>"

text \<open>The dimensions the C++ array types fix.\<close>

definition config_wf :: "config \<Rightarrow> bool" where
  "config_wf c \<longleftrightarrow> length (resource_array c) = NUM_RESOURCE_TYPES \<and>
     length (dash_exec_times c) = NUM_API_TYPES \<and>
     (\<forall>row \<in> set (dash_exec_times c). length row = NUM_RESOURCE_TYPES)"

definition getTotalResources :: "config \<Rightarrow> u32" where
  "getTotalResources c = fold (\<lambda>num sum. sum + num) (resource_array c) 0"

definition getDashExecTime :: "config \<Rightarrow> api_types \<Rightarrow> resource_type \<Rightarrow> int" where
  "getDashExecTime c api r = dash_exec_times c ! api_num api ! res_num r"

section \<open>The reader\<close>

text \<open>A key that is present overrides the setting, a key that is absent leaves it.\<close>

definition override :: "json \<Rightarrow> string \<Rightarrow> (json \<Rightarrow> cfg_error + 'a) \<Rightarrow> ('a \<Rightarrow> 'c \<Rightarrow> 'c) \<Rightarrow> 'c \<Rightarrow> cfg_error + 'c" where
  "override j key conv upd c = (case jfind j key of
     None \<Rightarrow> Inr c
   | Some v \<Rightarrow> bindR (conv v) (\<lambda>x. Inr (upd x c)))"

definition set_resource :: "resource_type \<Rightarrow> u32 \<Rightarrow> config \<Rightarrow> config" where
  "set_resource r n c = c\<lparr>resource_array := (resource_array c)[res_num r := n]\<rparr>"

definition parse_threads :: "json \<Rightarrow> config \<Rightarrow> cfg_error + config" where
  "parse_threads j c = (case jfind j ''Worker Threads'' of
     None \<Rightarrow> Inr c
   | Some threads_config \<Rightarrow> foldR (\<lambda>r. override threads_config (resource_type_names ! res_num r)
        get_uint (set_resource (the (resource_type_map (resource_type_names ! res_num r))))) all_resources c)"

definition parse_features :: "json \<Rightarrow> config \<Rightarrow> cfg_error + config" where
  "parse_features j c = (case jfind j ''Features'' of
     None \<Rightarrow> Inr c
   | Some features_config \<Rightarrow>
       bindR (override features_config ''Cache Schedules'' get_bool (\<lambda>b c. c\<lparr>cache_schedules := b\<rparr>) c) (\<lambda>c.
       bindR (override features_config ''Enable Queueing'' get_bool (\<lambda>b c. c\<lparr>enable_queueing := b\<rparr>) c) (\<lambda>c.
       bindR (override features_config ''Use PAPI'' get_bool (\<lambda>b c. c\<lparr>use_papi := b\<rparr>) c) (\<lambda>c.
       bindR (override features_config ''Loosen Thread Permissions'' get_bool
                (\<lambda>b c. c\<lparr>loosen_thread_permissions := b\<rparr>) c) (\<lambda>c.
       bindR (override features_config ''Fixed Periodic Injection'' get_bool
                (\<lambda>b c. c\<lparr>fixed_periodic_injection := b\<rparr>) c) (\<lambda>c.
       override features_config ''Exit When Idle'' get_bool (\<lambda>b c. c\<lparr>exit_when_idle := b\<rparr>) c))))))"

text \<open>
  Both lists of strings are printed for the log before they are stored: the trailing comma
  of the text is looked up and replaced, and \<^verbatim>\<open>std::string::replace\<close> throws when
  \<^verbatim>\<open>find_last_of\<close> found none, which happens for the empty list.
\<close>

definition printed_list :: "json \<Rightarrow> cfg_error + string list" where
  "printed_list j = bindR (get_strings j) (\<lambda>xs. if xs = [] then Inl OutOfRange else Inr xs)"

definition set_exec_time :: "api_types \<Rightarrow> resource_type \<Rightarrow> int \<Rightarrow> config \<Rightarrow> config" where
  "set_exec_time a r t c = c\<lparr>dash_exec_times :=
     (dash_exec_times c)[api_num a := (dash_exec_times c ! api_num a)[res_num r := t]]\<rparr>"

definition function_name :: "api_types \<Rightarrow> resource_type \<Rightarrow> string" where
  "function_name a r = api_type_names ! api_num a @ ''_'' @ resource_type_names ! res_num r"

definition parse_costs :: "json \<Rightarrow> config \<Rightarrow> cfg_error + config" where
  "parse_costs j c = (case jfind j ''DASH API Costs'' of
     None \<Rightarrow> Inr c
   | Some dash_api_costs \<Rightarrow>
       foldR (\<lambda>(a, r). override dash_api_costs (function_name a r) get_llong (set_exec_time a r))
         (List.product all_apis all_resources) c)"

definition parseConfig :: "cfg_file \<Rightarrow> config \<Rightarrow> cfg_error + config" where
  "parseConfig f c = (case f of
     NotOpened \<Rightarrow> Inr c
   | Malformed \<Rightarrow> Inl ParseError
   | Parsed j \<Rightarrow>
       bindR (parse_threads j c) (\<lambda>c.
       bindR (parse_features j c) (\<lambda>c.
       bindR (override j ''PAPI Counters'' printed_list (\<lambda>l c. c\<lparr>PAPI_Counters := l\<rparr>) c) (\<lambda>c.
       bindR (parse_costs j c) (\<lambda>c.
       bindR (override j ''Max Parallel Jobs'' get_ulong (\<lambda>n c. c\<lparr>max_parallel_jobs := n\<rparr>) c) (\<lambda>c.
       bindR (override j ''Scheduler'' get_string (\<lambda>s c. c\<lparr>scheduler := s\<rparr>) c) (\<lambda>c.
       bindR (override j ''Random Seed'' get_ulong (\<lambda>n c. c\<lparr>random_seed := n\<rparr>) c) (\<lambda>c.
       override j ''DASH Binary Paths'' printed_list (\<lambda>l c. c\<lparr>dash_binary_paths := l\<rparr>) c))))))))"

section \<open>What the reader does to one setting\<close>

definition setting :: "json \<Rightarrow> string \<Rightarrow> (json \<Rightarrow> cfg_error + 'a) \<Rightarrow> 'a \<Rightarrow> 'a \<Rightarrow> bool" where
  "setting j key conv old new = (case jfind j key of None \<Rightarrow> new = old | Some v \<Rightarrow> conv v = Inr new)"

definition member :: "json \<Rightarrow> string \<Rightarrow> json" where
  "member j key = (case jfind j key of None \<Rightarrow> JNull | Some v \<Rightarrow> v)"

lemma setting_null [simp]: "setting JNull key conv old new \<longleftrightarrow> new = old"
  by (simp add: setting_def)

text \<open>The value a setting takes, and the case in which reading it fails.\<close>

definition reads :: "json \<Rightarrow> string \<Rightarrow> (json \<Rightarrow> cfg_error + 'a) \<Rightarrow> bool" where
  "reads j key conv = (case jfind j key of None \<Rightarrow> True | Some v \<Rightarrow> \<exists>x. conv v = Inr x)"

lemma override_field:
  "override j key conv upd c = Inr d \<Longrightarrow> upd v c = c \<Longrightarrow> \<exists>x. setting j key conv v x \<and> d = upd x c"
  by (auto simp: override_def bindR_eq_Inr setting_def split: option.splits intro: exI [of _ v])

lemma override_Inr:
  "override j key conv upd c = Inr c' \<longleftrightarrow>
     (jfind j key = None \<and> c' = c \<or> (\<exists>v x. jfind j key = Some v \<and> conv v = Inr x \<and> c' = upd x c))"
  by (auto simp: override_def bindR_eq_Inr split: option.splits)

text \<open>
  A table of settings: one cell per key, cells independent of each other and of the other
  settings (\<open>rest\<close>). The reader's loops over the resource types and over the API costs both
  read such a table.
\<close>

locale settings_table =
  fixes look :: "'k \<Rightarrow> config \<Rightarrow> 'v"
    and store :: "'k \<Rightarrow> 'v \<Rightarrow> config \<Rightarrow> config"
    and rest :: "config \<Rightarrow> 'r"
  assumes look_store: "config_wf c \<Longrightarrow> look k (store k v c) = v"
    and look_other: "config_wf c \<Longrightarrow> k \<noteq> l \<Longrightarrow> look l (store k v c) = look l c"
    and wf_store: "config_wf c \<Longrightarrow> config_wf (store k v c)"
    and rest_store: "rest (store k v c) = rest c"
begin

lemma override_cell:
  assumes "config_wf c" and "override j (key k) conv (store k) c = Inr c'"
  shows "config_wf c'" "rest c' = rest c" "setting j (key k) conv (look k c) (look k c')"
    "l \<noteq> k \<Longrightarrow> look l c' = look l c"
  using assms by (auto simp: override_Inr setting_def look_store look_other wf_store rest_store)

lemma override_cells:
  assumes "config_wf c" and "distinct ks"
    and "foldR (\<lambda>k. override j (key k) conv (store k)) ks c = Inr c'"
  shows "config_wf c' \<and> rest c' = rest c \<and> (\<forall>k. k \<notin> set ks \<longrightarrow> look k c' = look k c) \<and>
    (\<forall>k \<in> set ks. setting j (key k) conv (look k c) (look k c'))"
  using assms
proof (induction ks arbitrary: c)
  case Nil
  then show ?case by simp
next
  case (Cons k ks)
  then obtain d where d: "override j (key k) conv (store k) c = Inr d"
    and r: "foldR (\<lambda>k. override j (key k) conv (store k)) ks d = Inr c'"
    by (auto simp: bindR_eq_Inr)
  note one = override_cell [where k = k and key = key and conv = conv, OF Cons.prems(1) d]
  from Cons.IH [OF one(1) _ r] Cons.prems(2)
  have ih: "config_wf c'" "rest c' = rest d" "\<And>l. l \<notin> set ks \<Longrightarrow> look l c' = look l d"
    "\<And>l. l \<in> set ks \<Longrightarrow> setting j (key l) conv (look l d) (look l c')" by auto
  have "setting j (key l) conv (look l c) (look l c')" if "l \<in> set (k # ks)" for l
  proof (cases "l = k")
    case True
    with Cons.prems(2) have "l \<notin> set ks" by simp
    with ih(3) one(3) True show ?thesis by simp
  next
    case False
    with that have "l \<in> set ks" by simp
    with ih(4) one(4) False show ?thesis by metis
  qed
  moreover have "look l c' = look l c" if "l \<notin> set (k # ks)" for l
    using that ih(3) one(4) by auto
  ultimately show ?case using ih(1,2) one(2) by auto
qed

end

definition resource_cell :: "resource_type \<Rightarrow> config \<Rightarrow> u32" where
  "resource_cell r c = resource_array c ! res_num r"

interpretation resource_table: settings_table resource_cell set_resource
    "\<lambda>c. c\<lparr>resource_array := []\<rparr>"
  by unfold_locales
    (auto simp: resource_cell_def set_resource_def config_wf_def nth_list_update dest: res_num_inj)

interpretation cost_table: settings_table "\<lambda>(a, r) c. getDashExecTime c a r" "\<lambda>(a, r). set_exec_time a r"
    "\<lambda>c. c\<lparr>dash_exec_times := []\<rparr>"
  by unfold_locales
    (auto simp: getDashExecTime_def set_exec_time_def config_wf_def nth_list_update
       dest: api_num_inj res_num_inj dest!: set_update_subset_insert [THEN subsetD] split: prod.splits)

lemma distinct_all_resources: "distinct all_resources"
  by (simp add: all_resources_def)

lemma all_apis_complete [simp]: "a \<in> set all_apis"
  by (cases a) (simp_all add: all_apis_def)

lemma distinct_all_cells: "distinct (List.product all_apis all_resources)"
  by (intro distinct_product) (simp_all add: all_apis_def all_resources_def)

lemma parse_threads_cells:
  assumes "config_wf c" and "parse_threads j c = Inr d"
  shows "config_wf d" "d\<lparr>resource_array := []\<rparr> = c\<lparr>resource_array := []\<rparr>"
    "setting (member j ''Worker Threads'') (resource_type_names ! res_num r) get_uint
       (resource_array c ! res_num r) (resource_array d ! res_num r)"
proof -
  have "config_wf d \<and> d\<lparr>resource_array := []\<rparr> = c\<lparr>resource_array := []\<rparr> \<and>
    (\<forall>r. setting (member j ''Worker Threads'') (resource_type_names ! res_num r) get_uint
       (resource_array c ! res_num r) (resource_array d ! res_num r))"
  proof (cases "jfind j ''Worker Threads''")
    case None
    with assms show ?thesis by (simp add: parse_threads_def member_def)
  next
    case (Some t)
    with assms(2) have "foldR (\<lambda>r. override t (resource_type_names ! res_num r) get_uint (set_resource r))
      all_resources c = Inr d" by (simp add: parse_threads_def)
    from resource_table.override_cells [OF assms(1) distinct_all_resources this] Some
    show ?thesis by (simp add: member_def resource_cell_def)
  qed
  then show "config_wf d" "d\<lparr>resource_array := []\<rparr> = c\<lparr>resource_array := []\<rparr>"
    "setting (member j ''Worker Threads'') (resource_type_names ! res_num r) get_uint
       (resource_array c ! res_num r) (resource_array d ! res_num r)" by auto
qed

lemma parse_costs_cells:
  assumes "config_wf c" and "parse_costs j c = Inr d"
  shows "config_wf d" "d\<lparr>dash_exec_times := []\<rparr> = c\<lparr>dash_exec_times := []\<rparr>"
    "setting (member j ''DASH API Costs'') (function_name a r) get_llong
       (getDashExecTime c a r) (getDashExecTime d a r)"
proof -
  have "config_wf d \<and> d\<lparr>dash_exec_times := []\<rparr> = c\<lparr>dash_exec_times := []\<rparr> \<and>
    (\<forall>a r. setting (member j ''DASH API Costs'') (function_name a r) get_llong
       (getDashExecTime c a r) (getDashExecTime d a r))"
  proof (cases "jfind j ''DASH API Costs''")
    case None
    with assms show ?thesis by (simp add: parse_costs_def member_def)
  next
    case (Some t)
    let ?key = "\<lambda>(a, r). function_name a r" and ?store = "\<lambda>(a, r). set_exec_time a r"
    from Some assms(2) have "foldR (\<lambda>k. override t (?key k) get_llong (?store k))
      (List.product all_apis all_resources) c = Inr d" by (simp add: parse_costs_def case_prod_beta')
    from cost_table.override_cells [OF assms(1) distinct_all_cells this] Some
    show ?thesis by (auto simp: member_def)
  qed
  then show "config_wf d" "d\<lparr>dash_exec_times := []\<rparr> = c\<lparr>dash_exec_times := []\<rparr>"
    "setting (member j ''DASH API Costs'') (function_name a r) get_llong
       (getDashExecTime c a r) (getDashExecTime d a r)" by auto
qed

lemma parse_features_fields:
  assumes "parse_features j c = Inr d"
  shows "\<exists>a b p l i e. d = c\<lparr>cache_schedules := a, enable_queueing := b, use_papi := p,
      loosen_thread_permissions := l, fixed_periodic_injection := i, exit_when_idle := e\<rparr> \<and>
    (let f = member j ''Features'' in
      setting f ''Cache Schedules'' get_bool (cache_schedules c) a \<and>
      setting f ''Enable Queueing'' get_bool (enable_queueing c) b \<and>
      setting f ''Use PAPI'' get_bool (use_papi c) p \<and>
      setting f ''Loosen Thread Permissions'' get_bool (loosen_thread_permissions c) l \<and>
      setting f ''Fixed Periodic Injection'' get_bool (fixed_periodic_injection c) i \<and>
      setting f ''Exit When Idle'' get_bool (exit_when_idle c) e)"
proof (cases "jfind j ''Features''")
  case None
  with assms have "d = c\<lparr>cache_schedules := cache_schedules c, enable_queueing := enable_queueing c,
      use_papi := use_papi c, loosen_thread_permissions := loosen_thread_permissions c,
      fixed_periodic_injection := fixed_periodic_injection c, exit_when_idle := exit_when_idle c\<rparr>"
    by (simp add: parse_features_def)
  with None show ?thesis unfolding Let_def member_def by (metis option.simps(4) setting_null)
next
  case (Some f)
  with assms obtain c1 c2 c3 c4 c5 where
    1: "override f ''Cache Schedules'' get_bool (\<lambda>b c. c\<lparr>cache_schedules := b\<rparr>) c = Inr c1" and
    2: "override f ''Enable Queueing'' get_bool (\<lambda>b c. c\<lparr>enable_queueing := b\<rparr>) c1 = Inr c2" and
    3: "override f ''Use PAPI'' get_bool (\<lambda>b c. c\<lparr>use_papi := b\<rparr>) c2 = Inr c3" and
    4: "override f ''Loosen Thread Permissions'' get_bool (\<lambda>b c. c\<lparr>loosen_thread_permissions := b\<rparr>) c3 = Inr c4" and
    5: "override f ''Fixed Periodic Injection'' get_bool (\<lambda>b c. c\<lparr>fixed_periodic_injection := b\<rparr>) c4 = Inr c5" and
    6: "override f ''Exit When Idle'' get_bool (\<lambda>b c. c\<lparr>exit_when_idle := b\<rparr>) c5 = Inr d"
    by (auto simp: parse_features_def bindR_eq_Inr)
  obtain a where a: "setting f ''Cache Schedules'' get_bool (cache_schedules c) a" "c1 = c\<lparr>cache_schedules := a\<rparr>"
    using override_field [OF 1, of "cache_schedules c"] by auto
  obtain b where b: "setting f ''Enable Queueing'' get_bool (enable_queueing c) b" "c2 = c1\<lparr>enable_queueing := b\<rparr>"
    using override_field [OF 2, of "enable_queueing c"] a by auto
  obtain p where p: "setting f ''Use PAPI'' get_bool (use_papi c) p" "c3 = c2\<lparr>use_papi := p\<rparr>"
    using override_field [OF 3, of "use_papi c"] a b by auto
  obtain l where l: "setting f ''Loosen Thread Permissions'' get_bool (loosen_thread_permissions c) l"
      "c4 = c3\<lparr>loosen_thread_permissions := l\<rparr>"
    using override_field [OF 4, of "loosen_thread_permissions c"] a b p by auto
  obtain i where i: "setting f ''Fixed Periodic Injection'' get_bool (fixed_periodic_injection c) i"
      "c5 = c4\<lparr>fixed_periodic_injection := i\<rparr>"
    using override_field [OF 5, of "fixed_periodic_injection c"] a b p l by auto
  obtain e where e: "setting f ''Exit When Idle'' get_bool (exit_when_idle c) e" "d = c5\<lparr>exit_when_idle := e\<rparr>"
    using override_field [OF 6, of "exit_when_idle c"] a b p l i by auto
  show ?thesis
    by (rule exI [of _ a], rule exI [of _ b], rule exI [of _ p], rule exI [of _ l], rule exI [of _ i],
        rule exI [of _ e]) (use Some a b p l i e in \<open>simp add: member_def\<close>)
qed

text \<open>What comes after the tables: four scalars and the list of binaries.\<close>

lemma parse_tail_fields:
  assumes "bindR (override j ''Max Parallel Jobs'' get_ulong (\<lambda>n c. c\<lparr>max_parallel_jobs := n\<rparr>) c) (\<lambda>c.
       bindR (override j ''Scheduler'' get_string (\<lambda>s c. c\<lparr>scheduler := s\<rparr>) c) (\<lambda>c.
       bindR (override j ''Random Seed'' get_ulong (\<lambda>n c. c\<lparr>random_seed := n\<rparr>) c) (\<lambda>c.
       override j ''DASH Binary Paths'' printed_list (\<lambda>l c. c\<lparr>dash_binary_paths := l\<rparr>) c))) = Inr d"
  shows "\<exists>m s r b. d = c\<lparr>max_parallel_jobs := m, scheduler := s, random_seed := r, dash_binary_paths := b\<rparr> \<and>
    setting j ''Max Parallel Jobs'' get_ulong (max_parallel_jobs c) m \<and>
    setting j ''Scheduler'' get_string (scheduler c) s \<and>
    setting j ''Random Seed'' get_ulong (random_seed c) r \<and>
    setting j ''DASH Binary Paths'' printed_list (dash_binary_paths c) b"
proof -
  from assms obtain c1 c2 c3 where
    1: "override j ''Max Parallel Jobs'' get_ulong (\<lambda>n c. c\<lparr>max_parallel_jobs := n\<rparr>) c = Inr c1" and
    2: "override j ''Scheduler'' get_string (\<lambda>s c. c\<lparr>scheduler := s\<rparr>) c1 = Inr c2" and
    3: "override j ''Random Seed'' get_ulong (\<lambda>n c. c\<lparr>random_seed := n\<rparr>) c2 = Inr c3" and
    4: "override j ''DASH Binary Paths'' printed_list (\<lambda>l c. c\<lparr>dash_binary_paths := l\<rparr>) c3 = Inr d"
    by (auto simp: bindR_eq_Inr)
  obtain m where m: "setting j ''Max Parallel Jobs'' get_ulong (max_parallel_jobs c) m" "c1 = c\<lparr>max_parallel_jobs := m\<rparr>"
    using override_field [OF 1, of "max_parallel_jobs c"] by auto
  obtain s where s: "setting j ''Scheduler'' get_string (scheduler c) s" "c2 = c1\<lparr>scheduler := s\<rparr>"
    using override_field [OF 2, of "scheduler c"] m by auto
  obtain r where r: "setting j ''Random Seed'' get_ulong (random_seed c) r" "c3 = c2\<lparr>random_seed := r\<rparr>"
    using override_field [OF 3, of "random_seed c"] m s by auto
  obtain b where b: "setting j ''DASH Binary Paths'' printed_list (dash_binary_paths c) b" "d = c3\<lparr>dash_binary_paths := b\<rparr>"
    using override_field [OF 4, of "dash_binary_paths c"] m s r by auto
  show ?thesis
    by (rule exI [of _ m], rule exI [of _ s], rule exI [of _ r], rule exI [of _ b]) (use m s r b in simp)
qed

section \<open>Properties\<close>


definition sample_file :: json where
  "sample_file = JObject [(''Worker Threads'', JObject [(''cpu'', JInt 2), (''fft'', JInt 1)]),
     (''Features'', JObject [(''Enable Queueing'', JBool False)]),
     (''DASH API Costs'', JObject [(''DASH_FFT_fft'', JInt 50)]),
     (''Scheduler'', JString ''EFT'')]"


text \<open>
  An empty list of counters or of binaries is not accepted: printing it for the log
  throws, so the runtime does not start.
\<close>

theorem empty_list_aborts:
  assumes "jfind j ''PAPI Counters'' = Some (JArray []) \<or> jfind j ''DASH Binary Paths'' = Some (JArray [])"
  shows "\<exists>e. parseConfig (Parsed j) c = Inl e"
proof (rule ccontr)
  assume "\<not> ?thesis"
  then obtain d where "parseConfig (Parsed j) c = Inr d" by (cases "parseConfig (Parsed j) c") auto
  with assms show False
    by (auto simp: parseConfig_def bindR_eq_Inr override_Inr printed_list_def)
qed

theorem empty_list_aborts_witness:
  "\<exists>e. parseConfig (Parsed (JObject [(''PAPI Counters'', JArray [])])) (ConfigManager False) = Inl e"
  by (rule empty_list_aborts) simp

text \<open>
  The number of workers is the sum of the configured counts as long as that sum fits an
  \<^verbatim>\<open>unsigned int\<close>.
\<close>

theorem getTotalResources_sum:
  assumes "sum_list (map unat (resource_array c)) < 2 ^ 32"
  shows "unat (getTotalResources c) = sum_list (map unat (resource_array c))"
proof -
  have "unat (fold (\<lambda>num sum. sum + num) xs s) = unat s + sum_list (map unat xs)"
    if "unat s + sum_list (map unat xs) < 2 ^ 32" for xs and s :: u32
    using that
  proof (induction xs arbitrary: s)
    case Nil
    then show ?case by simp
  next
    case (Cons x xs)
    then have "unat (s + x) = unat s + unat x" by (simp add: unat_plus_if')
    with Cons show ?case by (simp add: add.assoc)
  qed
  from this [of 0 "resource_array c"] assms show ?thesis by (simp add: getTotalResources_def)
qed

theorem getTotalResources_sum_witness:
  "unat (getTotalResources (ConfigManager True)) = 5"
proof -
  have "sum_list (map unat (resource_array (ConfigManager True))) < 2 ^ 32" by (simp add: ConfigManager_def)
  from getTotalResources_sum [OF this] show ?thesis by (simp add: ConfigManager_def)
qed

end
