(* ===== verification/Queue_Walk.thy ===== *)
theory Queue_Walk
  imports Prelude "HOL-Library.Multiset"
begin

text \<open>
  The two loops the scheduling policies of both runtimes share, over any kind of task and any
  state: the walk over the ready queue and the search for the first resource that takes a
  task. \<open>None\<close> is undefined behaviour of the body. The rules reduce an invariant of the
  loop to one of its body.
\<close>

section \<open>The loop over the ready queue\<close>

text \<open>
  The ready queue is walked with an iterator: a task that was allocated is erased, otherwise
  the iterator advances, and some policies leave the loop early. \<open>kept\<close> are the tasks already
  passed, \<open>n\<close> counts the allocations.
\<close>

fun walk :: "('t \<Rightarrow> 's \<Rightarrow> (bool \<times> 's) option) \<Rightarrow> (bool \<Rightarrow> 's \<Rightarrow> bool) \<Rightarrow>
    't list \<Rightarrow> 't list \<Rightarrow> nat \<Rightarrow> 's \<Rightarrow> (nat \<times> 't list \<times> 's) option" where
  "walk body stop kept [] n s = Some (n, kept, s)"
| "walk body stop kept (t # q) n s = (case body t s of
     None \<Rightarrow> None
   | Some (True, s) \<Rightarrow>
       if stop True s then Some (n + 1, kept @ q, s) else walk body stop kept q (n + 1) s
   | Some (False, s) \<Rightarrow>
       if stop False s then Some (n, kept @ t # q, s) else walk body stop (kept @ [t]) q n s)"

text \<open>A search loop of at most \<open>n\<close> tries that breaks at the first allocation.\<close>

primrec first_success :: "nat \<Rightarrow> ('s \<Rightarrow> (bool \<times> 's) option) \<Rightarrow> 's \<Rightarrow> (bool \<times> 's) option" where
  "first_success 0 f s = Some (False, s)"
| "first_success (Suc n) f s = (case f s of
     None \<Rightarrow> None
   | Some (task_allocated, s) \<Rightarrow> if task_allocated then Some (True, s) else first_success n f s)"

section \<open>Rules\<close>

text \<open>
  A body that relates the tasks still queued and the state before it to those after it by a
  preorder, taking the task out exactly when it succeeds, makes the walk do the same.
\<close>

lemma walk_rel:
  assumes "walk body stop kept q n s = Some (n', q', s')"
    and refl: "\<And>x. R x x" and trans: "\<And>x y z. R x y \<Longrightarrow> R y z \<Longrightarrow> R x z"
    and body: "\<And>M t s ok s'. t \<in># M \<Longrightarrow> body t s = Some (ok, s') \<Longrightarrow> R (M, s) (if ok then M - {#t#} else M, s')"
  shows "R (mset kept + mset q, s) (mset q', s')"
  using assms(1)
proof (induction q arbitrary: kept n s)
  case Nil
  then show ?case using refl by simp
next
  case (Cons t q)
  from Cons.prems obtain ok s1 where t: "body t s = Some (ok, s1)"
    by (auto split: option.splits)
  have mem: "t \<in># mset kept + mset (t # q)" by simp
  have step: "R (mset kept + mset (t # q), s) (if ok then mset kept + mset q else mset kept + mset (t # q), s1)"
    using body[OF mem t] by (cases ok) simp_all
  show ?case
  proof (cases "stop ok s1")
    case True
    then show ?thesis using step t Cons.prems by (cases ok) auto
  next
    case False
    then show ?thesis
    proof (cases ok)
      case True
      with False Cons.prems t have "walk body stop kept q (n + 1) s1 = Some (n', q', s')" by simp
      from trans[OF step] Cons.IH[OF this] True show ?thesis by simp
    next
      case no: False
      with False Cons.prems t have "walk body stop (kept @ [t]) q n s1 = Some (n', q', s')" by simp
      from trans[OF step] Cons.IH[OF this] no show ?thesis by simp
    qed
  qed
qed

lemma walk_count:
  assumes "walk body stop kept q n s = Some (n', q', s')"
  shows "n' + length q' = n + length kept + length q"
  using assms by (induction body stop kept q n s rule: walk.induct) (auto split: option.splits bool.splits if_splits)

lemma first_success_inv:
  assumes "first_success n f s = Some (ok, s')" and "I s"
    and "\<And>s s'. I s \<Longrightarrow> f s = Some (False, s') \<Longrightarrow> I s'"
    and "\<And>s s'. I s \<Longrightarrow> f s = Some (True, s') \<Longrightarrow> J s'"
  shows "if ok then J s' else I s'"
  using assms(1,2)
proof (induction n arbitrary: s)
  case 0
  then show ?case by simp
next
  case (Suc n)
  then obtain b s1 where f: "f s = Some (b, s1)" by (auto split: option.splits)
  show ?case using Suc f assms(3,4) by (cases b) auto
qed

end
