(* ===== verification/Scheduler.thy ===== *)
theory Scheduler
  imports Config Queue_Walk
begin

text \<open>
  The scheduler of the CEDR runtime, \<^verbatim>\<open>src/src-api/scheduler.cpp\<close>: the assignment of one
  task to one processing element and the policies SIMPLE, RANDOM, MET, HEFT_RT, EFT and ETF.

  \<open>sched\<close> holds what a scheduling round reads and writes: the worker array, the function
  statics and the free resource count. The clock, \<^verbatim>\<open>std::sort\<close>, \<^verbatim>\<open>std::shuffle\<close> and the
  application names reached through the task pointers are the environment \<open>sched_env\<close>; the
  \<open>n\<close>-th call of \<^verbatim>\<open>clock_gettime\<close> returns \<open>clock E n\<close>. Undefined behaviour (an index outside
  the worker array, a dereferenced end iterator, a division by zero, signed overflow) is
  \<open>None\<close>.
\<close>

section \<open>State\<close>

record sched =
  workers :: "worker_thread list"
  schedule_cache :: "string \<rightharpoonup> int"
  rand_resource :: u32
  met_resource_idx :: u32
  free_resource_count :: u32
  ticks :: nat

record sched_env =
  cfg :: config
  clock :: "nat \<Rightarrow> int"
  name_of_app :: "addr \<Rightarrow> string"
  std_sort :: "(task_nodes \<Rightarrow> int) \<Rightarrow> task_nodes list \<Rightarrow> task_nodes list"
  std_shuffle :: "u64 \<Rightarrow> task_nodes list \<Rightarrow> task_nodes list"

text \<open>
  What the standard library promises: \<^verbatim>\<open>std::sort\<close> with the comparator \<open>key a > key b\<close>
  permutes its range into descending order of the keys, \<^verbatim>\<open>std::shuffle\<close> permutes it.
\<close>

definition env_ok :: "sched_env \<Rightarrow> bool" where
  "env_ok E \<longleftrightarrow>
     (\<forall>key q. mset (std_sort E key q) = mset q \<and> sorted_wrt (\<lambda>a b. key b \<le> key a) (std_sort E key q)) \<and>
     (\<forall>seed q. mset (std_shuffle E seed q) = mset q)"

definition worker_at :: "sched \<Rightarrow> int \<Rightarrow> worker_thread option" where
  "worker_at s i = (if 0 \<le> i then rd (workers s) (nat i) else None)"

definition total_resources :: "sched_env \<Rightarrow> nat" where
  "total_resources E = unat (getTotalResources (cfg E))"

section \<open>Assigning one task\<close>

definition cache_key :: "sched_env \<Rightarrow> task_nodes \<Rightarrow> string" where
  "cache_key E task = name_of_app E (app_pnt task) @ ''+'' @ task_name task"

definition cacheScheduleDecision :: "sched_env \<Rightarrow> task_nodes \<Rightarrow> int \<Rightarrow> sched \<Rightarrow> sched" where
  "cacheScheduleDecision E task resource_id s =
     s\<lparr>schedule_cache := (schedule_cache s)(cache_key E task \<mapsto> resource_id)\<rparr>"

definition supports :: "task_nodes \<Rightarrow> worker_thread \<Rightarrow> bool" where
  "supports task th = supported_resources task ! res_num (thread_resource_type th)"

definition pe_busy :: "worker_thread \<Rightarrow> bool" where
  "pe_busy th \<longleftrightarrow> resource_state th \<noteq> 0 \<or> todo_task_dequeue th \<noteq> [] \<or> completed_task_dequeue th \<noteq> []"

definition assigned :: "task_nodes \<Rightarrow> worker_thread \<Rightarrow> task_nodes" where
  "assigned task th = task\<lparr>
     assigned_resource_type := thread_resource_type th,
     assigned_resource_name := resource_name th,
     actual_run_func := run_funcs task ! res_num (thread_resource_type th)\<rparr>"

text \<open>The time a PE finishes a task it starts after the work already given to it.\<close>

definition finish_time :: "config \<Rightarrow> int \<Rightarrow> task_nodes \<Rightarrow> worker_thread \<Rightarrow> int option" where
  "finish_time c curr_time task th =
     (let exec = getDashExecTime c (task_type task) (thread_resource_type th);
          avail_time = thread_avail_time th
      in if avail_time \<le> curr_time then ll_add curr_time exec else ll_add avail_time exec)"

definition attemptToAssignTaskToPE :: "sched_env \<Rightarrow> task_nodes \<Rightarrow> int \<Rightarrow> sched \<Rightarrow> (bool \<times> sched) option" where
  "attemptToAssignTaskToPE E task idx s = do {
     th \<leftarrow> worker_at s idx;
     if \<not> supports task th then Some (False, s)
     else if \<not> enable_queueing (cfg E) \<and> pe_busy th then Some (False, s)
     else do {
       (th', s) \<leftarrow> (if scheduler (cfg E) \<in> {''EFT'', ''ETF'', ''HEFT_RT''} then do {
           avail \<leftarrow> finish_time (cfg E) (clock E (ticks s)) task th;
           Some (th\<lparr>thread_avail_time := avail\<rparr>, s\<lparr>ticks := ticks s + 1\<rparr>) }
         else Some (th, s));
       let th' = th'\<lparr>todo_task_dequeue := todo_task_dequeue th' @ [assigned task th]\<rparr>;
       let s = s\<lparr>workers := (workers s)[nat idx := th']\<rparr>;
       Some (True, if cache_schedules (cfg E) then cacheScheduleDecision E (assigned task th) idx s else s) } }"

section \<open>Cached decisions\<close>

definition scheduleCached :: "sched_env \<Rightarrow> task_nodes list \<Rightarrow> sched \<Rightarrow> (nat \<times> task_nodes list \<times> sched) option" where
  "scheduleCached E q s = walk
     (\<lambda>t s. case schedule_cache s (cache_key E t) of
        Some val \<Rightarrow> attemptToAssignTaskToPE E t val s
      | None \<Rightarrow> Some (False, s))
     (\<lambda>ok s. False) [] q 0 s"

section \<open>SIMPLE and RANDOM\<close>

definition release_count :: "sched_env \<Rightarrow> sched \<Rightarrow> sched" where
  "release_count E s = (if enable_queueing (cfg E) then s else s\<lparr>free_resource_count := free_resource_count s - 1\<rparr>)"

text \<open>
  The round-robin search of SIMPLE for one task; \<^verbatim>\<open>task_allocated\<close> is uninitialised when there
  is no resource to try.
\<close>

definition simple_try :: "sched_env \<Rightarrow> task_nodes \<Rightarrow> sched \<Rightarrow> (bool \<times> sched) option" where
  "simple_try E t s = do {
     (task_allocated, s) \<leftarrow> attemptToAssignTaskToPE E t (uint (rand_resource s)) s;
     let s = s\<lparr>rand_resource := (rand_resource s + 1) mod getTotalResources (cfg E)\<rparr>;
     Some (task_allocated, if task_allocated then release_count E s else s) }"

definition simple_body :: "sched_env \<Rightarrow> task_nodes \<Rightarrow> sched \<Rightarrow> (bool \<times> sched) option" where
  "simple_body E t s =
     (if total_resources E = 0 then
        if \<not> enable_queueing (cfg E) \<and> free_resource_count s = 0 then Some (False, s) else None
      else first_success (total_resources E) (simple_try E t) s)"

definition scheduleSimple :: "sched_env \<Rightarrow> task_nodes list \<Rightarrow> sched \<Rightarrow> (nat \<times> task_nodes list \<times> sched) option" where
  "scheduleSimple E q s = walk (simple_body E)
     (\<lambda>ok s. \<not> enable_queueing (cfg E) \<and> free_resource_count s = 0) [] q 0 s"

definition scheduleRandom :: "sched_env \<Rightarrow> task_nodes list \<Rightarrow> sched \<Rightarrow> (nat \<times> task_nodes list \<times> sched) option" where
  "scheduleRandom E q s = scheduleSimple E (std_shuffle E (random_seed (cfg E)) q) s"

section \<open>MET\<close>

text \<open>The resource type with the least execution time, searched from the last worker down.\<close>

definition met_resource :: "sched_env \<Rightarrow> task_nodes \<Rightarrow> sched \<Rightarrow> (resource_type \<times> int) option" where
  "met_resource E t s = foreach (rev [0..<total_resources E]) (\<lambda>i min_resource. do {
     th \<leftarrow> rd (workers s) i;
     let estimated_exec = getDashExecTime (cfg E) (task_type t) (thread_resource_type th);
     Some (if estimated_exec < snd min_resource \<and> supports t th
           then (thread_resource_type th, estimated_exec) else min_resource) }) (cpu, LLONG_MAX)"

definition met_try :: "sched_env \<Rightarrow> task_nodes \<Rightarrow> resource_type \<Rightarrow> sched \<Rightarrow> (bool \<times> sched) option" where
  "met_try E t min_type s = do {
     th \<leftarrow> worker_at s (uint (met_resource_idx s));
     (task_allocated, s) \<leftarrow> (if min_type = thread_resource_type th
        then attemptToAssignTaskToPE E t (uint (met_resource_idx s)) s else Some (False, s));
     Some (task_allocated, s\<lparr>met_resource_idx := (met_resource_idx s + 1) mod getTotalResources (cfg E)\<rparr>) }"

definition met_body :: "sched_env \<Rightarrow> task_nodes \<Rightarrow> sched \<Rightarrow> (bool \<times> sched) option" where
  "met_body E t s = do {
     min_resource \<leftarrow> met_resource E t s;
     (task_allocated, s) \<leftarrow> first_success (total_resources E) (met_try E t (fst min_resource)) s;
     Some (task_allocated, if task_allocated then release_count E s else s) }"

definition scheduleMET :: "sched_env \<Rightarrow> task_nodes list \<Rightarrow> sched \<Rightarrow> (nat \<times> task_nodes list \<times> sched) option" where
  "scheduleMET E q s = walk (met_body E)
     (\<lambda>ok s. ok \<and> \<not> enable_queueing (cfg E) \<and> free_resource_count s = 0) [] q 0 s"

section \<open>HEFT_RT\<close>

text \<open>
  The average execution time over the supported resource types, in unsigned arithmetic; it is
  a division by zero for a task that supports none. Sorting evaluates it on every task as soon
  as there are two.
\<close>

definition supported_types :: "task_nodes \<Rightarrow> resource_type list" where
  "supported_types t = filter (\<lambda>r. supported_resources t ! res_num r) all_resources"

definition avg_execution :: "config \<Rightarrow> task_nodes \<Rightarrow> int" where
  "avg_execution c t =
     (\<Sum>r\<leftarrow>supported_types t. to_ull (getDashExecTime c (task_type t) r)) mod 2 ^ 64 div int (length (supported_types t))"

definition heft_sort :: "sched_env \<Rightarrow> task_nodes list \<Rightarrow> task_nodes list option" where
  "heft_sort E q =
     (if 2 \<le> length q \<and> (\<exists>t\<in>set q. supported_types t = []) then None
      else Some (std_sort E (avg_execution (cfg E)) q))"

definition heft_resource :: "sched_env \<Rightarrow> int \<Rightarrow> task_nodes \<Rightarrow> sched \<Rightarrow> (int \<times> int) option" where
  "heft_resource E curr_time t s = foreach [0..<total_resources E] (\<lambda>i selected_resource. do {
     th \<leftarrow> rd (workers s) i;
     if \<not> supports t th then Some selected_resource
     else do {
       eft \<leftarrow> finish_time (cfg E) curr_time t th;
       Some (if eft < snd selected_resource then (int i, eft) else selected_resource) } }) (- 1, LLONG_MAX)"

definition scheduleHEFT_RT :: "sched_env \<Rightarrow> task_nodes list \<Rightarrow> sched \<Rightarrow> (nat \<times> task_nodes list \<times> sched) option" where
  "scheduleHEFT_RT E q s = do {
     q \<leftarrow> heft_sort E q;
     let curr_time = clock E (ticks s);
     walk (\<lambda>t s. do {
         selected_resource \<leftarrow> heft_resource E curr_time t s;
         attemptToAssignTaskToPE E t (fst selected_resource) s })
       (\<lambda>ok s. False) [] q 0 (s\<lparr>ticks := ticks s + 1\<rparr>) }"

section \<open>EFT\<close>

text \<open>
  \<^verbatim>\<open>earliest_estimated_availtime\<close> is unsigned, so the finish time is converted before the
  comparison. \<^verbatim>\<open>eft_resource\<close> is declared outside the task loop: a task that supports no
  worker is tried on the resource of the task before it.
\<close>

definition eft_search :: "sched_env \<Rightarrow> int \<Rightarrow> task_nodes \<Rightarrow> sched \<Rightarrow> int \<Rightarrow> (int \<times> int) option" where
  "eft_search E curr_time t s eft_resource = foreach (rev [0..<total_resources E])
     (\<lambda>i (eft_resource, earliest_estimated_availtime). do {
       th \<leftarrow> rd (workers s) i;
       finishTime \<leftarrow> finish_time (cfg E) curr_time t th;
       Some (if supports t th \<and> to_ull finishTime < earliest_estimated_availtime
             then (int i, to_ull finishTime) else (eft_resource, earliest_estimated_availtime)) })
     (eft_resource, ULLONG_MAX)"

definition scheduleEFT :: "sched_env \<Rightarrow> task_nodes list \<Rightarrow> sched \<Rightarrow> (nat \<times> task_nodes list \<times> sched) option" where
  "scheduleEFT E q s = do {
     let curr_time = clock E (ticks s);
     (n, q, eft_resource, s) \<leftarrow> walk (\<lambda>t (eft_resource, s). do {
         (eft_resource, _) \<leftarrow> eft_search E curr_time t s eft_resource;
         (task_allocated, s) \<leftarrow> attemptToAssignTaskToPE E t eft_resource s;
         Some (task_allocated, eft_resource, if task_allocated then release_count E s else s) })
       (\<lambda>ok (eft_resource, s). ok \<and> \<not> enable_queueing (cfg E) \<and> free_resource_count s = 0)
       [] q 0 (0, s\<lparr>ticks := ticks s + 1\<rparr>);
     Some (n, q, s) }"

section \<open>ETF\<close>

text \<open>
  One round looks at every task and every worker for the least finish time; \<^verbatim>\<open>minTask\<close>, a
  position in the queue, and \<^verbatim>\<open>etf_resource\<close> keep their values over rounds that find nothing.
\<close>

definition etf_search :: "sched_env \<Rightarrow> int \<Rightarrow> task_nodes list \<Rightarrow> sched \<Rightarrow> nat \<times> int \<Rightarrow> (nat \<times> int \<times> int) option" where
  "etf_search E curr_time q s = (\<lambda>(minTask, etf_resource).
     foreach (List.product [0..<length q] [0..<total_resources E])
       (\<lambda>(k, i) (minTask, etf_resource, earliest_estimated_availtime). do {
         th \<leftarrow> rd (workers s) i;
         finishTime \<leftarrow> finish_time (cfg E) curr_time (q ! k) th;
         Some (if supports (q ! k) th \<and> to_ull finishTime < earliest_estimated_availtime
               then (k, int i, to_ull finishTime)
               else (minTask, etf_resource, earliest_estimated_availtime)) })
       (minTask, etf_resource, ULLONG_MAX))"

primrec etf_rounds :: "sched_env \<Rightarrow> int \<Rightarrow> nat \<Rightarrow> nat \<Rightarrow> task_nodes list \<Rightarrow> nat \<times> int \<Rightarrow> sched \<Rightarrow>
    (nat \<times> task_nodes list \<times> sched) option" where
  "etf_rounds E curr_time 0 n q m s = Some (n, q, s)"
| "etf_rounds E curr_time (Suc r) n q m s = do {
     (minTask, etf_resource, _) \<leftarrow> etf_search E curr_time q s m;
     task \<leftarrow> rd q minTask;
     (task_allocated, s) \<leftarrow> attemptToAssignTaskToPE E task etf_resource s;
     if task_allocated then do {
       let q = take minTask q @ drop (Suc minTask) q;
       let s = release_count E s;
       if \<not> enable_queueing (cfg E) \<and> free_resource_count s = 0 then Some (n + 1, q, s)
       else etf_rounds E curr_time r (n + 1) q (minTask, etf_resource) s }
     else etf_rounds E curr_time r n q (minTask, etf_resource) s }"

definition scheduleETF :: "sched_env \<Rightarrow> task_nodes list \<Rightarrow> sched \<Rightarrow> (nat \<times> task_nodes list \<times> sched) option" where
  "scheduleETF E q s = etf_rounds E (clock E (ticks s)) (length q) 0 q (0, 0) (s\<lparr>ticks := ticks s + 1\<rparr>)"

section \<open>The entry point\<close>

datatype sched_outcome = SchedExit int | Scheduled "task_nodes list" sched

definition run_policy :: "sched_env \<Rightarrow> task_nodes list \<Rightarrow> sched \<Rightarrow> (nat \<times> task_nodes list \<times> sched) option option" where
  "run_policy E q s =
     (let sched_policy = scheduler (cfg E)
      in if sched_policy = ''SIMPLE'' then Some (scheduleSimple E q s)
         else if sched_policy = ''RANDOM'' then Some (scheduleRandom E q s)
         else if sched_policy = ''MET'' then Some (scheduleMET E q s)
         else if sched_policy = ''HEFT_RT'' then Some (scheduleHEFT_RT E q s)
         else if sched_policy = ''EFT'' then Some (scheduleEFT E q s)
         else if sched_policy = ''ETF'' then Some (scheduleETF E q s)
         else None)"

definition performScheduling :: "sched_env \<Rightarrow> task_nodes list \<Rightarrow> sched \<Rightarrow> sched_outcome option" where
  "performScheduling E q s =
     (if q = [] then Some (Scheduled q s)
      else case run_policy E q s of
        None \<Rightarrow> Some (SchedExit 1)
      | Some r \<Rightarrow> do {
          (tasks_scheduled, q, s) \<leftarrow> r;
          Some (if tasks_scheduled = 0 then SchedExit 1 else Scheduled q s) })"

end
