(* ===== verification/Scheduler_Refine.thy ===== *)
theory Scheduler_Refine
  imports Scheduler
begin

text \<open>
  What every scheduling policy promises, stated as an abstract machine: one step takes a task
  out of the ready queue and appends it, with its resource filled in, to the queue of a
  worker that may take it. Each policy refines this machine: a round that schedules \<open>n\<close> tasks
  is \<open>n\<close> such steps. The consequences (no task is lost or doubled, only supported resources,
  one task per idle worker without queueing) are proved once, in the locale \<open>policy\<close>.
\<close>

section \<open>The abstract machine\<close>

definition may_take :: "config \<Rightarrow> task_nodes \<Rightarrow> worker_thread \<Rightarrow> bool" where
  "may_take c t th \<longleftrightarrow> supports t th \<and> (enable_queueing c \<or> \<not> pe_busy th)"

definition give :: "task_nodes \<Rightarrow> int \<Rightarrow> worker_thread \<Rightarrow> worker_thread" where
  "give t avail th = th\<lparr>thread_avail_time := avail, todo_task_dequeue := todo_task_dequeue th @ [assigned t th]\<rparr>"

inductive dispatch :: "config \<Rightarrow> task_nodes multiset \<times> worker_thread list \<Rightarrow>
    task_nodes multiset \<times> worker_thread list \<Rightarrow> bool" for c where
  dispatch: "i < length ws \<Longrightarrow> may_take c t (ws ! i) \<Longrightarrow>
    dispatch c (add_mset t q, ws) (q, ws[i := give t avail (ws ! i)])"

inductive_cases dispatchE: "dispatch c (q, ws) (q', ws')"

section \<open>Assignment refines it\<close>

lemma attempt_False:
  "attemptToAssignTaskToPE E t idx s = Some (False, s') \<Longrightarrow> s' = s"
  by (auto simp: attemptToAssignTaskToPE_def Let_def split: Option.bind_splits if_splits prod.splits)

lemma attempt_True:
  assumes "attemptToAssignTaskToPE E t idx s = Some (True, s')"
  shows "\<exists>avail. 0 \<le> idx \<and> nat idx < length (workers s) \<and> may_take (cfg E) t (workers s ! nat idx) \<and>
    workers s' = (workers s)[nat idx := give t avail (workers s ! nat idx)] \<and>
    free_resource_count s' = free_resource_count s"
proof -
  from assms obtain th th' s1 where th: "worker_at s idx = Some th" and m: "may_take (cfg E) t th"
    and r: "(if scheduler (cfg E) \<in> {''EFT'', ''ETF'', ''HEFT_RT''} then do {
           avail \<leftarrow> finish_time (cfg E) (clock E (ticks s)) t th;
           Some (th\<lparr>thread_avail_time := avail\<rparr>, s\<lparr>ticks := ticks s + 1\<rparr>) }
         else Some (th, s)) = Some (th', s1)"
    and s': "workers s' = (workers s1)[nat idx := th'\<lparr>todo_task_dequeue := todo_task_dequeue th' @ [assigned t th]\<rparr>]"
      "free_resource_count s' = free_resource_count s1"
    by (auto simp: attemptToAssignTaskToPE_def may_take_def cacheScheduleDecision_def Let_def
        simp del: insert_iff split: Option.bind_splits if_splits prod.splits)
  from r have a: "\<exists>avail. th' = th\<lparr>thread_avail_time := avail\<rparr>" "workers s1 = workers s"
    "free_resource_count s1 = free_resource_count s"
    by (auto split: if_splits Option.bind_splits intro: exI [of _ "thread_avail_time th"])
  from th have "0 \<le> idx" "nat idx < length (workers s)" "workers s ! nat idx = th"
    by (auto simp: worker_at_def rd_def split: if_splits)
  with a m s' show ?thesis by (auto simp: give_def)
qed

lemma attempt_dispatch:
  assumes "attemptToAssignTaskToPE E t idx s = Some (True, s')"
  shows "dispatch (cfg E) (add_mset t q, workers s) (q, workers s')"
  using attempt_True [OF assms] by (auto intro: dispatch.intros)

section \<open>The loop refines it\<close>

text \<open>A loop body that dispatches its task exactly when it reports an allocation.\<close>

definition dispatching :: "config \<Rightarrow> ('s \<Rightarrow> worker_thread list) \<Rightarrow> (task_nodes \<Rightarrow> 's \<Rightarrow> (bool \<times> 's) option) \<Rightarrow> bool" where
  "dispatching c ws body \<longleftrightarrow>
     (\<forall>t s s'. body t s = Some (False, s') \<longrightarrow> ws s' = ws s) \<and>
     (\<forall>t s s' q. body t s = Some (True, s') \<longrightarrow> dispatch c (add_mset t q, ws s) (q, ws s'))"

lemma dispatchingI:
  assumes "\<And>t s s'. body t s = Some (False, s') \<Longrightarrow> ws s' = ws s"
    and "\<And>t s s' q. body t s = Some (True, s') \<Longrightarrow> dispatch c (add_mset t q, ws s) (q, ws s')"
  shows "dispatching c ws body"
  using assms by (simp add: dispatching_def)

lemma walk_dispatch:
  assumes "dispatching c ws body" and "walk body stop kept q n s = Some (n', q', s')"
  shows "n \<le> n' \<and> (dispatch c ^^ (n' - n)) (mset (kept @ q), ws s) (mset q', ws s')"
  using assms(2)
proof (induction q arbitrary: kept n s)
  case Nil
  then show ?case by simp
next
  case (Cons t q)
  then obtain ok s1 where b: "body t s = Some (ok, s1)" by (auto split: option.splits)
  show ?case
  proof (cases ok)
    case True
    have d: "dispatch c (mset (kept @ t # q), ws s) (mset (kept @ q), ws s1)"
      using assms(1) b True unfolding dispatching_def by simp
    show ?thesis
    proof (cases "stop True s1")
      case stop: True
      with Cons.prems b True have "n' = n + 1" "q' = kept @ q" "s' = s1" by auto
      with d show ?thesis by (simp add: eq_OO)
    next
      case False
      with Cons.prems b True have "walk body stop kept q (n + 1) s1 = Some (n', q', s')" by simp
      from Cons.IH [OF this] have le: "n + 1 \<le> n'"
        and r: "(dispatch c ^^ (n' - (n + 1))) (mset (kept @ q), ws s1) (mset q', ws s')" by auto
      from relpowp_Suc_I2 [OF d r] le show ?thesis by (simp add: Suc_diff_Suc)
    qed
  next
    case False
    have same: "ws s1 = ws s" using assms(1) b False unfolding dispatching_def by simp
    show ?thesis
    proof (cases "stop False s1")
      case True
      with Cons.prems b False same show ?thesis by auto
    next
      case go: False
      with Cons.prems b False have "walk body stop (kept @ [t]) q n s1 = Some (n', q', s')" by simp
      from Cons.IH [OF this] same show ?thesis by simp
    qed
  qed
qed

section \<open>What a run of the abstract machine does\<close>

text \<open>A task without the fields an assignment fills in, and all tasks a state holds.\<close>

definition descr :: "task_nodes \<Rightarrow> task_nodes" where
  "descr t = t\<lparr>assigned_resource_type := cpu, assigned_resource_name := '''', actual_run_func := 0\<rparr>"

definition queued :: "worker_thread list \<Rightarrow> task_nodes multiset" where
  "queued ws = (\<Sum>th\<leftarrow>ws. mset (todo_task_dequeue th))"

text \<open>What a worker received: tasks behind the ones it had, every one of a supported type and
  labelled with this worker, and without queueing at most one, given to an idle worker.\<close>

definition received :: "config \<Rightarrow> worker_thread \<Rightarrow> worker_thread \<Rightarrow> task_nodes list \<Rightarrow> bool" where
  "received c th th' new \<longleftrightarrow>
     (\<exists>avail. th' = th\<lparr>thread_avail_time := avail, todo_task_dequeue := todo_task_dequeue th @ new\<rparr>) \<and>
     (\<forall>t \<in> set new. supports t th \<and> assigned_resource_type t = thread_resource_type th \<and>
        assigned_resource_name t = resource_name th \<and>
        actual_run_func t = run_funcs t ! res_num (thread_resource_type th)) \<and>
     (enable_queueing c \<or> new = [] \<or> \<not> pe_busy th \<and> length new = 1)"

lemma descr_assigned [simp]: "descr (assigned t th) = descr t"
  by (simp add: descr_def assigned_def)

lemma received_refl: "received c th th []"
  unfolding received_def by (auto intro: exI [of _ "thread_avail_time th"])

lemma received_give:
  assumes "received c th th' new" and "may_take c t th'"
  shows "received c th (give t avail th') (new @ [assigned t th'])"
proof -
  from assms(1) obtain a where th': "th' = th\<lparr>thread_avail_time := a, todo_task_dequeue := todo_task_dequeue th @ new\<rparr>"
    by (auto simp: received_def)
  have "enable_queueing c \<or> new = [] \<and> \<not> pe_busy th"
    using assms(2) th' by (auto simp: may_take_def pe_busy_def)
  moreover have "supports (assigned t th') th"
    using assms(2) th' by (simp add: may_take_def supports_def assigned_def)
  ultimately show ?thesis
    using assms(1) th' by (auto simp: received_def give_def assigned_def)
qed

lemma queued_update:
  assumes "i < length ws"
  shows "queued (ws[i := th]) + mset (todo_task_dequeue (ws ! i)) = queued ws + mset (todo_task_dequeue th)"
  using assms
proof (induction ws arbitrary: i)
  case Nil
  then show ?case by simp
next
  case (Cons w ws)
  then show ?case by (cases i) (simp_all add: queued_def ac_simps)
qed

lemma dispatch_queued:
  assumes "dispatch c (q, ws) (q', ws')"
  shows "image_mset descr (q' + queued ws') = image_mset descr (q + queued ws)" "size q = Suc (size q')"
proof -
  from assms obtain i t avail where *: "i < length ws" "q = add_mset t q'" "ws' = ws[i := give t avail (ws ! i)]"
    by (auto elim!: dispatchE)
  have "queued ws' + mset (todo_task_dequeue (ws ! i)) =
      queued ws + {#assigned t (ws ! i)#} + mset (todo_task_dequeue (ws ! i))"
    using queued_update [OF *(1), of "give t avail (ws ! i)"] *(3) by (simp add: give_def)
  then have "queued ws' = add_mset (assigned t (ws ! i)) (queued ws)" by simp
  with *(2) show "image_mset descr (q' + queued ws') = image_mset descr (q + queued ws)" "size q = Suc (size q')"
    by simp_all
qed

lemma dispatches_queued:
  assumes "(dispatch c ^^ n) (q, ws) (q', ws')"
  shows "image_mset descr (q' + queued ws') = image_mset descr (q + queued ws) \<and> size q = size q' + n"
  using assms
proof (induction n arbitrary: q' ws')
  case 0
  then show ?case by simp
next
  case (Suc n)
  then obtain q1 ws1 where 1: "(dispatch c ^^ n) (q, ws) (q1, ws1)" and 2: "dispatch c (q1, ws1) (q', ws')"
    by auto
  from Suc.IH [OF 1] dispatch_queued [OF 2] show ?case by simp
qed

lemma dispatches_received:
  assumes "(dispatch c ^^ n) (q, ws) (q', ws')"
  shows "length ws' = length ws \<and> (\<forall>i<length ws. \<exists>new. received c (ws ! i) (ws' ! i) new)"
  using assms
proof (induction n arbitrary: q' ws')
  case 0
  then show ?case by (auto intro: received_refl)
next
  case (Suc n)
  then obtain q1 ws1 where 1: "(dispatch c ^^ n) (q, ws) (q1, ws1)" and 2: "dispatch c (q1, ws1) (q', ws')"
    by auto
  from 2 obtain j t avail where *: "j < length ws1" "may_take c t (ws1 ! j)" "ws' = ws1[j := give t avail (ws1 ! j)]"
    by (auto elim!: dispatchE)
  from Suc.IH [OF 1] have len: "length ws1 = length ws"
    and ih: "\<And>i. i < length ws \<Longrightarrow> \<exists>new. received c (ws ! i) (ws1 ! i) new" by auto
  have "\<exists>new. received c (ws ! i) (ws' ! i) new" if i: "i < length ws" for i
  proof (cases "i = j")
    case True
    from ih [OF i] obtain new where "received c (ws ! i) (ws1 ! i) new" ..
    from received_give [OF this] * True len i show ?thesis by (auto simp: nth_list_update)
  next
    case False
    with ih [OF i] * show ?thesis by (auto simp: nth_list_update)
  qed
  with len * show ?case by simp
qed

section \<open>Policies\<close>

text \<open>
  A policy takes the ready queue and the state and returns how many tasks it scheduled, the
  tasks left and the new state; the law is that it refines the abstract machine.
\<close>

locale policy =
  fixes sched_with :: "sched_env \<Rightarrow> task_nodes list \<Rightarrow> sched \<Rightarrow> (nat \<times> task_nodes list \<times> sched) option"
  assumes refines: "env_ok E \<Longrightarrow> sched_with E q s = Some (n, q', s') \<Longrightarrow>
    (dispatch (cfg E) ^^ n) (mset q, workers s) (mset q', workers s')"
begin

lemma conserves:
  assumes "env_ok E" "sched_with E q s = Some (n, q', s')"
  shows "image_mset descr (mset q' + queued (workers s')) = image_mset descr (mset q + queued (workers s))"
    "length q = length q' + n"
  using dispatches_queued [OF refines [OF assms]] by (simp_all only: size_mset)

lemma gives:
  assumes "env_ok E" "sched_with E q s = Some (n, q', s')"
  shows "length (workers s') = length (workers s)"
    "i < length (workers s) \<Longrightarrow> \<exists>new. received (cfg E) (workers s ! i) (workers s' ! i) new"
  using dispatches_received [OF refines [OF assms]] by auto

end

text \<open>Every policy that is a walk over the queue, possibly reordered first.\<close>

lemma walk_refines:
  assumes "dispatching c ws body" and "walk body stop [] p 0 s = Some (n, q', s')" and "mset p = mset q"
  shows "(dispatch c ^^ n) (mset q, ws s) (mset q', ws s')"
  using walk_dispatch [OF assms(1,2)] assms(3) by simp

lemma dispatching_attempt:
  "dispatching (cfg E) workers (\<lambda>t. attemptToAssignTaskToPE E t (idx t))"
  by (rule dispatchingI) (auto dest: attempt_False attempt_dispatch)

lemma release_count_workers [simp]: "workers (release_count E s) = workers s"
  by (simp add: release_count_def)

text \<open>The search loops of SIMPLE and MET try workers until one takes the task.\<close>

lemma dispatching_first_success:
  assumes "dispatching c ws (\<lambda>t. f t)"
  shows "dispatching c ws (\<lambda>t. first_success n (f t))"
proof -
  have "(first_success n (f t) s = Some (False, s') \<longrightarrow> ws s' = ws s) \<and>
    (first_success n (f t) s = Some (True, s') \<longrightarrow> (\<forall>q. dispatch c (add_mset t q, ws s) (q, ws s')))" for t s s'
  proof (induction n arbitrary: s)
    case 0
    then show ?case by simp
  next
    case (Suc n)
    show ?case
    proof (cases "f t s")
      case None
      then show ?thesis by simp
    next
      case (Some r)
      obtain ok s1 where r: "r = (ok, s1)" by (cases r)
      show ?thesis
      proof (cases ok)
        case True
        with Some r assms show ?thesis by (auto simp: dispatching_def)
      next
        case False
        with Some r assms have "ws s1 = ws s" by (simp add: dispatching_def)
        with Some r False Suc [of s1] show ?thesis by simp
      qed
    qed
  qed
  then show ?thesis by (simp add: dispatching_def)
qed

lemma dispatching_simple_try: "dispatching (cfg E) workers (simple_try E)"
  by (rule dispatchingI)
    (auto simp: simple_try_def Let_def dest: attempt_False attempt_dispatch split: Option.bind_splits)

lemma dispatching_simple: "dispatching (cfg E) workers (simple_body E)"
  using dispatching_first_success [OF dispatching_simple_try]
  unfolding dispatching_def simple_body_def by (auto split: if_splits)

lemma dispatching_met_try: "dispatching (cfg E) workers (\<lambda>t. met_try E t (ty t))"
  by (rule dispatchingI)
    (auto simp: met_try_def Let_def dest: attempt_False attempt_dispatch split: Option.bind_splits if_splits)

lemma dispatching_met: "dispatching (cfg E) workers (met_body E)"
proof (rule dispatchingI)
  fix t s s' q
  note * = dispatching_first_success [OF dispatching_met_try, unfolded dispatching_def, of _ E]
  {
    assume "met_body E t s = Some (False, s')"
    then obtain ty where "first_success (total_resources E) (met_try E t ty) s = Some (False, s')"
      by (auto simp: met_body_def split: Option.bind_splits if_splits)
    with * [of _ "\<lambda>_. ty"] show "workers s' = workers s" by blast
  }
  assume "met_body E t s = Some (True, s')"
  then obtain ty s1 where "first_success (total_resources E) (met_try E t ty) s = Some (True, s1)"
    and "s' = release_count E s1"
    by (auto simp: met_body_def split: Option.bind_splits if_splits)
  with * [of _ "\<lambda>_. ty"] show "dispatch (cfg E) (add_mset t q, workers s) (q, workers s')" by simp
qed

interpretation simple: policy scheduleSimple
  by unfold_locales (auto simp: scheduleSimple_def dest: walk_refines [OF dispatching_simple])

interpretation random: policy scheduleRandom
proof unfold_locales
  fix E q s n q' s'
  assume "env_ok E" and r: "scheduleRandom E q s = Some (n, q', s')"
  then have "mset (std_shuffle E (random_seed (cfg E)) q) = mset q" by (simp add: env_ok_def)
  with r show "(dispatch (cfg E) ^^ n) (mset q, workers s) (mset q', workers s')"
    unfolding scheduleRandom_def scheduleSimple_def by (auto dest: walk_refines [OF dispatching_simple])
qed

interpretation met: policy scheduleMET
  by unfold_locales (auto simp: scheduleMET_def dest: walk_refines [OF dispatching_met])

interpretation cached: policy scheduleCached
proof unfold_locales
  fix E q s n q' s'
  let ?body = "\<lambda>t s. case schedule_cache s (cache_key E t) of
        Some val \<Rightarrow> attemptToAssignTaskToPE E t val s | None \<Rightarrow> Some (False, s)"
  have "dispatching (cfg E) workers ?body"
    by (rule dispatchingI) (auto dest: attempt_False attempt_dispatch split: option.splits)
  moreover assume "scheduleCached E q s = Some (n, q', s')"
  ultimately show "(dispatch (cfg E) ^^ n) (mset q, workers s) (mset q', workers s')"
    unfolding scheduleCached_def by (rule walk_refines) simp
qed

interpretation heft_rt: policy scheduleHEFT_RT
proof unfold_locales
  fix E q s n q' s'
  let ?body = "\<lambda>curr_time t s. do {
         selected_resource \<leftarrow> heft_resource E curr_time t s;
         attemptToAssignTaskToPE E t (fst selected_resource) s }"
  have d: "dispatching (cfg E) workers (?body curr_time)" for curr_time
    by (rule dispatchingI) (auto dest: attempt_False attempt_dispatch split: Option.bind_splits)
  assume "env_ok E" and r: "scheduleHEFT_RT E q s = Some (n, q', s')"
  then obtain p where "mset p = mset q"
    and "walk (?body (clock E (ticks s))) (\<lambda>ok s. False) [] p 0 (s\<lparr>ticks := ticks s + 1\<rparr>) = Some (n, q', s')"
    by (auto simp: scheduleHEFT_RT_def heft_sort_def env_ok_def Let_def split: if_splits)
  from walk_refines [OF d this(2,1)]
  show "(dispatch (cfg E) ^^ n) (mset q, workers s) (mset q', workers s')" by simp
qed

interpretation eft: policy scheduleEFT
proof unfold_locales
  fix E q s n q' s'
  let ?body = "\<lambda>curr_time t (eft_resource, s). do {
         (eft_resource, _) \<leftarrow> eft_search E curr_time t s eft_resource;
         (task_allocated, s) \<leftarrow> attemptToAssignTaskToPE E t eft_resource s;
         Some (task_allocated, eft_resource, if task_allocated then release_count E s else s) }"
  have d: "dispatching (cfg E) (\<lambda>(_, s). workers s) (?body curr_time)" for curr_time
    by (rule dispatchingI) (auto dest!: attempt_False split: Option.bind_splits, rule attempt_dispatch, assumption)
  assume "env_ok E" and "scheduleEFT E q s = Some (n, q', s')"
  then obtain e where "walk (?body (clock E (ticks s)))
      (\<lambda>ok (eft_resource, s). ok \<and> \<not> enable_queueing (cfg E) \<and> free_resource_count s = 0)
      [] q 0 (0, s\<lparr>ticks := ticks s + 1\<rparr>) = Some (n, q', e, s')"
    by (auto simp: scheduleEFT_def Let_def split: Option.bind_splits)
  from walk_refines [OF d this] show "(dispatch (cfg E) ^^ n) (mset q, workers s) (mset q', workers s')" by simp
qed

lemma etf_rounds_dispatch:
  assumes "etf_rounds E curr_time r n q m s = Some (n', q', s')"
  shows "n \<le> n' \<and> (dispatch (cfg E) ^^ (n' - n)) (mset q, workers s) (mset q', workers s')"
  using assms
proof (induction r arbitrary: n q m s)
  case 0
  then show ?case by simp
next
  case (Suc r)
  then obtain minTask etf_resource z task ok s1 where
    t: "rd q minTask = Some task" and a: "attemptToAssignTaskToPE E task etf_resource s = Some (ok, s1)"
    and rest: "(if ok then
       if \<not> enable_queueing (cfg E) \<and> free_resource_count (release_count E s1) = 0
       then Some (n + 1, take minTask q @ drop (Suc minTask) q, release_count E s1)
       else etf_rounds E curr_time r (n + 1) (take minTask q @ drop (Suc minTask) q) (minTask, etf_resource)
              (release_count E s1)
     else etf_rounds E curr_time r n q (minTask, etf_resource) s1) = Some (n', q', s')"
    unfolding etf_rounds.simps Let_def by (auto split: Option.bind_splits)
  from t have i: "minTask < length q" "task = q ! minTask" by (auto simp: rd_def split: if_splits)
  then have q: "mset q = add_mset task (mset (take minTask q @ drop (Suc minTask) q))"
    by (subst id_take_nth_drop [OF i(1)]) simp
  show ?case
  proof (cases ok)
    case True
    let ?q = "take minTask q @ drop (Suc minTask) q"
    have d: "dispatch (cfg E) (mset q, workers s) (mset ?q, workers (release_count E s1))"
      using attempt_dispatch [of E task etf_resource s s1 "mset ?q"] a True q by simp
    show ?thesis
    proof (cases "\<not> enable_queueing (cfg E) \<and> free_resource_count (release_count E s1) = 0")
      case True
      with rest \<open>ok\<close> d show ?thesis by (auto simp: eq_OO)
    next
      case False
      with rest \<open>ok\<close> have "etf_rounds E curr_time r (n + 1) ?q (minTask, etf_resource) (release_count E s1)
          = Some (n', q', s')" by (simp only: if_False if_True)
      from Suc.IH [OF this] have le: "n + 1 \<le> n'"
        and r: "(dispatch (cfg E) ^^ (n' - (n + 1))) (mset ?q, workers (release_count E s1)) (mset q', workers s')"
        by auto
      from relpowp_Suc_I2 [OF d r] le show ?thesis by (simp add: Suc_diff_Suc)
    qed
  next
    case False
    with rest a have "etf_rounds E curr_time r n q (minTask, etf_resource) s = Some (n', q', s')"
      by (auto dest: attempt_False)
    from Suc.IH [OF this] show ?thesis .
  qed
qed

interpretation etf: policy scheduleETF
  by unfold_locales (auto simp: scheduleETF_def dest!: etf_rounds_dispatch)

section \<open>The entry point refines the abstract machine\<close>

interpretation any_policy: policy "\<lambda>E q s. case run_policy E q s of None \<Rightarrow> None | Some r \<Rightarrow> r"
proof unfold_locales
  fix E q s n q' s'
  assume *: "env_ok E" "(case run_policy E q s of None \<Rightarrow> None | Some r \<Rightarrow> r) = Some (n, q', s')"
  then show "(dispatch (cfg E) ^^ n) (mset q, workers s) (mset q', workers s')"
    using simple.refines random.refines met.refines heft_rt.refines eft.refines etf.refines
    by (auto simp: run_policy_def Let_def split: if_splits)
qed

lemma performScheduling_round:
  assumes "performScheduling E q s = Some (Scheduled q' s')" and "q \<noteq> []"
  obtains n where "0 < n" "run_policy E q s = Some (Some (n, q', s'))"
  using assms by (auto simp: performScheduling_def split: option.splits Option.bind_splits if_splits)

end
