(* ===== verification/Scheduler_Props.thy ===== *)
theory Scheduler_Props
  imports Scheduler_Refine
begin

text \<open>
  Properties of the scheduling policies: every round conserves the tasks and gives them only
  to workers that may take them; SIMPLE places every task that some worker supports; MET,
  EFT, HEFT_RT and ETF choose what their names promise; and the cases in which a round ends
  the process or is undefined.
\<close>

section \<open>Minimum searches\<close>

text \<open>
  All searches keep the first candidate whose value is strictly less than the best so far.
  The order of the search decides ties: the candidate found precedes every other minimum.
\<close>

definition keep_less :: "('i \<Rightarrow> bool) \<Rightarrow> ('i \<Rightarrow> int) \<Rightarrow> 'i \<Rightarrow> 'i option \<times> int \<Rightarrow> 'i option \<times> int" where
  "keep_less P f i b = (if P i \<and> f i < snd b then (Some i, f i) else b)"

definition first_least :: "('i \<Rightarrow> bool) \<Rightarrow> ('i \<Rightarrow> int) \<Rightarrow> 'i list \<Rightarrow> 'i \<Rightarrow> bool" where
  "first_least P f is k \<longleftrightarrow> (\<exists>xs ys. is = xs @ k # ys \<and> P k \<and>
     (\<forall>x\<in>set xs. P x \<longrightarrow> f k < f x) \<and> (\<forall>y\<in>set ys. P y \<longrightarrow> f k \<le> f y))"

lemma first_leastD:
  assumes "first_least P f is k"
  shows "k \<in> set is" "P k" "i \<in> set is \<Longrightarrow> P i \<Longrightarrow> f k \<le> f i"
  using assms by (fastforce simp: first_least_def intro: less_imp_le)+

lemma fold_keep_less:
  assumes "fold (keep_less P f) is (None, m) = (b, v)"
  shows "case b of None \<Rightarrow> v = m \<and> (\<forall>i\<in>set is. P i \<longrightarrow> m \<le> f i)
    | Some k \<Rightarrow> v = f k \<and> f k < m \<and> first_least P f is k"
  using assms
proof (induction "is" arbitrary: b v rule: rev_induct)
  case Nil
  then show ?case by simp
next
  case (snoc j "is")
  obtain b1 v1 where f: "fold (keep_less P f) is (None, m) = (b1, v1)" by fastforce
  with snoc.prems have e: "(b, v) = keep_less P f j (b1, v1)" by simp
  note ih = snoc.IH [OF f]
  show ?case
  proof (cases "P j \<and> f j < v1")
    case True
    with e have bv: "b = Some j" "v = f j" by (auto simp: keep_less_def)
    have "f j < m" "\<forall>x\<in>set is. P x \<longrightarrow> f j < f x"
      using ih True by (auto split: option.splits dest: first_leastD(3))
    then show ?thesis using bv True by (auto simp: first_least_def intro: exI [of _ "is"])
  next
    case False
    with e have bv: "b = b1" "v = v1" by (auto simp: keep_less_def split: if_splits)
    show ?thesis
    proof (cases b1)
      case None
      with ih bv False show ?thesis by auto
    next
      case (Some k)
      with ih have v1: "v1 = f k" "f k < m" "first_least P f is k" by auto
      then obtain xs ys where "is = xs @ k # ys" "P k" "\<forall>x\<in>set xs. P x \<longrightarrow> f k < f x"
        "\<forall>y\<in>set ys. P y \<longrightarrow> f k \<le> f y" by (auto simp: first_least_def)
      with False v1 have "first_least P f (is @ [j]) k"
        unfolding first_least_def by (intro exI [of _ xs] exI [of _ "ys @ [j]"]) auto
      with Some bv v1 show ?thesis by simp
    qed
  qed
qed

lemma fold_keep_less_exists:
  assumes "fold (keep_less P f) is (None, m) = (b, v)" and "i \<in> set is" "P i" "f i < m"
  obtains k where "b = Some k" "v = f k" "first_least P f is k"
  using fold_keep_less [OF assms(1)] assms(2-4) by (cases b) auto

text \<open>The specification of a finish time, without the machine's range.\<close>

definition spec_finish :: "config \<Rightarrow> int \<Rightarrow> task_nodes \<Rightarrow> worker_thread \<Rightarrow> int" where
  "spec_finish c now t th = max now (thread_avail_time th) + getDashExecTime c (task_type t) (thread_resource_type th)"

lemma finish_time_Some: "finish_time c now t th = Some f \<Longrightarrow> f = spec_finish c now t th"
  by (auto simp: finish_time_def spec_finish_def Let_def max_def dest!: ll_add_Some split: if_splits)

lemma finish_time_in:
  "0 \<le> spec_finish c now t th \<Longrightarrow> spec_finish c now t th \<le> LLONG_MAX \<Longrightarrow>
     finish_time c now t th = Some (spec_finish c now t th)"
  by (auto simp: finish_time_def spec_finish_def Let_def max_def)

text \<open>The pair of a result and its value that the code keeps, against the option of the search.\<close>

lemma fold_keep_pair:
  "fold (\<lambda>i (r, e). if P i \<and> f i < e then (g i, f i) else (r, e)) is (r0, m) =
     (case fold (keep_less P f) is (None, m) of (b, v) \<Rightarrow> (case b of None \<Rightarrow> r0 | Some k \<Rightarrow> g k, v))"
proof (induction "is" rule: rev_induct)
  case Nil
  then show ?case by simp
next
  case (snoc i "is")
  obtain b v where "fold (keep_less P f) is (None, m) = (b, v)" by fastforce
  moreover have "keep_less P f i (b, v) = (if P i \<and> f i < v then (Some i, f i) else (b, v))"
    by (simp add: keep_less_def)
  ultimately show ?case using snoc by simp
qed

text \<open>All finish times of a task on the workers are representable.\<close>

definition finish_ok :: "sched_env \<Rightarrow> int \<Rightarrow> task_nodes \<Rightarrow> sched \<Rightarrow> bool" where
  "finish_ok E now t s \<longleftrightarrow> total_resources E = length (workers s) \<and>
     (\<forall>th \<in> set (workers s). 0 \<le> spec_finish (cfg E) now t th \<and> spec_finish (cfg E) now t th < LLONG_MAX)"

abbreviation (input) fin :: "sched_env \<Rightarrow> int \<Rightarrow> task_nodes \<Rightarrow> worker_thread list \<Rightarrow> nat \<Rightarrow> int" where
  "fin E now t ws i \<equiv> spec_finish (cfg E) now t (ws ! i)"

lemma finish_ok_nth:
  "finish_ok E now t s \<Longrightarrow> i < length (workers s) \<Longrightarrow>
     0 \<le> fin E now t (workers s) i \<and> fin E now t (workers s) i < LLONG_MAX"
  by (simp add: finish_ok_def)

lemma finish_ok_finish:
  assumes "finish_ok E now t s" and "i < length (workers s)"
  shows "finish_time (cfg E) now t (workers s ! i) = Some (fin E now t (workers s) i)"
  using finish_ok_nth [OF assms] by (intro finish_time_in) simp_all

lemma eft_search_fold:
  assumes "finish_ok E now t s"
  shows "eft_search E now t s r = Some (fold (\<lambda>i (r, e).
     if supports t (workers s ! i) \<and> fin E now t (workers s) i < e then (int i, fin E now t (workers s) i) else (r, e))
     (rev [0..<length (workers s)]) (r, ULLONG_MAX))"
proof -
  have N: "total_resources E = length (workers s)" using assms by (simp add: finish_ok_def)
  show ?thesis
    unfolding eft_search_def N
  proof (rule foreach_total)
    fix i x assume "i \<in> set (rev [0..<length (workers s)])"
    then have "i < length (workers s)" by simp
    with finish_ok_finish [OF assms this] finish_ok_nth [OF assms this]
    show "(\<lambda>(eft_resource, earliest_estimated_availtime). do {
       th \<leftarrow> rd (workers s) i;
       finishTime \<leftarrow> finish_time (cfg E) now t th;
       Some (if supports t th \<and> to_ull finishTime < earliest_estimated_availtime
             then (int i, to_ull finishTime) else (eft_resource, earliest_estimated_availtime)) }) x =
      Some ((\<lambda>(r, e). if supports t (workers s ! i) \<and> fin E now t (workers s) i < e
             then (int i, fin E now t (workers s) i) else (r, e)) x)"
      by (cases x) simp
  qed
qed

lemma eft_search_least:
  assumes "finish_ok E now t s" and "i < length (workers s)" "supports t (workers s ! i)"
  obtains k where "eft_search E now t s r = Some (int k, fin E now t (workers s) k)"
    "first_least (\<lambda>i. supports t (workers s ! i)) (fin E now t (workers s)) (rev [0..<length (workers s)]) k"
proof -
  let ?P = "\<lambda>i. supports t (workers s ! i)" and ?f = "fin E now t (workers s)" and ?is = "rev [0..<length (workers s)]"
  obtain b v where b: "fold (keep_less ?P ?f) ?is (None, ULLONG_MAX) = (b, v)" by fastforce
  have "i \<in> set ?is" "?P i" "?f i < ULLONG_MAX" using assms finish_ok_nth [OF assms(1,2)] by auto
  from fold_keep_less_exists [OF b this] obtain k where "b = Some k" "v = ?f k" "first_least ?P ?f ?is k" .
  with b that show thesis by (simp add: eft_search_fold [OF assms(1)] fold_keep_pair)
qed

lemma heft_resource_fold:
  assumes "finish_ok E now t s"
  shows "heft_resource E now t s = Some (fold (\<lambda>i (r, e).
     if supports t (workers s ! i) \<and> fin E now t (workers s) i < e then (int i, fin E now t (workers s) i) else (r, e))
     [0..<length (workers s)] (- 1, LLONG_MAX))"
proof -
  have N: "total_resources E = length (workers s)" using assms by (simp add: finish_ok_def)
  show ?thesis
    unfolding heft_resource_def N
  proof (rule foreach_total)
    fix i x assume "i \<in> set [0..<length (workers s)]"
    then have "i < length (workers s)" by simp
    with finish_ok_finish [OF assms this]
    show "(do { th \<leftarrow> rd (workers s) i;
        if \<not> supports t th then Some x
        else do { eft \<leftarrow> finish_time (cfg E) now t th; Some (if eft < snd x then (int i, eft) else x) } }) =
      Some ((\<lambda>(r, e). if supports t (workers s ! i) \<and> fin E now t (workers s) i < e
             then (int i, fin E now t (workers s) i) else (r, e)) x)"
      by (cases x) simp
  qed
qed

lemma heft_resource_least:
  assumes "finish_ok E now t s" and "i < length (workers s)" "supports t (workers s ! i)"
  obtains k where "heft_resource E now t s = Some (int k, fin E now t (workers s) k)"
    "first_least (\<lambda>i. supports t (workers s ! i)) (fin E now t (workers s)) [0..<length (workers s)] k"
proof -
  let ?P = "\<lambda>i. supports t (workers s ! i)" and ?f = "fin E now t (workers s)" and ?is = "[0..<length (workers s)]"
  obtain b v where b: "fold (keep_less ?P ?f) ?is (None, LLONG_MAX) = (b, v)" by fastforce
  have "i \<in> set ?is" "?P i" "?f i < LLONG_MAX" using assms finish_ok_nth [OF assms(1,2)] by auto
  from fold_keep_less_exists [OF b this] obtain k where "b = Some k" "v = ?f k" "first_least ?P ?f ?is k" .
  with b that show thesis by (simp add: heft_resource_fold [OF assms(1)] fold_keep_pair)
qed

section \<open>Greedy rounds\<close>

text \<open>
  A greedy step gives the head of the queue to a worker on which it finishes first, at the
  time \<open>now\<close> the round began; the worker's availability moves to the finish time computed when
  the task is assigned. \<open>times_ok E X q s\<close> bounds the times so that no sum overflows during the
  round: clock and availability up to \<open>X\<close>, one execution time up to \<open>Y\<close>.
\<close>

inductive greedy :: "sched_env \<Rightarrow> int \<Rightarrow> task_nodes list \<times> worker_thread list \<Rightarrow>
    task_nodes list \<times> worker_thread list \<Rightarrow> bool" for E now where
  greedy: "i < length ws \<Longrightarrow> supports t (ws ! i) \<Longrightarrow>
    (\<And>j. j < length ws \<Longrightarrow> supports t (ws ! j) \<Longrightarrow> fin E now t ws i \<le> fin E now t ws j) \<Longrightarrow>
    greedy E now (t # q, ws) (q, ws[i := give t (spec_finish (cfg E) (clock E n) t (ws ! i)) (ws ! i)])"

definition times_ok :: "sched_env \<Rightarrow> int \<Rightarrow> int \<Rightarrow> sched \<Rightarrow> bool" where
  "times_ok E A Y s \<longleftrightarrow> (\<forall>k. 0 \<le> clock E k \<and> clock E k \<le> A) \<and>
     (\<forall>a r. 0 \<le> getDashExecTime (cfg E) a r \<and> getDashExecTime (cfg E) a r \<le> Y) \<and>
     (\<forall>th \<in> set (workers s). thread_avail_time th \<le> A)"

lemma times_ok_finish:
  assumes "times_ok E A Y s" and "th \<in> set (workers s)"
  shows "0 \<le> spec_finish (cfg E) (clock E k) t th" "spec_finish (cfg E) (clock E k) t th \<le> A + Y"
proof -
  from assms have "0 \<le> clock E k" "clock E k \<le> A" "thread_avail_time th \<le> A"
    "0 \<le> getDashExecTime (cfg E) (task_type t) (thread_resource_type th)"
    "getDashExecTime (cfg E) (task_type t) (thread_resource_type th) \<le> Y" by (auto simp: times_ok_def)
  then show "0 \<le> spec_finish (cfg E) (clock E k) t th" "spec_finish (cfg E) (clock E k) t th \<le> A + Y"
    by (auto simp: spec_finish_def max_def)
qed

definition placeable :: "worker_thread list \<Rightarrow> task_nodes \<Rightarrow> bool" where
  "placeable ws t \<longleftrightarrow> (\<exists>th \<in> set ws. supports t th)"

lemma supports_give [simp]: "supports t (give u a th) = supports t th"
  by (simp add: supports_def give_def)

lemma placeable_give:
  assumes "i < length ws" "placeable ws t"
  shows "placeable (ws[i := give u a (ws ! i)]) t"
proof -
  from assms(2) obtain j where j: "j < length ws" "supports t (ws ! j)"
    by (auto simp: placeable_def in_set_conv_nth)
  let ?ws = "ws[i := give u a (ws ! i)]"
  have "supports t (?ws ! j)" using assms(1) j by (cases "i = j") simp_all
  moreover have "?ws ! j \<in> set ?ws" using j by (intro nth_mem) simp
  ultimately show ?thesis by (auto simp: placeable_def)
qed

lemma times_ok_later: "times_ok E A Y s \<Longrightarrow> A \<le> B \<Longrightarrow> workers s' = workers s \<Longrightarrow> times_ok E B Y s'"
  unfolding times_ok_def by (auto intro: order_trans)

lemma times_ok_give:
  assumes "times_ok E A Y s" "f \<le> A + Y" "workers s' = (workers s)[k := give t f (workers s ! k)]"
  shows "times_ok E (A + Y) Y s'"
proof -
  have Y: "0 \<le> Y" using assms(1) unfolding times_ok_def by (metis order_trans)
  have "thread_avail_time th \<le> A + Y" if "th \<in> set (workers s')" for th
  proof -
    from that assms(3) have "th = give t f (workers s ! k) \<or> th \<in> set (workers s)"
      using set_update_subset_insert by fastforce
    then show ?thesis
    proof
      assume "th = give t f (workers s ! k)"
      with assms(2) show ?thesis by (simp add: give_def)
    next
      assume "th \<in> set (workers s)"
      with assms(1) have "thread_avail_time th \<le> A" by (simp add: times_ok_def)
      with Y show ?thesis by simp
    qed
  qed
  moreover have "clock E k \<le> A + Y" for k
    using assms(1) Y unfolding times_ok_def by (metis add_increasing2)
  ultimately show ?thesis using assms(1) by (simp add: times_ok_def)
qed

lemma attempt_placed:
  assumes "enable_queueing (cfg E)" "scheduler (cfg E) \<in> {''EFT'', ''ETF'', ''HEFT_RT''}"
    and "k < length (workers s)" "supports t (workers s ! k)" and "times_ok E A Y s" "A + Y \<le> LLONG_MAX"
  shows "\<exists>s'. attemptToAssignTaskToPE E t (int k) s = Some (True, s') \<and>
    workers s' = (workers s)[k := give t (fin E (clock E (ticks s)) t (workers s) k) (workers s ! k)] \<and>
    times_ok E (A + Y) Y s'"
proof -
  let ?f = "fin E (clock E (ticks s)) t (workers s) k"
  have "workers s ! k \<in> set (workers s)" using assms(3) by simp
  note f = times_ok_finish [OF assms(5) this, of "ticks s" t]
  then have "finish_time (cfg E) (clock E (ticks s)) t (workers s ! k) = Some ?f"
    using assms(6) by (intro finish_time_in) auto
  with assms(1-4) have "\<exists>s'. attemptToAssignTaskToPE E t (int k) s = Some (True, s') \<and>
      workers s' = (workers s)[k := give t ?f (workers s ! k)]"
    by (simp add: attemptToAssignTaskToPE_def worker_at_def cacheScheduleDecision_def give_def Let_def)
  with times_ok_give [OF assms(5) f(2)] show ?thesis by blast
qed

lemma walk_greedy:
  assumes step: "\<And>t A s. times_ok E A Y (st s) \<Longrightarrow> A + Y < LLONG_MAX \<Longrightarrow> placeable (workers (st s)) t \<Longrightarrow>
      length (workers (st s)) = total_resources E \<Longrightarrow>
      \<exists>s'. body t s = Some (True, s') \<and> (\<forall>u. greedy E now (t # u, workers (st s)) (u, workers (st s'))) \<and>
        times_ok E (A + Y) Y (st s')"
    and nostop: "\<And>ok s. \<not> stop ok s" and "0 \<le> Y"
    and "times_ok E A Y (st s)" "A + int (length q) * Y < LLONG_MAX" "\<forall>t \<in> set q. placeable (workers (st s)) t"
      "length (workers (st s)) = total_resources E"
  shows "\<exists>s'. walk body stop kept q n s = Some (n + length q, kept, s') \<and>
    (greedy E now ^^ length q) (q, workers (st s)) ([], workers (st s'))"
  using assms(4-)
proof (induction q arbitrary: A n s)
  case Nil
  then show ?case by simp
next
  case (Cons t q)
  have "A + Y \<le> A + int (length (t # q)) * Y" using assms(3) by (simp add: algebra_simps)
  with Cons.prems(2) have "A + Y < LLONG_MAX" by simp
  from step [OF Cons.prems(1) this _ Cons.prems(4), of t] Cons.prems(3)
  obtain s1 where b: "body t s = Some (True, s1)" and g: "\<And>u. greedy E now (t # u, workers (st s)) (u, workers (st s1))"
    and t: "times_ok E (A + Y) Y (st s1)" by auto
  from g [of q] have len: "length (workers (st s1)) = total_resources E"
    and "\<And>t. placeable (workers (st s)) t \<Longrightarrow> placeable (workers (st s1)) t"
    using Cons.prems(4) by (auto elim!: greedy.cases simp: placeable_give)
  then have p: "\<forall>t \<in> set q. placeable (workers (st s1)) t" using Cons.prems(3) by simp
  have "A + Y + int (length q) * Y < LLONG_MAX" using Cons.prems(2) by (simp add: algebra_simps)
  from Cons.IH [OF t this p len, of "n + 1"] obtain s2 where
    w: "walk body stop kept q (n + 1) s1 = Some (n + 1 + length q, kept, s2)"
    and r: "(greedy E now ^^ length q) (q, workers (st s1)) ([], workers (st s2))" by blast
  from relpowp_Suc_I2 [OF g r] have "(greedy E now ^^ length (t # q)) (t # q, workers (st s)) ([], workers (st s2))"
    by simp
  moreover have "walk body stop kept (t # q) n s = Some (n + length (t # q), kept, s2)"
    using w b nostop by simp
  ultimately show ?case by blast
qed

lemma greedyI:
  assumes "first_least (\<lambda>i. supports t (ws ! i)) (fin E now t ws) is k" "set is = {..<length ws}"
    and "ws' = ws[k := give t (spec_finish (cfg E) (clock E n) t (ws ! k)) (ws ! k)]"
  shows "greedy E now (t # u, ws) (u, ws')"
  unfolding assms(3)
proof (rule greedy.intros)
  from first_leastD [OF assms(1)] assms(2)
  show "k < length ws" "supports t (ws ! k)"
    "\<And>j. j < length ws \<Longrightarrow> supports t (ws ! j) \<Longrightarrow> fin E now t ws k \<le> fin E now t ws j" by auto
qed

lemma finish_ok_times:
  assumes "times_ok E A Y s" "A + Y < LLONG_MAX" "length (workers s) = total_resources E"
  shows "finish_ok E (clock E k) t s"
  unfolding finish_ok_def using times_ok_finish [OF assms(1), of _ k t] assms(2,3)
  by (auto intro: order_le_less_trans)

lemma times_ok_Y: "times_ok E A Y s \<Longrightarrow> 0 \<le> Y"
  unfolding times_ok_def by (metis order_trans)

text \<open>Both greedy policies, once their search is known to return a first least finish time.\<close>

lemma eft_all:
  assumes "enable_queueing (cfg E)" "scheduler (cfg E) = ''EFT''"
    and t: "times_ok E A Y s" and "A + int (length q) * Y < LLONG_MAX"
    and "\<forall>t \<in> set q. placeable (workers s) t" "length (workers s) = total_resources E"
  shows "\<exists>s'. scheduleEFT E q s = Some (length q, [], s') \<and>
    (greedy E (clock E (ticks s)) ^^ length q) (q, workers s) ([], workers s')"
proof -
  let ?now = "clock E (ticks s)"
  let ?body = "\<lambda>t (eft_resource, s). do {
         (eft_resource, _) \<leftarrow> eft_search E ?now t s eft_resource;
         (task_allocated, s) \<leftarrow> attemptToAssignTaskToPE E t eft_resource s;
         Some (task_allocated, eft_resource, if task_allocated then release_count E s else s) }"
  let ?stop = "\<lambda>ok (eft_resource :: int, s). ok \<and> \<not> enable_queueing (cfg E) \<and> free_resource_count s = 0"
  have step: "\<exists>p'. ?body t p = Some (True, p') \<and>
      (\<forall>u. greedy E ?now (t # u, workers (snd p)) (u, workers (snd p'))) \<and> times_ok E (A + Y) Y (snd p')"
    if p: "times_ok E A Y (snd p)" "A + Y < LLONG_MAX" "placeable (workers (snd p)) t"
      "length (workers (snd p)) = total_resources E" for t A and p :: "int \<times> sched"
  proof -
    obtain r s0 where s0: "p = (r, s0)" by (cases p)
    with p(3) obtain i where i: "i < length (workers s0)" "supports t (workers s0 ! i)"
      by (auto simp: placeable_def in_set_conv_nth)
    have "finish_ok E ?now t s0" using finish_ok_times [of E A Y s0] p s0 by simp
    from eft_search_least [OF this i, of r] obtain k where
      e: "eft_search E ?now t s0 r = Some (int k, fin E ?now t (workers s0) k)" and
      k: "first_least (\<lambda>i. supports t (workers s0 ! i)) (fin E ?now t (workers s0)) (rev [0..<length (workers s0)]) k" .
    from first_leastD(1,2) [OF k] have kl: "k < length (workers s0)" "supports t (workers s0 ! k)" by auto
    from attempt_placed [OF assms(1) _ kl, of A Y] assms(2) p s0 obtain s1 where
      a: "attemptToAssignTaskToPE E t (int k) s0 = Some (True, s1)"
      "workers s1 = (workers s0)[k := give t (fin E (clock E (ticks s0)) t (workers s0) k) (workers s0 ! k)]"
      "times_ok E (A + Y) Y s1" by auto
    have "greedy E ?now (t # u, workers s0) (u, workers s1)" for u
      using greedyI [OF k _ a(2)] by (simp add: atLeast0LessThan)
    then show ?thesis using s0 e a assms(1) by (auto simp: release_count_def)
  qed
  have "\<exists>s'. walk ?body ?stop [] q 0 (0, s\<lparr>ticks := ticks s + 1\<rparr>) = Some (0 + length q, [], s') \<and>
      (greedy E ?now ^^ length q) (q, workers (snd (0 :: int, s\<lparr>ticks := ticks s + 1\<rparr>))) ([], workers (snd s'))"
    by (rule walk_greedy [where A = A and Y = Y])
      (use step assms times_ok_Y [OF t] times_ok_later [OF t] in auto)
  then show ?thesis by (auto simp: scheduleEFT_def Let_def)
qed

lemma heft_all:
  assumes "env_ok E" "enable_queueing (cfg E)" "scheduler (cfg E) = ''HEFT_RT''"
    and t: "times_ok E A Y s" and "A + int (length q) * Y < LLONG_MAX"
    and "\<forall>t \<in> set q. placeable (workers s) t" "length (workers s) = total_resources E"
  shows "\<exists>p s'. mset p = mset q \<and> sorted_wrt (\<lambda>a b. avg_execution (cfg E) b \<le> avg_execution (cfg E) a) p \<and>
    scheduleHEFT_RT E q s = Some (length q, [], s') \<and>
    (greedy E (clock E (ticks s)) ^^ length q) (p, workers s) ([], workers s')"
proof -
  let ?now = "clock E (ticks s)"
  let ?p = "std_sort E (avg_execution (cfg E)) q"
  let ?body = "\<lambda>t s. do {
         selected_resource \<leftarrow> heft_resource E ?now t s;
         attemptToAssignTaskToPE E t (fst selected_resource) s }"
  have p: "mset ?p = mset q" "sorted_wrt (\<lambda>a b. avg_execution (cfg E) b \<le> avg_execution (cfg E) a) ?p"
    using assms(1) by (auto simp: env_ok_def)
  then have ps: "set ?p = set q" "length ?p = length q" by (metis set_mset_mset, metis size_mset)
  have "supported_types t \<noteq> []" if "t \<in> set q" for t
  proof -
    from assms(6) that obtain th where "supports t th" by (auto simp: placeable_def)
    then have "thread_resource_type th \<in> set (supported_types t)" by (simp add: supported_types_def supports_def)
    then show ?thesis by auto
  qed
  then have sort: "heft_sort E q = Some ?p" by (auto simp: heft_sort_def)
  have step: "\<exists>s2. ?body t s1 = Some (True, s2) \<and>
      (\<forall>u. greedy E ?now (t # u, workers s1) (u, workers s2)) \<and> times_ok E (A + Y) Y s2"
    if s1: "times_ok E A Y s1" "A + Y < LLONG_MAX" "placeable (workers s1) t"
      "length (workers s1) = total_resources E" for t A s1
  proof -
    from s1(3) obtain i where i: "i < length (workers s1)" "supports t (workers s1 ! i)"
      by (auto simp: placeable_def in_set_conv_nth)
    from heft_resource_least [OF finish_ok_times [OF s1(1,2,4)] i, of "ticks s"] obtain k where
      e: "heft_resource E ?now t s1 = Some (int k, fin E ?now t (workers s1) k)" and
      k: "first_least (\<lambda>i. supports t (workers s1 ! i)) (fin E ?now t (workers s1)) [0..<length (workers s1)] k" .
    from first_leastD(1,2) [OF k] have kl: "k < length (workers s1)" "supports t (workers s1 ! k)" by auto
    from attempt_placed [OF assms(2) _ kl, of A Y] assms(3) s1 obtain s2 where
      a: "attemptToAssignTaskToPE E t (int k) s1 = Some (True, s2)"
      "workers s2 = (workers s1)[k := give t (fin E (clock E (ticks s1)) t (workers s1) k) (workers s1 ! k)]"
      "times_ok E (A + Y) Y s2" by auto
    have "greedy E ?now (t # u, workers s1) (u, workers s2)" for u
      using greedyI [OF k _ a(2)] by (simp add: atLeast0LessThan)
    then show ?thesis using e a by auto
  qed
  have "\<exists>s'. walk ?body (\<lambda>ok s. False) [] ?p 0 (s\<lparr>ticks := ticks s + 1\<rparr>) = Some (0 + length ?p, [], s') \<and>
      (greedy E ?now ^^ length ?p) (?p, workers (s\<lparr>ticks := ticks s + 1\<rparr>)) ([], workers s')"
    by (rule walk_greedy [where st = "\<lambda>s. s" and A = A and Y = Y])
      (use step assms times_ok_Y [OF t] times_ok_later [OF t] ps in auto)
  then show ?thesis using p ps sort by (auto simp: scheduleHEFT_RT_def Let_def)
qed

section \<open>Round-robin searches\<close>

text \<open>
  A loop of \<open>n\<close> tries that moves one worker further after each failure, \<open>idx\<close> being the worker
  it tries next, finds a worker that takes the task among the \<open>n\<close> it looks at.
\<close>

lemma first_success_cyclic:
  assumes step: "\<And>s. Q s \<Longrightarrow> ok (idx s) \<Longrightarrow> \<exists>s'. f s = Some (True, s') \<and> R (idx s) s'"
    "\<And>s. Q s \<Longrightarrow> \<not> ok (idx s) \<Longrightarrow> \<exists>s'. f s = Some (False, s') \<and> Q s' \<and> idx s' = Suc (idx s) mod N"
    and idx: "\<And>s. Q s \<Longrightarrow> idx s < N"
    and "Q s" "j < n" "ok ((idx s + j) mod N)"
  shows "\<exists>k s'. first_success n f s = Some (True, s') \<and> ok k \<and> k < N \<and> R k s'"
  using assms(4-)
proof (induction n arbitrary: s j)
  case 0
  then show ?case by simp
next
  case (Suc n)
  show ?case
  proof (cases "ok (idx s)")
    case True
    with step(1) [OF Suc.prems(1)] idx [OF Suc.prems(1)] show ?thesis by auto
  next
    case False
    then obtain s1 where f: "f s = Some (False, s1)" and q: "Q s1" and i: "idx s1 = Suc (idx s) mod N"
      using step(2) [OF Suc.prems(1)] by blast
    have "j \<noteq> 0"
      using Suc.prems(3) idx [OF Suc.prems(1)] False by (cases "j = 0") simp_all
    then obtain j' where j: "j = Suc j'" by (cases j) auto
    have "(idx s1 + j') mod N = (idx s + j) mod N" by (simp add: i j mod_add_left_eq)
    with Suc.prems(3) have "ok ((idx s1 + j') mod N)" by simp
    from Suc.IH [OF q _ this] Suc.prems(2) j f show ?thesis by simp
  qed
qed

lemma cyclic_offset:
  assumes "i < N" "k < (N::nat)"
  shows "\<exists>j<N. (i + j) mod N = k"
proof (cases "i \<le> k")
  case True
  with assms show ?thesis by (intro exI [of _ "k - i"]) simp
next
  case False
  with assms show ?thesis by (intro exI [of _ "N + k - i"]) (auto simp: mod_add_self1)
qed

lemma u32_next:
  assumes "unat (r :: u32) < unat T"
  shows "unat ((r + 1) mod T) = Suc (unat r) mod unat T"
proof -
  have "unat T < 2 ^ LENGTH(32)" by (rule unsigned_less)
  with assms have "unat r + 1 < 2 ^ 32" by simp
  then have "unat (r + 1) = Suc (unat r)" by (simp add: unat_plus_if' flip: Suc_eq_plus1)
  then show ?thesis by (simp add: unat_mod)
qed

text \<open>Policies that do not keep availability times: an assignment that is allowed succeeds.\<close>

lemma attempt_plain:
  assumes "enable_queueing (cfg E)" "scheduler (cfg E) \<notin> {''EFT'', ''ETF'', ''HEFT_RT''}" "k < length (workers s)"
  shows "supports t (workers s ! k) \<Longrightarrow> \<exists>s'. attemptToAssignTaskToPE E t (int k) s = Some (True, s') \<and>
      workers s' = (workers s)[k := give t (thread_avail_time (workers s ! k)) (workers s ! k)] \<and>
      rand_resource s' = rand_resource s \<and> met_resource_idx s' = met_resource_idx s"
    and "\<not> supports t (workers s ! k) \<Longrightarrow> attemptToAssignTaskToPE E t (int k) s = Some (False, s)"
  using assms
  by (auto simp: attemptToAssignTaskToPE_def worker_at_def cacheScheduleDecision_def give_def Let_def)

text \<open>A walk whose body places every task.\<close>

lemma walk_places:
  assumes step: "\<And>t s. I s \<Longrightarrow> placeable (workers s) t \<Longrightarrow>
      \<exists>s'. body t s = Some (True, s') \<and> I s' \<and> (\<forall>u. R (t # u, workers s) (u, workers s')) \<and>
        (\<forall>t. placeable (workers s) t \<longrightarrow> placeable (workers s') t)"
    and nostop: "\<And>ok s. \<not> stop ok s"
    and "I s" "\<forall>t \<in> set q. placeable (workers s) t"
  shows "\<exists>s'. walk body stop kept q n s = Some (n + length q, kept, s') \<and> I s' \<and>
    (R ^^ length q) (q, workers s) ([], workers s')"
  using assms(3-)
proof (induction q arbitrary: n s)
  case Nil
  then show ?case by simp
next
  case (Cons t q)
  from step [OF Cons.prems(1), of t] Cons.prems(2) obtain s1 where b: "body t s = Some (True, s1)" and i: "I s1"
    and r: "\<And>u. R (t # u, workers s) (u, workers s1)"
    and p: "\<And>t. placeable (workers s) t \<Longrightarrow> placeable (workers s1) t" by auto
  from p Cons.prems(2) have "\<forall>t \<in> set q. placeable (workers s1) t" by simp
  from Cons.IH [OF i this, of "n + 1"] obtain s2 where
    w: "walk body stop kept q (n + 1) s1 = Some (n + 1 + length q, kept, s2)" "I s2"
    and rr: "(R ^^ length q) (q, workers s1) ([], workers s2)" by blast
  from relpowp_Suc_I2 [OF r rr] have "(R ^^ length (t # q)) (t # q, workers s) ([], workers s2)" by simp
  moreover have "walk body stop kept (t # q) n s = Some (n + length (t # q), kept, s2)"
    using w b nostop by simp
  ultimately show ?case using w by blast
qed

text \<open>SIMPLE and MET place a task on the first worker, in cyclic order, that they accept.\<close>

definition cycling :: "sched_env \<Rightarrow> (sched \<Rightarrow> u32) \<Rightarrow> sched \<Rightarrow> bool" where
  "cycling E ctr s \<longleftrightarrow> unat (ctr s) < total_resources E \<and> length (workers s) = total_resources E"

lemma cycling_next:
  assumes "cycling E ctr s" "ctr s' = (ctr s + 1) mod getTotalResources (cfg E)"
    "length (workers s') = length (workers s)"
  shows "cycling E ctr s'" "unat (ctr s') = Suc (unat (ctr s)) mod total_resources E"
proof -
  show n: "unat (ctr s') = Suc (unat (ctr s)) mod total_resources E"
    using assms(1,2) u32_next by (simp add: cycling_def total_resources_def)
  have "0 < total_resources E" using assms(1) unfolding cycling_def by linarith
  then show "cycling E ctr s'" using assms(1,3) n unfolding cycling_def by simp
qed

lemma simple_try_cases:
  assumes "enable_queueing (cfg E)" "scheduler (cfg E) \<notin> {''EFT'', ''ETF'', ''HEFT_RT''}"
    and c: "cycling E rand_resource s"
  shows "supports t (workers s ! unat (rand_resource s)) \<Longrightarrow> \<exists>s'. simple_try E t s = Some (True, s') \<and>
      workers s' = (workers s)[unat (rand_resource s) :=
        give t (thread_avail_time (workers s ! unat (rand_resource s))) (workers s ! unat (rand_resource s))] \<and>
      cycling E rand_resource s'" (is "_ \<Longrightarrow> ?T")
    and "\<not> supports t (workers s ! unat (rand_resource s)) \<Longrightarrow> \<exists>s'. simple_try E t s = Some (False, s') \<and>
      workers s' = workers s \<and> cycling E rand_resource s' \<and>
      unat (rand_resource s') = Suc (unat (rand_resource s)) mod total_resources E" (is "_ \<Longrightarrow> ?F")
proof -
  let ?k = "unat (rand_resource s)"
  have k: "?k < length (workers s)" using c by (simp add: cycling_def)
  note a = attempt_plain [OF assms(1,2) k, of t]
  show ?T if "supports t (workers s ! ?k)"
  proof -
    from a(1) [OF that] obtain s1 where s1: "attemptToAssignTaskToPE E t (int ?k) s = Some (True, s1)"
      "workers s1 = (workers s)[?k := give t (thread_avail_time (workers s ! ?k)) (workers s ! ?k)]"
      "rand_resource s1 = rand_resource s" by auto
    let ?s = "s1\<lparr>rand_resource := (rand_resource s1 + 1) mod getTotalResources (cfg E)\<rparr>"
    have "cycling E rand_resource ?s" by (rule cycling_next(1) [OF c]) (simp_all add: s1)
    moreover have "simple_try E t s = Some (True, ?s)"
      using s1(1) assms(1) by (simp add: simple_try_def release_count_def Let_def)
    moreover have "workers ?s = workers s1" by simp
    ultimately show ?thesis using s1(2) by metis
  qed
  show ?F if "\<not> supports t (workers s ! ?k)"
  proof -
    let ?s = "s\<lparr>rand_resource := (rand_resource s + 1) mod getTotalResources (cfg E)\<rparr>"
    have "cycling E rand_resource ?s" "unat (rand_resource ?s) = Suc ?k mod total_resources E"
      by (rule cycling_next [OF c]; simp)+
    moreover have "simple_try E t s = Some (False, ?s)"
      using a(2) [OF that] by (simp add: simple_try_def Let_def)
    moreover have "workers ?s = workers s" by simp
    ultimately show ?thesis by metis
  qed
qed

lemma simple_body_places:
  assumes "enable_queueing (cfg E)" "scheduler (cfg E) \<notin> {''EFT'', ''ETF'', ''HEFT_RT''}"
    and c: "cycling E rand_resource s" and p: "placeable (workers s) t"
  shows "\<exists>k a s'. simple_body E t s = Some (True, s') \<and> k < length (workers s) \<and> supports t (workers s ! k) \<and>
    workers s' = (workers s)[k := give t a (workers s ! k)] \<and> cycling E rand_resource s'"
proof -
  let ?N = "total_resources E" and ?W = "workers s"
  let ?Q = "\<lambda>s1. cycling E rand_resource s1 \<and> workers s1 = ?W"
  let ?ok = "\<lambda>k. supports t (?W ! k)" and ?idx = "\<lambda>s. unat (rand_resource s)"
  let ?R = "\<lambda>k s'. workers s' = ?W[k := give t (thread_avail_time (?W ! k)) (?W ! k)] \<and> cycling E rand_resource s'"
  from p c obtain k where k: "k < ?N" "?ok k" by (auto simp: placeable_def in_set_conv_nth cycling_def)
  have i: "?idx s < ?N" using c by (simp add: cycling_def)
  from cyclic_offset [OF i k(1)] obtain j where j: "j < ?N" "(?idx s + j) mod ?N = k" by blast
  have "\<exists>k s'. first_success ?N (simple_try E t) s = Some (True, s') \<and> ?ok k \<and> k < ?N \<and> ?R k s'"
  proof (rule first_success_cyclic [where Q = ?Q and idx = ?idx and j = j])
    fix s1 assume s1: "?Q s1" "?ok (?idx s1)"
    with simple_try_cases(1) [OF assms(1,2), of s1 t]
    show "\<exists>s'. simple_try E t s1 = Some (True, s') \<and> ?R (?idx s1) s'" by auto
  next
    fix s1 assume s1: "?Q s1" "\<not> ?ok (?idx s1)"
    with simple_try_cases(2) [OF assms(1,2), of s1 t]
    show "\<exists>s'. simple_try E t s1 = Some (False, s') \<and> ?Q s' \<and> ?idx s' = Suc (?idx s1) mod ?N" by auto
  qed (use c j k in \<open>auto simp: cycling_def\<close>)
  moreover have "?N \<noteq> 0" "length ?W = ?N" using c by (auto simp: cycling_def)
  ultimately show ?thesis by (auto simp: simple_body_def)
qed

lemma simple_all:
  assumes "enable_queueing (cfg E)" "scheduler (cfg E) \<notin> {''EFT'', ''ETF'', ''HEFT_RT''}"
    and "cycling E rand_resource s" "\<forall>t \<in> set q. placeable (workers s) t"
  shows "\<exists>s'. scheduleSimple E q s = Some (length q, [], s') \<and> cycling E rand_resource s'"
proof -
  have step: "\<exists>s'. simple_body E t s1 = Some (True, s') \<and> cycling E rand_resource s' \<and>
      (\<forall>u. (\<lambda>a b. True) (t # u, workers s1) (u, workers s')) \<and>
      (\<forall>t. placeable (workers s1) t \<longrightarrow> placeable (workers s') t)"
    if "cycling E rand_resource s1" "placeable (workers s1) t" for t s1
  proof -
    from simple_body_places [OF assms(1,2) that] obtain k a s' where
      "simple_body E t s1 = Some (True, s')" "k < length (workers s1)"
      "workers s' = (workers s1)[k := give t a (workers s1 ! k)]" "cycling E rand_resource s'" by blast
    with placeable_give show ?thesis by auto
  qed
  have "\<not> (\<lambda>ok s. \<not> enable_queueing (cfg E) \<and> free_resource_count s = 0) ok s'" for ok :: bool and s'
    using assms(1) by simp
  from walk_places [where I = "cycling E rand_resource" and kept = "[]" and n = 0
      and stop = "\<lambda>ok s. \<not> enable_queueing (cfg E) \<and> free_resource_count s = 0"
      and body = "simple_body E" and R = "\<lambda>a b. True", OF step this assms(3,4)]
  show ?thesis by (auto simp: scheduleSimple_def)
qed

abbreviation (input) exec_on :: "sched_env \<Rightarrow> task_nodes \<Rightarrow> worker_thread \<Rightarrow> int" where
  "exec_on E t th \<equiv> getDashExecTime (cfg E) (task_type t) (thread_resource_type th)"

lemma met_resource_least:
  assumes "total_resources E = length (workers s)" "placeable (workers s) t"
    and "\<forall>th \<in> set (workers s). exec_on E t th < LLONG_MAX"
  obtains k where "k < length (workers s)" "supports t (workers s ! k)"
    "met_resource E t s = Some (thread_resource_type (workers s ! k), exec_on E t (workers s ! k))"
    "\<forall>th \<in> set (workers s). supports t th \<longrightarrow> exec_on E t (workers s ! k) \<le> exec_on E t th"
proof -
  let ?W = "workers s"
  let ?P = "\<lambda>i. supports t (?W ! i)" and ?f = "\<lambda>i. exec_on E t (?W ! i)" and ?is = "rev [0..<length ?W]"
  obtain i where i: "i < length ?W" "?P i" using assms(2) by (auto simp: placeable_def in_set_conv_nth)
  have "met_resource E t s = Some (fold (\<lambda>i (r, e).
     if ?P i \<and> ?f i < e then (thread_resource_type (?W ! i), ?f i) else (r, e)) ?is (cpu, LLONG_MAX))"
    unfolding met_resource_def assms(1)
  proof (rule foreach_total)
    fix i x assume "i \<in> set ?is"
    then show "(do { th \<leftarrow> rd ?W i;
        let estimated_exec = exec_on E t th;
        Some (if estimated_exec < snd x \<and> supports t th then (thread_resource_type th, estimated_exec) else x) }) =
      Some ((\<lambda>(r, e). if ?P i \<and> ?f i < e then (thread_resource_type (?W ! i), ?f i) else (r, e)) x)"
      by (cases x) (simp add: Let_def)
  qed
  then have m: "met_resource E t s = Some (case fold (keep_less ?P ?f) ?is (None, LLONG_MAX) of
      (b, v) \<Rightarrow> (case b of None \<Rightarrow> cpu | Some k \<Rightarrow> thread_resource_type (?W ! k), v))"
    by (simp only: fold_keep_pair)
  obtain b v where b: "fold (keep_less ?P ?f) ?is (None, LLONG_MAX) = (b, v)" by fastforce
  have "i \<in> set ?is" "?P i" "?f i < LLONG_MAX" using i assms(3) by auto
  from fold_keep_less_exists [OF b this] obtain k where k: "b = Some k" "v = ?f k" "first_least ?P ?f ?is k" .
  show thesis
  proof (rule that)
    show "k < length ?W" "?P k" using first_leastD(1,2) [OF k(3)] by auto
    show "met_resource E t s = Some (thread_resource_type (?W ! k), ?f k)" using m b k by simp
    show "\<forall>th \<in> set ?W. supports t th \<longrightarrow> ?f k \<le> exec_on E t th"
      using first_leastD(3) [OF k(3)] by (auto simp: in_set_conv_nth)
  qed
qed

lemma met_try_cases:
  assumes "enable_queueing (cfg E)" "scheduler (cfg E) \<notin> {''EFT'', ''ETF'', ''HEFT_RT''}"
    and c: "cycling E met_resource_idx s"
    and ty: "thread_resource_type (workers s ! unat (met_resource_idx s)) = r \<Longrightarrow> supports t (workers s ! unat (met_resource_idx s))"
  shows "thread_resource_type (workers s ! unat (met_resource_idx s)) = r \<Longrightarrow> \<exists>s'. met_try E t r s = Some (True, s') \<and>
      workers s' = (workers s)[unat (met_resource_idx s) :=
        give t (thread_avail_time (workers s ! unat (met_resource_idx s))) (workers s ! unat (met_resource_idx s))] \<and>
      cycling E met_resource_idx s'" (is "_ \<Longrightarrow> ?T")
    and "thread_resource_type (workers s ! unat (met_resource_idx s)) \<noteq> r \<Longrightarrow> \<exists>s'. met_try E t r s = Some (False, s') \<and>
      workers s' = workers s \<and> cycling E met_resource_idx s' \<and>
      unat (met_resource_idx s') = Suc (unat (met_resource_idx s)) mod total_resources E" (is "_ \<Longrightarrow> ?F")
proof -
  let ?k = "unat (met_resource_idx s)"
  have k: "?k < length (workers s)" using c by (simp add: cycling_def)
  then have w: "worker_at s (uint (met_resource_idx s)) = Some (workers s ! ?k)"
    by (simp add: worker_at_def)
  note a = attempt_plain [OF assms(1,2) k, of t]
  show ?T if r: "thread_resource_type (workers s ! ?k) = r"
  proof -
    from a(1) [OF ty [OF r]] obtain s1 where s1: "attemptToAssignTaskToPE E t (int ?k) s = Some (True, s1)"
      "workers s1 = (workers s)[?k := give t (thread_avail_time (workers s ! ?k)) (workers s ! ?k)]"
      "met_resource_idx s1 = met_resource_idx s" by auto
    let ?s = "s1\<lparr>met_resource_idx := (met_resource_idx s1 + 1) mod getTotalResources (cfg E)\<rparr>"
    have "cycling E met_resource_idx ?s" by (rule cycling_next(1) [OF c]) (simp_all add: s1)
    moreover have "met_try E t r s = Some (True, ?s)"
      using s1(1) w r by (simp add: met_try_def)
    moreover have "workers ?s = workers s1" by simp
    ultimately show ?thesis using s1(2) by metis
  qed
  show ?F if r: "thread_resource_type (workers s ! ?k) \<noteq> r"
  proof -
    let ?s = "s\<lparr>met_resource_idx := (met_resource_idx s + 1) mod getTotalResources (cfg E)\<rparr>"
    have "cycling E met_resource_idx ?s" "unat (met_resource_idx ?s) = Suc ?k mod total_resources E"
      by (rule cycling_next [OF c]; simp)+
    moreover have "met_try E t r s = Some (False, ?s)"
      using w r by (simp add: met_try_def)
    moreover have "workers ?s = workers s" by simp
    ultimately show ?thesis by metis
  qed
qed

text \<open>One step of MET: a worker of a type with the least execution time, busy or not.\<close>

inductive met_step :: "sched_env \<Rightarrow> task_nodes list \<times> worker_thread list \<Rightarrow>
    task_nodes list \<times> worker_thread list \<Rightarrow> bool" for E where
  met_step: "k < length ws \<Longrightarrow> supports t (ws ! k) \<Longrightarrow>
    \<forall>th \<in> set ws. supports t th \<longrightarrow> exec_on E t (ws ! k) \<le> exec_on E t th \<Longrightarrow>
    met_step E (t # q, ws) (q, ws[k := give t a (ws ! k)])"

lemma met_body_places:
  assumes "enable_queueing (cfg E)" "scheduler (cfg E) \<notin> {''EFT'', ''ETF'', ''HEFT_RT''}"
    and c: "cycling E met_resource_idx s" and p: "placeable (workers s) t"
    and e: "\<forall>th \<in> set (workers s). exec_on E t th < LLONG_MAX"
  shows "\<exists>s'. met_body E t s = Some (True, s') \<and> cycling E met_resource_idx s' \<and>
    (\<forall>u. met_step E (t # u, workers s) (u, workers s'))"
proof -
  let ?N = "total_resources E" and ?W = "workers s"
  have N: "?N = length ?W" using c by (simp add: cycling_def)
  from met_resource_least [OF N p e] obtain m where m: "m < length ?W" "supports t (?W ! m)"
    "met_resource E t s = Some (thread_resource_type (?W ! m), exec_on E t (?W ! m))"
    "\<forall>th \<in> set ?W. supports t th \<longrightarrow> exec_on E t (?W ! m) \<le> exec_on E t th" .
  let ?r = "thread_resource_type (?W ! m)"
  let ?Q = "\<lambda>s1. cycling E met_resource_idx s1 \<and> workers s1 = ?W"
  let ?ok = "\<lambda>k. thread_resource_type (?W ! k) = ?r" and ?idx = "\<lambda>s. unat (met_resource_idx s)"
  let ?R = "\<lambda>k s'. workers s' = ?W[k := give t (thread_avail_time (?W ! k)) (?W ! k)] \<and> cycling E met_resource_idx s'"
  have sup: "supports t th" if "thread_resource_type th = ?r" for th
    using that m(2) by (simp add: supports_def)
  have i: "?idx s < ?N" using c by (simp add: cycling_def)
  from cyclic_offset [OF i] m(1) N obtain j where j: "j < ?N" "(?idx s + j) mod ?N = m" by metis
  have "\<exists>k s'. first_success ?N (met_try E t ?r) s = Some (True, s') \<and> ?ok k \<and> k < ?N \<and> ?R k s'"
  proof (rule first_success_cyclic [where Q = ?Q and idx = ?idx and j = j])
    fix s1 assume s1: "?Q s1" "?ok (?idx s1)"
    with met_try_cases(1) [OF assms(1,2), of s1 ?r t] sup
    show "\<exists>s'. met_try E t ?r s1 = Some (True, s') \<and> ?R (?idx s1) s'" by auto
  next
    fix s1 assume s1: "?Q s1" "\<not> ?ok (?idx s1)"
    with met_try_cases(2) [OF assms(1,2), of s1 ?r t] sup
    show "\<exists>s'. met_try E t ?r s1 = Some (False, s') \<and> ?Q s' \<and> ?idx s' = Suc (?idx s1) mod ?N" by auto
  qed (use c j m in \<open>auto simp: cycling_def\<close>)
  then obtain k s' where f: "first_success ?N (met_try E t ?r) s = Some (True, s')" and k: "?ok k" "k < length ?W"
    and w: "workers s' = ?W[k := give t (thread_avail_time (?W ! k)) (?W ! k)]" and c': "cycling E met_resource_idx s'"
    using N by auto
  have "met_step E (t # u, ?W) (u, workers s')" for u
    unfolding w using k sup m(4) by (intro met_step.intros) auto
  with f c' m(3) assms(1) show ?thesis by (simp add: met_body_def release_count_def)
qed

lemma met_all:
  assumes "enable_queueing (cfg E)" "scheduler (cfg E) \<notin> {''EFT'', ''ETF'', ''HEFT_RT''}"
    and "cycling E met_resource_idx s" "\<forall>t \<in> set q. placeable (workers s) t"
    and e: "\<forall>a r. getDashExecTime (cfg E) a r < LLONG_MAX"
  shows "\<exists>s'. scheduleMET E q s = Some (length q, [], s') \<and>
    (met_step E ^^ length q) (q, workers s) ([], workers s')"
proof -
  have step: "\<exists>s'. met_body E t s1 = Some (True, s') \<and> cycling E met_resource_idx s' \<and>
      (\<forall>u. met_step E (t # u, workers s1) (u, workers s')) \<and>
      (\<forall>t. placeable (workers s1) t \<longrightarrow> placeable (workers s') t)"
    if "cycling E met_resource_idx s1" "placeable (workers s1) t" for t s1
  proof -
    from met_body_places [OF assms(1,2) that] e obtain s' where
      *: "met_body E t s1 = Some (True, s')" "cycling E met_resource_idx s'"
      "\<forall>u. met_step E (t # u, workers s1) (u, workers s')" by blast
    from *(3) have "met_step E ([t], workers s1) ([], workers s')" by blast
    then have "\<forall>t. placeable (workers s1) t \<longrightarrow> placeable (workers s') t"
      by (auto elim!: met_step.cases simp: placeable_give)
    with * show ?thesis by blast
  qed
  have "\<not> (\<lambda>ok s. ok \<and> \<not> enable_queueing (cfg E) \<and> free_resource_count s = 0) ok s'" for ok :: bool and s'
    using assms(1) by simp
  from walk_places [where I = "cycling E met_resource_idx" and kept = "[]" and n = 0
      and stop = "\<lambda>ok s. ok \<and> \<not> enable_queueing (cfg E) \<and> free_resource_count s = 0"
      and body = "met_body E" and R = "met_step E", OF step this assms(3,4)]
  show ?thesis by (auto simp: scheduleMET_def)
qed

text \<open>ETF looks at every pair of a ready task and a worker.\<close>

definition pair_ok :: "task_nodes list \<Rightarrow> worker_thread list \<Rightarrow> nat \<times> nat \<Rightarrow> bool" where
  "pair_ok q ws = (\<lambda>(k, i). supports (q ! k) (ws ! i))"

definition pair_finish :: "sched_env \<Rightarrow> int \<Rightarrow> task_nodes list \<Rightarrow> worker_thread list \<Rightarrow> nat \<times> nat \<Rightarrow> int" where
  "pair_finish E now q ws = (\<lambda>(k, i). fin E now (q ! k) ws i)"

lemma etf_search_fold:
  assumes "\<And>t. t \<in> set q \<Longrightarrow> finish_ok E now t s" and "set is \<subseteq> {..<length q} \<times> {..<length (workers s)}"
  shows "foreach is (\<lambda>(k, i) (minTask, etf_resource, earliest_estimated_availtime). do {
         th \<leftarrow> rd (workers s) i;
         finishTime \<leftarrow> finish_time (cfg E) now (q ! k) th;
         Some (if supports (q ! k) th \<and> to_ull finishTime < earliest_estimated_availtime
               then (k, int i, to_ull finishTime)
               else (minTask, etf_resource, earliest_estimated_availtime)) }) (m1, m2, e) =
    (case fold (\<lambda>x (r, e). if pair_ok q (workers s) x \<and> pair_finish E now q (workers s) x < e
        then ((fst x, int (snd x)), pair_finish E now q (workers s) x) else (r, e)) is ((m1, m2), e) of
      ((a, b), e) \<Rightarrow> Some (a, b, e))"
  using assms(2)
proof (induction "is" arbitrary: m1 m2 e)
  case Nil
  then show ?case by simp
next
  case (Cons x "is")
  obtain k i where x: "x = (k, i)" by (cases x)
  with Cons.prems have k: "k < length q" and i: "i < length (workers s)" by auto
  then have ok: "finish_ok E now (q ! k) s" using assms(1) by simp
  have "to_ull (fin E now (q ! k) (workers s) i) = fin E now (q ! k) (workers s) i"
    using finish_ok_nth [OF ok i] by simp
  with Cons x i show ?case
    by (simp add: finish_ok_finish [OF ok i] pair_ok_def pair_finish_def)
qed

lemma etf_search_least:
  assumes "\<And>t. t \<in> set q \<Longrightarrow> finish_ok E now t s" and "t \<in> set q" "placeable (workers s) t"
  obtains k i where "etf_search E now q s m = Some (k, int i, fin E now (q ! k) (workers s) i)"
    "k < length q" "i < length (workers s)" "supports (q ! k) (workers s ! i)"
    "\<forall>u \<in> set q. \<forall>th \<in> set (workers s). supports u th \<longrightarrow>
       fin E now (q ! k) (workers s) i \<le> spec_finish (cfg E) now u th"
proof -
  let ?W = "workers s"
  let ?P = "pair_ok q ?W" and ?f = "pair_finish E now q ?W"
  let ?is = "List.product [0..<length q] [0..<length ?W]"
  obtain m1 m2 where mm: "m = (m1, m2)" by (cases m)
  have N: "total_resources E = length ?W" using assms(1) [OF assms(2)] by (simp add: finish_ok_def)
  obtain j where j: "j < length q" "q ! j = t" using assms(2) by (auto simp: in_set_conv_nth)
  obtain l where l: "l < length ?W" "supports t (?W ! l)" using assms(3) by (auto simp: placeable_def in_set_conv_nth)
  have isub: "set ?is \<subseteq> {..<length q} \<times> {..<length ?W}" by auto
  obtain b v where b: "fold (keep_less ?P ?f) ?is (None, ULLONG_MAX) = (b, v)" by fastforce
  have "(j, l) \<in> set ?is" "?P (j, l)" "?f (j, l) < ULLONG_MAX"
    using j l finish_ok_nth [OF assms(1) [OF assms(2)] l(1)] by (auto simp: pair_ok_def pair_finish_def)
  from fold_keep_less_exists [OF b this] obtain x where x: "b = Some x" "v = ?f x" "first_least ?P ?f ?is x" .
  obtain k i where ki: "x = (k, i)" by (cases x)
  show thesis
  proof (rule that)
    show "k < length q" "i < length ?W" "supports (q ! k) (?W ! i)"
      using first_leastD(1,2) [OF x(3)] by (auto simp: ki pair_ok_def)
    show "etf_search E now q s m = Some (k, int i, fin E now (q ! k) ?W i)"
      unfolding etf_search_def mm N prod.case
      by (simp only: etf_search_fold [OF assms(1) isub] fold_keep_pair b x(1,2) ki prod.case option.case
          fst_conv snd_conv) (simp add: pair_finish_def)
    show "\<forall>u \<in> set q. \<forall>th \<in> set ?W. supports u th \<longrightarrow> fin E now (q ! k) ?W i \<le> spec_finish (cfg E) now u th"
    proof (intro ballI impI)
      fix u th assume "u \<in> set q" "th \<in> set ?W" "supports u th"
      then obtain a c where "a < length q" "q ! a = u" "c < length ?W" "?W ! c = th" by (auto simp: in_set_conv_nth)
      then have "(a, c) \<in> set ?is" "?P (a, c)" "?f (a, c) = spec_finish (cfg E) now u th"
        using \<open>supports u th\<close> by (auto simp: pair_ok_def pair_finish_def)
      with first_leastD(3) [OF x(3), of "(a, c)"] show "fin E now (q ! k) ?W i \<le> spec_finish (cfg E) now u th"
        by (simp add: ki pair_finish_def)
    qed
  qed
qed

text \<open>One step of ETF: the pair that finishes first over all ready tasks and workers.\<close>

inductive etf_step :: "sched_env \<Rightarrow> int \<Rightarrow> task_nodes list \<times> worker_thread list \<Rightarrow>
    task_nodes list \<times> worker_thread list \<Rightarrow> bool" for E now where
  etf_step: "k < length q \<Longrightarrow> i < length ws \<Longrightarrow> supports (q ! k) (ws ! i) \<Longrightarrow>
    \<forall>u \<in> set q. \<forall>th \<in> set ws. supports u th \<longrightarrow> fin E now (q ! k) ws i \<le> spec_finish (cfg E) now u th \<Longrightarrow>
    etf_step E now (q, ws) (take k q @ drop (Suc k) q, ws[i := give (q ! k) a (ws ! i)])"

lemma etf_rounds_all:
  assumes "enable_queueing (cfg E)" "scheduler (cfg E) = ''ETF''" and Y: "0 \<le> Y"
    and "times_ok E A Y s" "A + int (length q) * Y < LLONG_MAX" "\<forall>t \<in> set q. placeable (workers s) t"
      "length (workers s) = total_resources E"
  shows "\<exists>s'. etf_rounds E (clock E c) (length q) n q m s = Some (n + length q, [], s') \<and>
    (etf_step E (clock E c) ^^ length q) (q, workers s) ([], workers s')"
  using assms(4-)
proof (induction "length q" arbitrary: q A n m s)
  case 0
  then show ?case by simp
next
  case (Suc r)
  then obtain t where t: "t \<in> set q" "placeable (workers s) t" by (cases q) auto
  have "1 \<le> int (length q)" using Suc.hyps(2) by linarith
  then have "A + Y \<le> A + int (length q) * Y" using Y mult_right_mono [of 1 "int (length q)" Y] by simp
  with Suc.prems(2) have AY: "A + Y < LLONG_MAX" by simp
  have "finish_ok E (clock E c) u s" for u by (rule finish_ok_times [OF Suc.prems(1) AY Suc.prems(4)])
  from etf_search_least [OF this t, of m] obtain k i where
    e: "etf_search E (clock E c) q s m = Some (k, int i, fin E (clock E c) (q ! k) (workers s) i)" and
    k: "k < length q" and i: "i < length (workers s)" and sup: "supports (q ! k) (workers s ! i)" and
    l: "\<forall>u \<in> set q. \<forall>th \<in> set (workers s). supports u th \<longrightarrow>
       fin E (clock E c) (q ! k) (workers s) i \<le> spec_finish (cfg E) (clock E c) u th" .
  from attempt_placed [OF assms(1) _ i sup Suc.prems(1)] assms(2) AY obtain s1 a where
    a: "attemptToAssignTaskToPE E (q ! k) (int i) s = Some (True, s1)" and
    w: "workers s1 = (workers s)[i := give (q ! k) a (workers s ! i)]" and t1: "times_ok E (A + Y) Y s1" by auto
  let ?q = "take k q @ drop (Suc k) q"
  from etf_step.intros [OF k i sup l] have g: "etf_step E (clock E c) (q, workers s) (?q, workers s1)"
    unfolding w .
  have len: "r = length ?q" using Suc.hyps(2) k by simp
  have L: "length q = Suc (length ?q)" using len Suc.hyps(2) by simp
  have b: "A + Y + int (length ?q) * Y < LLONG_MAX"
    using Suc.prems(2) unfolding L by (simp only: of_nat_Suc distrib_right mult_1 add.assoc)
  have p: "\<forall>t \<in> set ?q. placeable (workers s1) t"
    using Suc.prems(3) placeable_give [OF i] unfolding w by (auto dest: in_set_takeD in_set_dropD)
  have lw: "length (workers s1) = total_resources E" using Suc.prems(4) w by simp
  from Suc.hyps(1) [OF len t1 b p lw, of "n + 1" "(k, int i)"] obtain s2 where
    r: "etf_rounds E (clock E c) (length ?q) (n + 1) ?q (k, int i) s1 = Some (n + 1 + length ?q, [], s2)" and
    rr: "(etf_step E (clock E c) ^^ length ?q) (?q, workers s1) ([], workers s2)" by blast
  have "(etf_step E (clock E c) ^^ length q) (q, workers s) ([], workers s2)"
    by (subst L) (rule relpowp_Suc_I2 [OF g rr])
  moreover have "etf_rounds E (clock E c) (Suc (length ?q)) n q m s = Some (n + Suc (length ?q), [], s2)"
    using e a r k assms(1) by (simp add: release_count_def Let_def del: length_append)
  ultimately show ?case using len Suc.hyps(2) by metis
qed

lemma etf_all:
  assumes "enable_queueing (cfg E)" "scheduler (cfg E) = ''ETF''"
    and t: "times_ok E A Y s" and "A + int (length q) * Y < LLONG_MAX"
    and "\<forall>t \<in> set q. placeable (workers s) t" "length (workers s) = total_resources E"
  shows "\<exists>s'. scheduleETF E q s = Some (length q, [], s') \<and>
    (etf_step E (clock E (ticks s)) ^^ length q) (q, workers s) ([], workers s')"
proof -
  let ?s = "s\<lparr>ticks := ticks s + 1\<rparr>"
  have "times_ok E A Y ?s" by (rule times_ok_later [OF t]) simp_all
  from etf_rounds_all [OF assms(1,2) times_ok_Y [OF t] this assms(4), of "ticks s" 0 "(0, 0)"] assms(5,6)
  show ?thesis by (simp add: scheduleETF_def)
qed

section \<open>A concrete runtime\<close>

definition plain_env :: "config \<Rightarrow> sched_env" where
  "plain_env c = \<lparr>cfg = c, clock = (\<lambda>n. 1000), name_of_app = (\<lambda>_. ''app''),
     std_sort = (\<lambda>key q. rev (sort_key key q)), std_shuffle = (\<lambda>_ q. rev q)\<rparr>"

lemma plain_env_ok: "env_ok (plain_env c)"
proof -
  have "sorted_wrt (\<lambda>a b. key b \<le> key a) (rev (sort_key key q))" for key :: "task_nodes \<Rightarrow> int" and q
    using sorted_sort_key [of key q] by (simp add: sorted_wrt_rev sorted_map)
  then show ?thesis by (simp add: env_ok_def plain_env_def)
qed

definition sample_cfg :: "string \<Rightarrow> bool \<Rightarrow> config" where
  "sample_cfg pol queueing = (ConfigManager False)\<lparr>
     resource_array := [1, 1, 0, 0, 0], scheduler := pol, enable_queueing := queueing,
     dash_exec_times := replicate 10 [100, 10, 0, 0, 0]\<rparr>"

definition mk_worker :: "string \<Rightarrow> resource_type \<Rightarrow> worker_thread" where
  "mk_worker name ty = \<lparr>todo_task_dequeue = [], completed_task_dequeue = [], running_task = None,
     resource_state = 0, resource_name = name, thread_resource_type = ty, resource_cluster_idx = 0,
     todo_dequeue_time = 0, thread_avail_time = 0\<rparr>"

definition sample_sched :: sched where
  "sample_sched = \<lparr>workers = [mk_worker ''cpu1'' cpu, mk_worker ''fft1'' fft], schedule_cache = Map.empty,
     rand_resource = 0, met_resource_idx = 0, free_resource_count = 2, ticks = 0\<rparr>"

definition fft_task :: "int \<Rightarrow> task_nodes" where
  "fft_task n = null_task\<lparr>task_name := ''DASH_FFT'', task_id := n,
     supported_resources := [True, True, False, False, False], run_funcs := [11, 12, 0, 0, 0]\<rparr>"

lemma sample_total [simp]: "total_resources (plain_env (sample_cfg p b)) = 2"
  by (simp add: total_resources_def plain_env_def sample_cfg_def getTotalResources_def)

lemma sample_simps [simp]:
  "enable_queueing (cfg (plain_env (sample_cfg p b))) = b" "scheduler (cfg (plain_env (sample_cfg p b))) = p"
  "length (workers sample_sched) = 2" "ticks sample_sched = 0"
  by (simp_all add: plain_env_def sample_cfg_def sample_sched_def)

lemma sample_exec: "getDashExecTime (cfg (plain_env (sample_cfg p b))) a r \<in> {0, 10, 100}"
  by (cases a; cases r) (simp_all add: getDashExecTime_def plain_env_def sample_cfg_def)

lemma sample_times: "times_ok (plain_env (sample_cfg p b)) 1000 100 sample_sched"
proof -
  have "0 \<le> getDashExecTime (cfg (plain_env (sample_cfg p b))) a r \<and>
      getDashExecTime (cfg (plain_env (sample_cfg p b))) a r \<le> 100" for a r
    using sample_exec [of p b a r] by auto
  then show ?thesis by (simp add: times_ok_def plain_env_def sample_sched_def mk_worker_def)
qed

lemma sample_placeable: "placeable (workers sample_sched) (fft_task n)"
  by (simp add: placeable_def supports_def sample_sched_def mk_worker_def fft_task_def)

section \<open>Properties\<close>

text \<open>
  C16: a scheduling round that continues is a run of the abstract machine: for some number
  \<open>n > 0\<close> of steps, each takes one ready task and appends it, labelled with the worker and its
  function, to the queue of a worker that supports it (and is idle, without queueing).
\<close>

theorem performScheduling_refines:
  assumes "env_ok E" and "performScheduling E q s = Some (Scheduled q' s')" and "q \<noteq> []"
  shows "\<exists>n>0. (dispatch (cfg E) ^^ n) (mset q, workers s) (mset q', workers s')"
proof -
  from performScheduling_round [OF assms(2,3)] obtain n where n: "0 < n" "run_policy E q s = Some (Some (n, q', s'))" .
  have "(case run_policy E q s of None \<Rightarrow> None | Some r \<Rightarrow> r) = Some (n, q', s')" using n(2) by simp
  from any_policy.refines [OF assms(1) this] n(1) show ?thesis by blast
qed

lemma sample_round: "\<exists>s'. performScheduling (plain_env (sample_cfg ''EFT'' True)) [fft_task 1, fft_task 2] sample_sched =
     Some (Scheduled [] s')"
proof -
  have "\<exists>s'. scheduleEFT (plain_env (sample_cfg ''EFT'' True)) [fft_task 1, fft_task 2] sample_sched =
      Some (length [fft_task 1, fft_task 2], [], s')"
    using eft_all [OF _ _ sample_times, of "''EFT''" True "[fft_task 1, fft_task 2]"] sample_placeable by fastforce
  then show ?thesis by (auto simp: performScheduling_def run_policy_def)
qed

theorem performScheduling_refines_witness:
  "\<exists>n>0. \<exists>s' :: sched. (dispatch (sample_cfg ''EFT'' True) ^^ n)
     (mset [fft_task 1, fft_task 2], workers sample_sched) (mset [], workers s')"
proof -
  from sample_round obtain s' where
    "performScheduling (plain_env (sample_cfg ''EFT'' True)) [fft_task 1, fft_task 2] sample_sched = Some (Scheduled [] s')"
    by blast
  from performScheduling_refines [OF plain_env_ok this] show ?thesis by (auto simp: plain_env_def simp del: relpowp.simps)
qed

text \<open>
  No scheduling round loses, invents or doubles a task. Up to the three fields an
  assignment fills in, the tasks in the ready queue and in the workers' queues are the same
  before and after; each worker keeps its queue and receives, behind it, tasks of a type it
  supports, labelled with it; without queueing a worker receives at most one task, and only
  when it was idle with empty queues.
\<close>

theorem performScheduling_conserves:
  assumes "env_ok E" and "performScheduling E q s = Some (Scheduled q' s')"
  shows "image_mset descr (mset q' + queued (workers s')) = image_mset descr (mset q + queued (workers s)) \<and>
    length (workers s') = length (workers s) \<and>
    (\<forall>i < length (workers s). \<exists>new. received (cfg E) (workers s ! i) (workers s' ! i) new)"
proof (cases "q = []")
  case True
  with assms(2) show ?thesis by (auto simp: performScheduling_def intro: received_refl)
next
  case False
  from performScheduling_round [OF assms(2) False] obtain n where "run_policy E q s = Some (Some (n, q', s'))" .
  then have "(case run_policy E q s of None \<Rightarrow> None | Some r \<Rightarrow> r) = Some (n, q', s')" by simp
  from any_policy.conserves [OF assms(1) this] any_policy.gives [OF assms(1) this] show ?thesis by auto
qed

theorem performScheduling_conserves_witness:
  "\<exists>s' :: sched. image_mset descr (queued (workers s')) = image_mset descr {#fft_task 1, fft_task 2#}"
proof -
  from sample_round obtain s' where
    "performScheduling (plain_env (sample_cfg ''EFT'' True)) [fft_task 1, fft_task 2] sample_sched = Some (Scheduled [] s')"
    by blast
  from performScheduling_conserves [OF plain_env_ok this]
  have "image_mset descr (queued (workers s')) = image_mset descr {#fft_task 1, fft_task 2#}"
    by (simp add: queued_def sample_sched_def mk_worker_def)
  then show ?thesis by blast
qed

text \<open>
  A round in which no worker may take any of the ready tasks (for instance, without
  queueing, while every worker is busy) never returns to the caller: it ends the process with
  status 1 or is undefined.
\<close>

theorem performScheduling_exits_when_stuck:
  assumes "env_ok E" and "q \<noteq> []" and "\<forall>t \<in> set q. \<forall>th \<in> set (workers s). \<not> may_take (cfg E) t th"
  shows "performScheduling E q s \<in> {None, Some (SchedExit 1)}"
proof (cases "performScheduling E q s")
  case None
  then show ?thesis by simp
next
  case (Some r)
  show ?thesis
  proof (cases r)
    case (SchedExit c)
    with Some assms(2) show ?thesis
      by (auto simp: performScheduling_def split: option.splits Option.bind_splits if_splits)
  next
    case (Scheduled q' s')
    with Some have "performScheduling E q s = Some (Scheduled q' s')" by simp
    from performScheduling_round [OF this assms(2)] obtain n where n: "0 < n" "run_policy E q s = Some (Some (n, q', s'))" .
    then have "(case run_policy E q s of None \<Rightarrow> None | Some r \<Rightarrow> r) = Some (n, q', s')" by simp
    from any_policy.refines [OF assms(1) this] n(1) obtain m where
      "(dispatch (cfg E) ^^ Suc m) (mset q, workers s) (mset q', workers s')" by (cases n) auto
    from relpowp_Suc_D2 [OF this] obtain y where "dispatch (cfg E) (mset q, workers s) y" by blast
    then obtain i t where "t \<in># mset q" "i < length (workers s)" "may_take (cfg E) t (workers s ! i)"
      by (cases rule: dispatch.cases) auto
    with assms(3) show ?thesis by auto
  qed
qed

theorem performScheduling_exits_when_stuck_witness:
  "performScheduling (plain_env (sample_cfg ''SIMPLE'' False)) [fft_task 1]
     (sample_sched\<lparr>workers := map (\<lambda>th. th\<lparr>resource_state := 1\<rparr>) (workers sample_sched)\<rparr>) = Some (SchedExit 1)"
proof -
  let ?s = "sample_sched\<lparr>workers := map (\<lambda>th. th\<lparr>resource_state := 1\<rparr>) (workers sample_sched)\<rparr>"
  have "performScheduling (plain_env (sample_cfg ''SIMPLE'' False)) [fft_task 1] ?s \<in> {None, Some (SchedExit 1)}"
    by (rule performScheduling_exits_when_stuck [OF plain_env_ok])
      (auto simp: may_take_def pe_busy_def)
  moreover have "performScheduling (plain_env (sample_cfg ''SIMPLE'' False)) [fft_task 1] ?s \<noteq> None"
    by code_simp
  ultimately show ?thesis by blast
qed



text \<open>
  With queueing, MET schedules every ready task in one round, in queue order, each on a
  worker whose type has the least execution time among the workers that support the task.
\<close>

theorem scheduleMET_least_type:
  assumes "enable_queueing (cfg E)" "scheduler (cfg E) = ''MET''"
    and "\<forall>t \<in> set q. placeable (workers s) t" "\<forall>a r. getDashExecTime (cfg E) a r < LLONG_MAX"
    and "length (workers s) = total_resources E" "unat (met_resource_idx s) < total_resources E"
  shows "\<exists>s'. scheduleMET E q s = Some (length q, [], s') \<and>
    (met_step E ^^ length q) (q, workers s) ([], workers s')"
  using met_all [of E s q] assms by (simp add: cycling_def)

theorem scheduleMET_least_type_witness:
  "\<exists>s'. scheduleMET (plain_env (sample_cfg ''MET'' True)) [fft_task 1] sample_sched = Some (1, [], s')"
proof -
  have "getDashExecTime (cfg (plain_env (sample_cfg ''MET'' True))) a r < LLONG_MAX" for a r
    using sample_exec [of "''MET''" True a r] by auto
  with scheduleMET_least_type [of "plain_env (sample_cfg ''MET'' True)" "[fft_task 1]" sample_sched] sample_placeable
  show ?thesis by (fastforce simp: sample_sched_def)
qed

text \<open>
  C22: with queueing and times that fit \<^verbatim>\<open>long long\<close>, EFT schedules every ready task in one
  round, in queue order, each on a worker on which it finishes first, taking into account the
  tasks given out before it.
\<close>

theorem scheduleEFT_earliest_finish:
  assumes "enable_queueing (cfg E)" "scheduler (cfg E) = ''EFT''"
    and "times_ok E A Y s" "A + int (length q) * Y < LLONG_MAX"
    and "\<forall>t \<in> set q. placeable (workers s) t" "length (workers s) = total_resources E"
  shows "\<exists>s'. scheduleEFT E q s = Some (length q, [], s') \<and>
    (greedy E (clock E (ticks s)) ^^ length q) (q, workers s) ([], workers s')"
  using assms by (rule eft_all)

theorem scheduleEFT_earliest_finish_witness:
  "\<exists>s'. scheduleEFT (plain_env (sample_cfg ''EFT'' True)) [fft_task 1, fft_task 2] sample_sched = Some (2, [], s')"
  using scheduleEFT_earliest_finish [OF _ _ sample_times, of "''EFT''" True "[fft_task 1, fft_task 2]"] sample_placeable
  by fastforce

text \<open>
  C23: with queueing and times that fit \<^verbatim>\<open>long long\<close>, HEFT_RT schedules every ready task in one
  round, in descending order of average execution time over the supported types, each on a
  worker on which it finishes first.
\<close>

theorem scheduleHEFT_RT_ranked:
  assumes "env_ok E" "enable_queueing (cfg E)" "scheduler (cfg E) = ''HEFT_RT''"
    and "times_ok E A Y s" "A + int (length q) * Y < LLONG_MAX"
    and "\<forall>t \<in> set q. placeable (workers s) t" "length (workers s) = total_resources E"
  shows "\<exists>p s'. mset p = mset q \<and> sorted_wrt (\<lambda>a b. avg_execution (cfg E) b \<le> avg_execution (cfg E) a) p \<and>
    scheduleHEFT_RT E q s = Some (length q, [], s') \<and>
    (greedy E (clock E (ticks s)) ^^ length q) (p, workers s) ([], workers s')"
  using assms by (rule heft_all)

theorem scheduleHEFT_RT_ranked_witness:
  "\<exists>s'. scheduleHEFT_RT (plain_env (sample_cfg ''HEFT_RT'' True)) [fft_task 1, fft_task 2] sample_sched = Some (2, [], s')"
  using scheduleHEFT_RT_ranked [OF plain_env_ok _ _ sample_times, of "''HEFT_RT''" True "[fft_task 1, fft_task 2]"]
    sample_placeable by fastforce

text \<open>
  C24: with queueing and times that fit \<^verbatim>\<open>long long\<close>, every round of ETF picks, among all ready
  tasks and all workers, a pair that finishes first, and one call schedules every ready task.
\<close>

theorem scheduleETF_earliest_pair:
  assumes "enable_queueing (cfg E)" "scheduler (cfg E) = ''ETF''"
    and "times_ok E A Y s" "A + int (length q) * Y < LLONG_MAX"
    and "\<forall>t \<in> set q. placeable (workers s) t" "length (workers s) = total_resources E"
  shows "\<exists>s'. scheduleETF E q s = Some (length q, [], s') \<and>
    (etf_step E (clock E (ticks s)) ^^ length q) (q, workers s) ([], workers s')"
  using assms by (rule etf_all)

theorem scheduleETF_earliest_pair_witness:
  "\<exists>s'. scheduleETF (plain_env (sample_cfg ''ETF'' True)) [fft_task 1, fft_task 2] sample_sched = Some (2, [], s')"
  using scheduleETF_earliest_pair [OF _ _ sample_times, of "''ETF''" True "[fft_task 1, fft_task 2]"] sample_placeable
  by fastforce

text \<open>
  A ready task for which no implementation is available makes HEFT_RT undefined: it is a
  division by zero in the comparator, or, alone in the queue, an access to worker \<open>-1\<close>.
\<close>

theorem scheduleHEFT_RT_unsupported_undefined:
  assumes "t \<in> set q" and "supported_types t = []" and "env_ok E"
  shows "scheduleHEFT_RT E q s = None"
proof (cases "2 \<le> length q")
  case True
  with assms show ?thesis by (auto simp: scheduleHEFT_RT_def heft_sort_def)
next
  case False
  with assms(1) have q: "q = [t]" by (cases q) (auto simp: Suc_le_eq)
  have "mset (std_sort E (avg_execution (cfg E)) [t]) = mset [t]" using assms(3) unfolding env_ok_def by blast
  then have sort: "heft_sort E q = Some [t]" using q by (simp add: heft_sort_def)
  have uns: "\<not> supports t th" for th
    using assms(2) all_resources_complete by (auto simp: supports_def supported_types_def filter_empty_conv)
  have skip: "heft_resource E now t s1 = Some r \<Longrightarrow> r = (- 1, LLONG_MAX)" for now s1 r
  proof -
    have "foreach is (\<lambda>i sel. do { th \<leftarrow> rd (workers s1) i; if \<not> supports t th then Some sel
       else do { eft \<leftarrow> finish_time (cfg E) now t th; Some (if eft < snd sel then (int i, eft) else sel) } }) x = Some r
       \<Longrightarrow> r = x" for "is" and x :: "int \<times> int"
      by (induction "is" arbitrary: x) (auto simp: uns split: Option.bind_splits)
    then show "heft_resource E now t s1 = Some r \<Longrightarrow> r = (- 1, LLONG_MAX)" by (simp add: heft_resource_def)
  qed
  have "do { sel \<leftarrow> heft_resource E now t s1; attemptToAssignTaskToPE E t (fst sel) s1 } = None" for now s1
    by (cases "heft_resource E now t s1") (auto dest!: skip simp: attemptToAssignTaskToPE_def worker_at_def)
  then show ?thesis by (simp add: scheduleHEFT_RT_def sort Let_def)
qed

theorem scheduleHEFT_RT_unsupported_undefined_witness:
  "scheduleHEFT_RT (plain_env (sample_cfg ''HEFT_RT'' True)) [null_task, fft_task 1] sample_sched = None"
  by (rule scheduleHEFT_RT_unsupported_undefined [where t = null_task])
    (simp_all add: plain_env_ok supported_types_def null_task_def all_resources_def)

end
