(* ===== verification/Workers.thy ===== *)
theory Workers
  imports Scheduler
begin

text \<open>
  The worker threads, \<^verbatim>\<open>src/src-api/threads.cpp\<close>: what \<^verbatim>\<open>initializeThreads\<close> and
  \<^verbatim>\<open>spawn_worker_thread\<close> set up, and the loop of \<^verbatim>\<open>hardware_thread\<close> as a state machine.

  The loop is cut where the thread takes and releases its lock: \<open>hw_pop\<close> under the lock,
  \<open>hw_run\<close> without it, \<open>hw_finish\<close> under it again; \<open>hw_idle\<close> is the empty-queue branch. The
  functions the tasks call live in loaded libraries: a call is recorded with its address and
  arguments, and what the barrier sees is its counter. Affinity, priorities, the performance
  counters and the log are left out.
\<close>

abbreviation (input) MAX_ARGS :: nat where "MAX_ARGS \<equiv> 20"

section \<open>Spawning\<close>

definition spawn_worker_thread :: "resource_type \<Rightarrow> u32 \<Rightarrow> worker_thread \<Rightarrow> worker_thread" where
  "spawn_worker_thread res_type cluster_idx th = th\<lparr>
     running_task := None,
     resource_state := 0,
     resource_name := resource_type_names ! res_num res_type @ to_string (unat (cluster_idx + 1)),
     thread_resource_type := res_type,
     resource_cluster_idx := cluster_idx,
     thread_avail_time := 0\<rparr>"

text \<open>The worker array before any thread is spawned: default-constructed queues and names.\<close>

definition fresh_worker :: worker_thread where
  "fresh_worker = \<lparr>todo_task_dequeue = [], completed_task_dequeue = [], running_task = None,
     resource_state = 0, resource_name = '''', thread_resource_type = cpu, resource_cluster_idx = 0,
     todo_dequeue_time = 0, thread_avail_time = 0\<rparr>"

definition spawn_next :: "resource_type \<Rightarrow> nat \<Rightarrow> nat \<times> worker_thread list \<Rightarrow> (nat \<times> worker_thread list) option" where
  "spawn_next r i = (\<lambda>(k, ws). do {
     th \<leftarrow> rd ws k;
     ws \<leftarrow> wr ws k (spawn_worker_thread r (of_nat i) th);
     Some (k + 1, ws) })"

definition initializeThreads :: "config \<Rightarrow> worker_thread list \<Rightarrow> worker_thread list option" where
  "initializeThreads c hardware_thread_handle = map_option snd
     (foreach all_resources (\<lambda>res_type. foreach [0..<unat (resource_array c ! res_num res_type)] (spawn_next res_type))
        (0, hardware_thread_handle))"

section \<open>The loop of a worker\<close>

datatype hw_pc = AtTop | Loaded task_nodes | Executed task_nodes | Terminated

record hw_thread =
  wt :: worker_thread
  hw_pc :: hw_pc
  run_args :: "addr list"

text \<open>What the threads of the process share: barrier counters, the calls made and the clock.\<close>

record shared =
  barriers :: "addr \<Rightarrow> u32"
  calls :: "(addr \<times> addr list) list"
  now_ts :: "nat \<Rightarrow> timespec"
  hw_ticks :: nat

definition hw_pop :: "hw_thread \<Rightarrow> hw_thread option" where
  "hw_pop h = (case todo_task_dequeue (wt h) of
     [] \<Rightarrow> None
   | task # rest \<Rightarrow> Some (h\<lparr>
       wt := (wt h)\<lparr>todo_task_dequeue := rest, running_task := Some task, resource_state := 1\<rparr>,
       hw_pc := Loaded task\<rparr>))"

text \<open>
  The argument array survives from task to task: cells behind the arguments (and behind the
  cluster index an accelerator gets) keep the values of earlier tasks.
\<close>

definition fill_args :: "worker_thread \<Rightarrow> addr list \<Rightarrow> addr list \<Rightarrow> addr list" where
  "fill_args th as ra = map (\<lambda>idx.
     if idx < length as then as ! idx
     else if idx = length as \<and> thread_resource_type th \<noteq> cpu then unat (resource_cluster_idx th)
     else ra ! idx) [0..<MAX_ARGS]"

definition hw_run :: "hw_thread \<times> shared \<Rightarrow> (hw_thread \<times> shared) option" where
  "hw_run = (\<lambda>(h, g). case hw_pc h of
     Loaded task \<Rightarrow>
       if MAX_ARGS \<le> length (args task) then Some (h\<lparr>hw_pc := Executed task\<rparr>, g)
       else
         let ra = fill_args (wt h) (args task) (run_args h);
             t1 = now_ts g (hw_ticks g);
             g = g\<lparr>calls := calls g @ [(actual_run_func task, ra)],
                   barriers := (barriers g)(kernel_barrier task := barriers g (kernel_barrier task) + 1)\<rparr>;
             t2 = now_ts g (hw_ticks g + 1);
             task = task\<lparr>start_ts := t1, end_ts := t2\<rparr>
         in Some (h\<lparr>wt := (wt h)\<lparr>running_task := Some task\<rparr>, hw_pc := Executed task, run_args := ra\<rparr>,
                  g\<lparr>hw_ticks := hw_ticks g + 2\<rparr>)
   | _ \<Rightarrow> None)"

definition hw_finish :: "hw_thread \<Rightarrow> hw_thread option" where
  "hw_finish h = (case hw_pc h of
     Executed task \<Rightarrow> Some (h\<lparr>
       wt := (wt h)\<lparr>completed_task_dequeue := completed_task_dequeue (wt h) @ [task], resource_state := 0\<rparr>,
       hw_pc := AtTop\<rparr>)
   | _ \<Rightarrow> None)"

definition hw_idle :: "hw_thread \<Rightarrow> hw_thread option" where
  "hw_idle h = (if todo_task_dequeue (wt h) = [] then
     Some (if resource_state (wt h) = 3 then h\<lparr>hw_pc := Terminated\<rparr> else h) else None)"

text \<open>One atomic step of the thread.\<close>

definition hw_step :: "hw_thread \<times> shared \<Rightarrow> (hw_thread \<times> shared) option" where
  "hw_step = (\<lambda>(h, g). case hw_pc h of
     AtTop \<Rightarrow> map_option (\<lambda>h. (h, g)) (if todo_task_dequeue (wt h) \<noteq> [] then hw_pop h else hw_idle h)
   | Loaded _ \<Rightarrow> hw_run (h, g)
   | Executed _ \<Rightarrow> map_option (\<lambda>h. (h, g)) (hw_finish h)
   | Terminated \<Rightarrow> None)"

primrec hw_steps :: "nat \<Rightarrow> hw_thread \<times> shared \<Rightarrow> (hw_thread \<times> shared) option" where
  "hw_steps 0 s = Some s"
| "hw_steps (Suc n) s = Option.bind (hw_step s) (hw_steps n)"

section \<open>The worker and the runtime thread together\<close>

text \<open>
  What the runtime thread does to a worker, each under the worker's lock: it appends tasks
  (scheduler), removes completed ones (harvest) and, when the worker is idle with an empty
  queue, asks it to terminate.
\<close>

inductive pe_step :: "hw_thread \<times> shared \<Rightarrow> hw_thread \<times> shared \<Rightarrow> bool" where
  worker: "hw_step (h, g) = Some (h', g') \<Longrightarrow> pe_step (h, g) (h', g')"
| assign: "resource_state (wt h) \<noteq> 3 \<Longrightarrow>
    pe_step (h, g) (h\<lparr>wt := (wt h)\<lparr>todo_task_dequeue := todo_task_dequeue (wt h) @ [t], thread_avail_time := a\<rparr>\<rparr>, g)"
| harvest: "completed_task_dequeue (wt h) = t # rest \<Longrightarrow>
    pe_step (h, g) (h\<lparr>wt := (wt h)\<lparr>completed_task_dequeue := rest\<rparr>\<rparr>, g)"
| stop: "todo_task_dequeue (wt h) = [] \<Longrightarrow> resource_state (wt h) = 0 \<Longrightarrow>
    pe_step (h, g) (h\<lparr>wt := (wt h)\<lparr>resource_state := 3\<rparr>\<rparr>, g)"

inductive_cases pe_stepE: "pe_step (h, g) (h', g')"

section \<open>Invariant\<close>

definition pe_ok :: "hw_thread \<Rightarrow> bool" where
  "pe_ok h \<longleftrightarrow> (case hw_pc h of
       AtTop \<Rightarrow> resource_state (wt h) = 0 \<or> resource_state (wt h) = 3 \<and> todo_task_dequeue (wt h) = []
     | Loaded t \<Rightarrow> resource_state (wt h) = 1 \<and> running_task (wt h) = Some t
     | Executed t \<Rightarrow> resource_state (wt h) = 1 \<and> running_task (wt h) = Some t
     | Terminated \<Rightarrow> resource_state (wt h) = 3 \<and> todo_task_dequeue (wt h) = []) \<and>
     length (run_args h) = MAX_ARGS"

text \<open>The tasks a worker holds: queued, in hand, and completed but not yet harvested.\<close>

definition in_hand :: "hw_thread \<Rightarrow> task_nodes list" where
  "in_hand h = (case hw_pc h of Loaded t \<Rightarrow> [t] | Executed t \<Rightarrow> [t] | _ \<Rightarrow> [])"

definition held :: "hw_thread \<Rightarrow> task_nodes list" where
  "held h = completed_task_dequeue (wt h) @ in_hand h @ todo_task_dequeue (wt h)"

text \<open>A task without the times of its execution.\<close>

definition untimed :: "task_nodes \<Rightarrow> task_nodes" where
  "untimed t = t\<lparr>start_ts := null_timespec, end_ts := null_timespec\<rparr>"

lemma length_fill_args [simp]: "length (fill_args th as ra) = 20"
  by (simp add: fill_args_def)

lemma untimed_times [simp]: "untimed (t\<lparr>start_ts := a, end_ts := b\<rparr>) = untimed t"
  by (simp add: untimed_def)

lemmas hw_step_defs = hw_step_def hw_pop_def hw_run_def hw_finish_def hw_idle_def

lemma hw_step_ok:
  assumes "pe_ok h" "hw_step (h, g) = Some (h', g')"
  shows "pe_ok h'"
  using assms by (auto simp: hw_step_defs pe_ok_def Let_def split: hw_pc.splits list.splits if_splits)

text \<open>A step of the worker keeps what it holds, in the same order.\<close>

lemma hw_step_held:
  assumes "hw_step (h, g) = Some (h', g')"
  shows "map untimed (held h') = map untimed (held h)"
  using assms
  by (auto simp: hw_step_defs held_def in_hand_def Let_def split: hw_pc.splits list.splits if_splits)

lemma pe_step_ok:
  assumes "pe_step s s'" "pe_ok (fst s)"
  shows "pe_ok (fst s')"
  using assms
proof (induction rule: pe_step.induct)
  case (worker h g h' g')
  then show ?case using hw_step_ok by simp
qed (auto simp: pe_ok_def split: hw_pc.splits)

definition spawned :: "worker_thread \<Rightarrow> hw_thread" where
  "spawned th = \<lparr>wt = th, hw_pc = AtTop, run_args = replicate MAX_ARGS 0\<rparr>"

lemma pe_steps_ok:
  assumes "pe_step\<^sup>*\<^sup>* (spawned th, g) s" "resource_state th = 0"
  shows "pe_ok (fst s)"
  using assms(1)
proof (induction rule: rtranclp_induct)
  case base
  then show ?case using assms(2) by (simp add: pe_ok_def spawned_def)
next
  case (step s s')
  then show ?case using pe_step_ok by blast
qed

section \<open>Progress\<close>

definition callable :: "task_nodes \<Rightarrow> bool" where
  "callable t \<longleftrightarrow> length (args t) < MAX_ARGS"

lemma hw_steps_add: "hw_steps (m + n) s = Option.bind (hw_steps m s) (hw_steps n)"
  by (induction m arbitrary: s) (auto split: Option.bind_splits)

text \<open>Three steps take the first queued task from the queue to the completed tasks.\<close>

lemma hw_three_steps:
  assumes "hw_pc h = AtTop" "todo_task_dequeue (wt h) = t # q"
  shows "\<exists>h' g' cs. hw_steps 3 (h, g) = Some (h', g') \<and> hw_pc h' = AtTop \<and> resource_state (wt h') = 0 \<and>
    todo_task_dequeue (wt h') = q \<and>
    map untimed (completed_task_dequeue (wt h')) = map untimed (completed_task_dequeue (wt h) @ [t]) \<and>
    calls g' = calls g @ cs \<and>
    list_all2 (\<lambda>t (f, ra). f = actual_run_func t \<and> take (length (args t)) ra = args t)
      (filter callable [t]) cs \<and>
    barriers g' = (if callable t then (barriers g)(kernel_barrier t := barriers g (kernel_barrier t) + 1) else barriers g)"
proof -
  have "take (length (args t)) (fill_args th (args t) ra) = args t" if "callable t" for th ra
    using that by (intro nth_equalityI) (auto simp: callable_def fill_args_def)
  with assms show ?thesis
    by (auto simp: numeral_3_eq_3 hw_step_defs callable_def Let_def)
qed

lemma hw_drain:
  assumes "hw_pc h = AtTop" "todo_task_dequeue (wt h) = q" "q = [] \<Longrightarrow> resource_state (wt h) = 0"
  shows "\<exists>h' g' cs. hw_steps (3 * length q) (h, g) = Some (h', g') \<and> hw_pc h' = AtTop \<and> resource_state (wt h') = 0 \<and>
    todo_task_dequeue (wt h') = [] \<and>
    map untimed (completed_task_dequeue (wt h')) = map untimed (completed_task_dequeue (wt h) @ q) \<and>
    calls g' = calls g @ cs \<and>
    list_all2 (\<lambda>t (f, ra). f = actual_run_func t \<and> take (length (args t)) ra = args t) (filter callable q) cs \<and>
    (\<forall>b. barriers g' b = barriers g b + of_nat (length (filter (\<lambda>t. callable t \<and> kernel_barrier t = b) q)))"
  using assms
proof (induction q arbitrary: h g)
  case Nil
  then show ?case by simp
next
  case (Cons t q)
  from hw_three_steps [OF Cons.prems(1,2)] obtain h1 g1 cs1 where
    1: "hw_steps 3 (h, g) = Some (h1, g1)" "hw_pc h1 = AtTop" "resource_state (wt h1) = 0" "todo_task_dequeue (wt h1) = q"
      "map untimed (completed_task_dequeue (wt h1)) = map untimed (completed_task_dequeue (wt h) @ [t])"
      "calls g1 = calls g @ cs1"
      "list_all2 (\<lambda>t (f, ra). f = actual_run_func t \<and> take (length (args t)) ra = args t) (filter callable [t]) cs1"
      "barriers g1 = (if callable t then (barriers g)(kernel_barrier t := barriers g (kernel_barrier t) + 1) else barriers g)"
    by blast
  from Cons.IH [OF 1(2,4)] 1(3) obtain h2 g2 cs2 where
    2: "hw_steps (3 * length q) (h1, g1) = Some (h2, g2)" "hw_pc h2 = AtTop" "resource_state (wt h2) = 0"
      "todo_task_dequeue (wt h2) = []"
      "map untimed (completed_task_dequeue (wt h2)) = map untimed (completed_task_dequeue (wt h1) @ q)"
      "calls g2 = calls g1 @ cs2"
      "list_all2 (\<lambda>t (f, ra). f = actual_run_func t \<and> take (length (args t)) ra = args t) (filter callable q) cs2"
      "\<forall>b. barriers g2 b = barriers g1 b + of_nat (length (filter (\<lambda>t. callable t \<and> kernel_barrier t = b) q))"
    by blast
  have "hw_steps (3 + 3 * length q) (h, g) = Some (h2, g2)"
    unfolding hw_steps_add using 1(1) 2(1) by simp
  moreover have "list_all2 (\<lambda>t (f, ra). f = actual_run_func t \<and> take (length (args t)) ra = args t)
      (filter callable [t] @ filter callable q) (cs1 @ cs2)"
    using 1(7) 2(7) by (rule list_all2_appendI)
  moreover have "filter callable [t] @ filter callable q = filter callable (t # q)" by simp
  moreover have "barriers g2 b = barriers g b + of_nat (length (filter (\<lambda>t. callable t \<and> kernel_barrier t = b) (t # q)))" for b
    using 2(8) 1(8) by (simp add: algebra_simps)
  ultimately show ?case using 1(5,6) 2(2-6) by (intro exI [of _ h2] exI [of _ g2] exI [of _ "cs1 @ cs2"]) simp
qed

section \<open>The spawned workers\<close>

text \<open>The workers of one type: \<open>n\<close> consecutive cells.\<close>

lemma spawn_type:
  assumes "k + n \<le> length ws"
  shows "foreach [0..<n] (spawn_next r) (k, ws) =
    Some (k + n, take k ws @ map (\<lambda>i. spawn_worker_thread r (of_nat i) (ws ! (k + i))) [0..<n] @ drop (k + n) ws)"
  using assms
proof (induction n)
  case 0
  then show ?case by simp
next
  case (Suc n)
  let ?new = "map (\<lambda>i. spawn_worker_thread r (of_nat i) (ws ! (k + i))) [0..<n]"
  have d: "drop (k + n) ws = ws ! (k + n) # drop (Suc (k + n)) ws"
    using Suc.prems by (simp add: Cons_nth_drop_Suc)
  have "spawn_next r n (k + n, take k ws @ ?new @ drop (k + n) ws) =
    Some (Suc (k + n), take k ws @ (?new @ [spawn_worker_thread r (of_nat n) (ws ! (k + n))]) @ drop (Suc (k + n)) ws)"
    using Suc.prems by (simp add: spawn_next_def d nth_append list_update_append)
  with Suc show ?case by simp
qed

lemma spawn_types:
  assumes "k + sum_list (map cnt rs) \<le> length ws"
  shows "\<exists>ws'. foreach rs (\<lambda>r. foreach [0..<cnt r] (spawn_next r)) (k, ws) = Some (k + sum_list (map cnt rs), ws') \<and>
    length ws' = length ws \<and> take k ws' = take k ws \<and>
    map thread_resource_type (take (sum_list (map cnt rs)) (drop k ws')) = concat (map (\<lambda>r. replicate (cnt r) r) rs) \<and>
    (\<forall>th \<in> set (take (sum_list (map cnt rs)) (drop k ws')). resource_state th = 0 \<and> thread_avail_time th = 0 \<and> running_task th = None)"
  using assms
proof (induction rs arbitrary: k ws)
  case Nil
  then show ?case by simp
next
  case (Cons r rs)
  let ?new = "map (\<lambda>i. spawn_worker_thread r (of_nat i) (ws ! (k + i))) [0..<cnt r]"
  let ?ws1 = "take k ws @ ?new @ drop (k + cnt r) ws"
  have k: "k + cnt r \<le> length ws" using Cons.prems by simp
  then have len: "length ?ws1 = length ws" by simp
  have "k + cnt r + sum_list (map cnt rs) \<le> length ?ws1" using Cons.prems len by simp
  from Cons.IH [OF this] obtain ws2 where
    2: "foreach rs (\<lambda>r. foreach [0..<cnt r] (spawn_next r)) (k + cnt r, ?ws1) = Some (k + cnt r + sum_list (map cnt rs), ws2)"
      "length ws2 = length ?ws1" "take (k + cnt r) ws2 = take (k + cnt r) ?ws1"
      "map thread_resource_type (take (sum_list (map cnt rs)) (drop (k + cnt r) ws2)) = concat (map (\<lambda>r. replicate (cnt r) r) rs)"
      "\<forall>th \<in> set (take (sum_list (map cnt rs)) (drop (k + cnt r) ws2)). resource_state th = 0 \<and> thread_avail_time th = 0 \<and> running_task th = None"
    by blast
  have t: "take (k + cnt r) ws2 = take k ws @ ?new" using 2(3) k by simp
  moreover have "take k ws2 = take k (take (k + cnt r) ws2)" by (simp add: min_def)
  ultimately have v: "take k ws2 = take k ws" using k by simp
  have u: "take (cnt r) (drop k ws2) = ?new"
  proof -
    have "take (cnt r) (drop k ws2) = drop k (take (k + cnt r) ws2)" by (simp add: drop_take)
    then show ?thesis using t k by simp
  qed
  have s: "take (cnt r + sum_list (map cnt rs)) (drop k ws2) = ?new @ take (sum_list (map cnt rs)) (drop (k + cnt r) ws2)"
    by (simp only: take_add drop_drop add.commute [of "cnt r" k] u)
  have "map thread_resource_type ?new = replicate (cnt r) r"
    by (simp add: spawn_worker_thread_def comp_def map_replicate_const)
  moreover have "\<forall>th \<in> set ?new. resource_state th = 0 \<and> thread_avail_time th = 0 \<and> running_task th = None"
    by (auto simp: spawn_worker_thread_def)
  moreover have "foreach (r # rs) (\<lambda>r. foreach [0..<cnt r] (spawn_next r)) (k, ws) = Some (k + sum_list (map cnt (r # rs)), ws2)"
    using 2(1) spawn_type [OF k] by (simp add: add.assoc)
  ultimately show ?case using 2(2,4,5) len u v s by (intro exI [of _ ws2]) auto
qed

section \<open>Properties\<close>

text \<open>
  For every configured count there are that many workers of the type, in the order of the
  enumeration, all idle and available.
\<close>

theorem initializeThreads_workers:
  assumes "length ws = (\<Sum>r\<leftarrow>all_resources. unat (resource_array c ! res_num r))"
  shows "\<exists>ws'. initializeThreads c ws = Some ws' \<and> length ws' = length ws \<and>
    map thread_resource_type ws' = concat (map (\<lambda>r. replicate (unat (resource_array c ! res_num r)) r) all_resources) \<and>
    (\<forall>th \<in> set ws'. resource_state th = 0 \<and> thread_avail_time th = 0 \<and> running_task th = None)"
proof -
  let ?cnt = "\<lambda>r. unat (resource_array c ! res_num r)"
  have "0 + sum_list (map ?cnt all_resources) \<le> length ws" using assms by simp
  from spawn_types [OF this] obtain ws' where
    w: "foreach all_resources (\<lambda>r. foreach [0..<?cnt r] (spawn_next r)) (0, ws) = Some (0 + sum_list (map ?cnt all_resources), ws')"
    "length ws' = length ws"
    "map thread_resource_type (take (sum_list (map ?cnt all_resources)) (drop 0 ws')) = concat (map (\<lambda>r. replicate (?cnt r) r) all_resources)"
    "\<forall>th \<in> set (take (sum_list (map ?cnt all_resources)) (drop 0 ws')). resource_state th = 0 \<and> thread_avail_time th = 0 \<and> running_task th = None"
    by blast
  have "initializeThreads c ws = Some ws'" using w(1) by (simp add: initializeThreads_def)
  with w assms show ?thesis by auto
qed

theorem initializeThreads_workers_witness:
  "\<exists>ws'. initializeThreads (ConfigManager True) (replicate 5 fresh_worker) = Some ws' \<and>
     map thread_resource_type ws' = [cpu, cpu, cpu, fft, mmult]"
proof -
  have "length (replicate 5 fresh_worker) =
      (\<Sum>r\<leftarrow>all_resources. unat (resource_array (ConfigManager True) ! res_num r))"
    by (simp add: all_resources_def ConfigManager_def)
  moreover have "concat (map (\<lambda>r. replicate (unat (resource_array (ConfigManager True) ! res_num r)) r) all_resources) =
      [cpu, cpu, cpu, fft, mmult]" by code_simp
  ultimately show ?thesis using initializeThreads_workers [of "replicate 5 fresh_worker" "ConfigManager True"] by metis
qed


definition sample_shared :: shared where
  "sample_shared = \<lparr>barriers = (\<lambda>_. 0), calls = [], now_ts = (\<lambda>n. \<lparr>tv_sec = 0, tv_nsec = int n\<rparr>), hw_ticks = 0\<rparr>"

definition sample_task :: "nat \<Rightarrow> addr list \<Rightarrow> task_nodes" where
  "sample_task b as = null_task\<lparr>args := as, kernel_barrier := b, actual_run_func := 77\<rparr>"


text \<open>
  A task with 20 arguments or more is reported as completed although it never ran: after
  its three steps the worker is idle again, the task is among the completed ones, and no
  barrier has been signalled, so the application that waits for it waits forever.
\<close>

theorem oversized_task_never_signals:
  assumes "hw_pc h = AtTop" "todo_task_dequeue (wt h) = [t]" "MAX_ARGS \<le> length (args t)"
  shows "\<exists>h' g'. hw_steps 3 (h, g) = Some (h', g') \<and> hw_pc h' = AtTop \<and> resource_state (wt h') = 0 \<and>
    map untimed (completed_task_dequeue (wt h')) = map untimed (completed_task_dequeue (wt h) @ [t]) \<and>
    calls g' = calls g \<and> barriers g' = barriers g"
  using hw_three_steps [OF assms(1,2), of g] assms(3) by (auto simp: callable_def)

theorem oversized_task_never_signals_witness:
  "\<exists>h' g'. hw_steps 3 (spawned (fresh_worker\<lparr>todo_task_dequeue := [sample_task 5 (replicate 20 1)]\<rparr>), sample_shared)
     = Some (h', g') \<and> barriers g' 5 = 0"
  using oversized_task_never_signals [of "spawned (fresh_worker\<lparr>todo_task_dequeue := [sample_task 5 (replicate 20 1)]\<rparr>)"
      "sample_task 5 (replicate 20 1)" sample_shared]
  by (auto simp: spawned_def sample_shared_def sample_task_def)

text \<open>
  C25: however the worker and the runtime thread interleave, a worker is busy exactly while it
  has a task in hand, and one that has been stopped or has terminated holds no task in its
  queue or in hand: the shutdown handshake loses none.
\<close>

theorem worker_shutdown_safe:
  assumes "pe_step\<^sup>*\<^sup>* (spawned th, g) (h, g')" "resource_state th = 0"
  shows "(resource_state (wt h) = 1 \<longleftrightarrow> in_hand h \<noteq> []) \<and>
    (resource_state (wt h) = 3 \<or> hw_pc h = Terminated \<longrightarrow> todo_task_dequeue (wt h) = [] \<and> in_hand h = [])"
  using pe_steps_ok [OF assms] by (auto simp: pe_ok_def in_hand_def split: hw_pc.splits)

theorem worker_shutdown_safe_witness:
  "\<exists>h g'. pe_step\<^sup>*\<^sup>* (spawned fresh_worker, sample_shared) (h, g') \<and> hw_pc h = Terminated \<and> in_hand h = []"
proof -
  let ?h1 = "(spawned fresh_worker)\<lparr>wt := fresh_worker\<lparr>resource_state := 3\<rparr>\<rparr>"
  let ?h2 = "?h1\<lparr>hw_pc := Terminated\<rparr>"
  have "pe_step (spawned fresh_worker, sample_shared) (?h1, sample_shared)"
    using pe_step.stop [of "spawned fresh_worker" sample_shared] by (simp add: spawned_def fresh_worker_def)
  moreover have "pe_step (?h1, sample_shared) (?h2, sample_shared)"
    by (rule pe_step.worker) (simp add: hw_step_def hw_idle_def spawned_def fresh_worker_def)
  ultimately have *: "pe_step\<^sup>*\<^sup>* (spawned fresh_worker, sample_shared) (?h2, sample_shared)" by auto
  have "in_hand ?h2 = []"
    using worker_shutdown_safe [OF *] by (simp add: fresh_worker_def)
  with * show ?thesis by (intro exI [of _ ?h2] exI [of _ sample_shared]) simp
qed

end
