(* ===== verification/Ipc.thy ===== *)
theory Ipc
  imports Prelude
begin

text \<open>
  The submission channel of the API runtime: \<^verbatim>\<open>src/src-api/ipc.cpp\<close> (one message slot in shared
  memory, guarded by a semaphore), the submitting programs \<^verbatim>\<open>sub_dag.cpp\<close> and
  \<^verbatim>\<open>kill_daemon.cpp\<close>, and the part of the daemon that reads the slots of a message.

  The message structure lies at the start of the mapped page. Its two-dimensional path array
  is one run of \<open>8 * 256\<close> characters, as in memory. System calls may fail: \<open>ok c\<close> says whether
  call \<open>c\<close> succeeds, and the branches that end the process return the exit status. The
  accesses between \<^verbatim>\<open>sem_wait\<close> and \<^verbatim>\<open>sem_post\<close> are one atomic operation on the page.
\<close>

section \<open>Messages\<close>

abbreviation (input) IPC_MAX_APPS :: nat where "IPC_MAX_APPS \<equiv> 8"
abbreviation (input) IPC_MAX_PATH_LEN :: nat where "IPC_MAX_PATH_LEN \<equiv> 256"

definition NUL :: char where "NUL = CHR 0x00"

datatype cmd_types = NOPE | SH_OBJ | SERVER_EXIT

definition CMD_SLOT0_FREE :: string where "CMD_SLOT0_FREE = ''SLOT0_FREE''"
definition CMD_SLOT0_BUSY :: string where "CMD_SLOT0_BUSY = ''SLOT0_BUSY''"
definition CMD_TERMINATE :: string where "CMD_TERMINATE = ''TERMINATE''"

record ipc_message =
  CMD :: string
  path_to_so :: string
  num_instances :: "64 word list"
  periodicity :: "64 word list"

text \<open>The structure \<^verbatim>\<open>calloc\<close> returns; \<^verbatim>\<open>malloc\<close> leaves arbitrary contents of the same shape.\<close>

definition zero_message :: ipc_message where
  "zero_message = \<lparr>CMD = replicate 12 NUL, path_to_so = replicate (IPC_MAX_APPS * IPC_MAX_PATH_LEN) NUL,
     num_instances = replicate IPC_MAX_APPS 0, periodicity = replicate IPC_MAX_APPS 0\<rparr>"

definition message_wf :: "ipc_message \<Rightarrow> bool" where
  "message_wf m \<longleftrightarrow> length (CMD m) = 12 \<and> length (path_to_so m) = IPC_MAX_APPS * IPC_MAX_PATH_LEN \<and>
     length (num_instances m) = IPC_MAX_APPS \<and> length (periodicity m) = IPC_MAX_APPS"

text \<open>\<^verbatim>\<open>memcpy\<close> of a command string with its terminator, and \<^verbatim>\<open>memcmp\<close> against it.\<close>

definition set_cmd :: "string \<Rightarrow> ipc_message \<Rightarrow> ipc_message" where
  "set_cmd s m = m\<lparr>CMD := (s @ [NUL]) @ drop (length s + 1) (CMD m)\<rparr>"

definition cmd_is :: "string \<Rightarrow> ipc_message \<Rightarrow> bool" where
  "cmd_is s m \<longleftrightarrow> take (length s + 1) (CMD m) = s @ [NUL]"

record ipc_page =
  slot :: ipc_message
  sem_value :: nat
  linked :: bool

record process_ipc =
  cmd_type :: cmd_types
  message :: ipc_message

section \<open>The server\<close>

datatype ipc_call = SemUnlink | SemOpen | ShmUnlink | ShmOpen | Ftruncate | Mmap | SemWait | SemPost
  | SemClose | Munmap

definition mark_slot_free :: "ipc_page \<Rightarrow> ipc_page" where
  "mark_slot_free p = p\<lparr>slot := set_cmd CMD_SLOT0_FREE (slot p)\<rparr>"

text \<open>Failing to remove an old semaphore or segment is reported and ignored.\<close>

definition initialize_sh_mem_server :: "(ipc_call \<Rightarrow> bool) \<Rightarrow> process_ipc \<Rightarrow> int + process_ipc \<times> ipc_page" where
  "initialize_sh_mem_server ok ipc_cmd =
     (let ipc_cmd = ipc_cmd\<lparr>cmd_type := NOPE\<rparr>
      in if \<not> ok SemOpen then Inl 0
         else if \<not> ok ShmOpen then Inl 0
         else if \<not> ok Ftruncate then Inl 0
         else if \<not> ok Mmap then Inl 0
         else if \<not> ok SemWait then Inl 0
         else
           let page = mark_slot_free \<lparr>slot = zero_message, sem_value = 1, linked = True\<rparr>
           in if \<not> ok SemPost then Inl 0 else Inr (ipc_cmd, page))"

definition sh_mem_server_process_cmd :: "(ipc_call \<Rightarrow> bool) \<Rightarrow> process_ipc \<Rightarrow> ipc_page \<Rightarrow> int + process_ipc \<times> ipc_page" where
  "sh_mem_server_process_cmd ok ipc_cmd p =
     (if sem_value p = 0 then Inr (ipc_cmd, p)
      else if cmd_is CMD_SLOT0_BUSY (slot p) then
        let ipc_cmd = ipc_cmd\<lparr>message := slot p, cmd_type := SH_OBJ\<rparr>;
            p = mark_slot_free p
        in if ok SemPost then Inr (ipc_cmd, p) else Inl 0
      else if cmd_is CMD_TERMINATE (slot p) then
        let p = mark_slot_free p
        in if ok SemPost \<and> ok SemClose \<and> ok Munmap \<and> ok ShmUnlink \<and> ok SemUnlink
           then Inr (ipc_cmd\<lparr>cmd_type := SERVER_EXIT\<rparr>, p\<lparr>linked := False\<rparr>) else Inl 0
      else if ok SemPost then Inr (ipc_cmd, p) else Inl 0)"

section \<open>The clients\<close>

text \<open>
  One round of the client's loop: under the semaphore it copies its message into the slot when
  the slot is free. The loop repeats until that happens.
\<close>

definition client_round :: "ipc_message \<Rightarrow> ipc_page \<Rightarrow> bool \<times> ipc_page" where
  "client_round m p = (if cmd_is CMD_SLOT0_FREE (slot p) then (True, p\<lparr>slot := m\<rparr>) else (False, p))"

fun client_rounds :: "(ipc_call \<Rightarrow> bool) \<Rightarrow> ipc_message \<Rightarrow> ipc_page list \<Rightarrow> (int + ipc_page) option" where
  "client_rounds ok m [] = None"
| "client_rounds ok m (p # ps) =
     (if \<not> ok SemWait then Some (Inl 0)
      else let (flag_cmd_status, p) = client_round m p
           in if flag_cmd_status then Some (Inr p) else client_rounds ok m ps)"

text \<open>
  \<open>ps\<close> are the contents of the page in the successive rounds; the result is \<open>None\<close> while the
  client still waits.
\<close>

definition initialize_sh_mem_client :: "(ipc_call \<Rightarrow> bool) \<Rightarrow> ipc_message \<Rightarrow> ipc_page list \<Rightarrow> (int + ipc_page) option" where
  "initialize_sh_mem_client ok m ps =
     (if \<not> ok SemOpen then Some (Inl 0)
      else if \<not> ok ShmOpen then Some (Inl 0)
      else if \<not> ok Mmap then Some (Inl 0)
      else client_rounds ok m ps)"

text \<open>The message of \<^verbatim>\<open>kill_daemon\<close>; everything behind the command is uninitialised.\<close>

definition kill_daemon_message :: "ipc_message \<Rightarrow> ipc_message" where
  "kill_daemon_message garbage = set_cmd CMD_TERMINATE garbage"

text \<open>
  The message of \<^verbatim>\<open>sub_dag\<close> from its parsed options. The checks and \<^verbatim>\<open>std::vector::at\<close> give an
  error; a \<^verbatim>\<open>memcpy\<close> that leaves the path array is undefined. \<^verbatim>\<open>member_size\<close> of the
  two-dimensional array is the size of all eight rows.
\<close>

datatype sub_error = Usage | OutOfRangeException

definition fill_slot :: "string list \<Rightarrow> 64 word list \<Rightarrow> 64 word list \<Rightarrow> nat \<Rightarrow> ipc_message \<Rightarrow> (sub_error + ipc_message) option" where
  "fill_slot soPaths numInstances period i m =
     (if period \<noteq> [] \<and> length period \<le> i then Some (Inl OutOfRangeException)
      else
        let soPath = soPaths ! i;
            frequency = (if period \<noteq> [] then period ! i else 0);
            off = i * IPC_MAX_PATH_LEN
        in if off + length soPath \<le> length (path_to_so m) then Some (Inr (m\<lparr>
             path_to_so := take off (path_to_so m) @ soPath @ drop (off + length soPath) (path_to_so m),
             num_instances := (num_instances m)[i := numInstances ! i],
             periodicity := (periodicity m)[i := frequency]\<rparr>))
           else None)"

fun fill_slots :: "string list \<Rightarrow> 64 word list \<Rightarrow> 64 word list \<Rightarrow> nat list \<Rightarrow> ipc_message \<Rightarrow> (sub_error + ipc_message) option" where
  "fill_slots soPaths numInstances period [] m = Some (Inr m)"
| "fill_slots soPaths numInstances period (i # is) m =
     (case fill_slot soPaths numInstances period i m of
        Some (Inr m) \<Rightarrow> fill_slots soPaths numInstances period is m
      | r \<Rightarrow> r)"

definition sub_dag_message :: "string list \<Rightarrow> 64 word list \<Rightarrow> 64 word list \<Rightarrow> (sub_error + ipc_message) option" where
  "sub_dag_message soPaths numInstances period =
     (if soPaths = [] then Some (Inl Usage)
      else if IPC_MAX_APPS < length soPaths then Some (Inl Usage)
      else if length soPaths \<noteq> length numInstances then Some (Inl Usage)
      else if \<exists>soPath \<in> set soPaths. IPC_MAX_APPS * IPC_MAX_PATH_LEN < length soPath then Some (Inl Usage)
      else fill_slots soPaths numInstances period [0..<length soPaths] (set_cmd CMD_SLOT0_BUSY zero_message))"

section \<open>What the daemon reads\<close>

text \<open>\<^verbatim>\<open>strlen\<close> and the string constructor read up to the first terminator behind the row's start.\<close>

definition c_string :: "string \<Rightarrow> nat \<Rightarrow> string" where
  "c_string mem off = takeWhile (\<lambda>c. c \<noteq> NUL) (drop off mem)"

fun read_slots :: "ipc_message \<Rightarrow> nat list \<Rightarrow> (string \<times> 64 word \<times> 64 word) list" where
  "read_slots m [] = []"
| "read_slots m (appIdx # is) =
     (let pathToSO = c_string (path_to_so m) (appIdx * IPC_MAX_PATH_LEN)
      in if pathToSO = [] then []
         else (pathToSO, num_instances m ! appIdx, periodicity m ! appIdx) # read_slots m is)"

section \<open>The channel as a system\<close>

text \<open>
  \<open>posted\<close> records the messages the clients have put into the slot and \<open>taken\<close> those the server
  has consumed, in order. The semaphore is free between the operations.
\<close>

record channel =
  page :: ipc_page
  server :: process_ipc
  posted :: "ipc_message list"
  taken :: "ipc_message list"

inductive chan_step :: "channel \<Rightarrow> channel \<Rightarrow> bool" where
  client: "message_wf m \<Longrightarrow> cmd_is CMD_SLOT0_BUSY m \<or> cmd_is CMD_TERMINATE m \<Longrightarrow> linked (page c) \<Longrightarrow>
      client_round m (page c) = (b, p) \<Longrightarrow>
    chan_step c (c\<lparr>page := p, posted := (if b then posted c @ [m] else posted c)\<rparr>)"
| server: "linked (page c) \<Longrightarrow> sh_mem_server_process_cmd ok (server c) (page c) = Inr (s, p) \<Longrightarrow>
    chan_step c (c\<lparr>page := p, server := s,
      taken := (if sem_value (page c) \<noteq> 0 \<and> (cmd_is CMD_SLOT0_BUSY (slot (page c)) \<or> cmd_is CMD_TERMINATE (slot (page c)))
                then taken c @ [slot (page c)] else taken c)\<rparr>)"

section \<open>The channel delivers in order\<close>

lemmas cmd_defs = CMD_SLOT0_FREE_def CMD_SLOT0_BUSY_def CMD_TERMINATE_def NUL_def

lemma set_cmd_wf: "message_wf m \<Longrightarrow> length s < 12 \<Longrightarrow> message_wf (set_cmd s m)"
  by (simp add: message_wf_def set_cmd_def)

lemma cmd_is_set_cmd: "cmd_is s (set_cmd s m)"
  by (simp add: cmd_is_def set_cmd_def)

lemma cmd_free_not_busy: "cmd_is CMD_SLOT0_FREE m \<Longrightarrow> \<not> cmd_is CMD_SLOT0_BUSY m"
  by (auto simp: cmd_is_def cmd_defs)

lemma cmd_free_not_terminate: "cmd_is CMD_SLOT0_FREE m \<Longrightarrow> \<not> cmd_is CMD_TERMINATE m"
  by (cases "CMD m") (auto simp: cmd_is_def cmd_defs)

definition chan_ok :: "channel \<Rightarrow> bool" where
  "chan_ok c \<longleftrightarrow> message_wf (slot (page c)) \<and> sem_value (page c) = 1 \<and>
     (if cmd_is CMD_SLOT0_FREE (slot (page c)) then posted c = taken c
      else (cmd_is CMD_SLOT0_BUSY (slot (page c)) \<or> cmd_is CMD_TERMINATE (slot (page c))) \<and>
        posted c = taken c @ [slot (page c)])"

lemma mark_slot_free_ok:
  assumes "message_wf (slot p)"
  shows "message_wf (slot (mark_slot_free p))" "cmd_is CMD_SLOT0_FREE (slot (mark_slot_free p))"
    "sem_value (mark_slot_free p) = sem_value p"
  using assms set_cmd_wf [of "slot p" CMD_SLOT0_FREE] cmd_is_set_cmd
  by (simp_all add: mark_slot_free_def CMD_SLOT0_FREE_def)

lemma chan_step_ok:
  assumes "chan_step c c'" "chan_ok c"
  shows "chan_ok c'"
  using assms
proof (induction rule: chan_step.induct)
  case (client m c b p)
  then show ?case
    using cmd_free_not_busy [of m] cmd_free_not_terminate [of m]
    by (auto simp: chan_ok_def client_round_def split: if_splits)
next
  case (server c ok s p)
  then show ?case
    using mark_slot_free_ok [of "page c"] cmd_free_not_busy [of "slot (page c)"] cmd_free_not_terminate [of "slot (page c)"]
    by (auto simp: chan_ok_def sh_mem_server_process_cmd_def Let_def split: if_splits)
qed

lemma chan_steps_ok: "chan_step\<^sup>*\<^sup>* c c' \<Longrightarrow> chan_ok c \<Longrightarrow> chan_ok c'"
  by (induction rule: rtranclp_induct) (auto dest: chan_step_ok)

section \<open>Submitted paths\<close>

definition plain_path :: "string \<Rightarrow> bool" where
  "plain_path s \<longleftrightarrow> s \<noteq> [] \<and> NUL \<notin> set s \<and> length s < IPC_MAX_PATH_LEN"

text \<open>The path array after the first \<open>n\<close> slots are filled: rows padded with terminators.\<close>

definition row_of :: "string \<Rightarrow> string" where
  "row_of s = s @ replicate (IPC_MAX_PATH_LEN - length s) NUL"

definition rows :: "string list \<Rightarrow> nat \<Rightarrow> string" where
  "rows ps n = concat (map row_of (take n ps)) @ replicate ((IPC_MAX_APPS - n) * IPC_MAX_PATH_LEN) NUL"

lemma length_row_of [simp]: "length s \<le> IPC_MAX_PATH_LEN \<Longrightarrow> length (row_of s) = IPC_MAX_PATH_LEN"
  by (simp add: row_of_def)

lemma length_rows_prefix:
  assumes "\<forall>s \<in> set ps. plain_path s" "n \<le> length ps"
  shows "length (concat (map row_of (take n ps))) = n * IPC_MAX_PATH_LEN"
proof -
  have "\<forall>s \<in> set (take n ps). length (row_of s) = 256"
    using assms(1) by (auto simp: plain_path_def dest!: in_set_takeD)
  then have "length (concat (map row_of (take n ps))) = length (take n ps) * 256"
    by (induction "take n ps") (simp_all add: length_concat comp_def sum_list_triv cong: map_cong)
  with assms(2) show ?thesis by simp
qed

lemma rows_Suc:
  assumes "\<forall>s \<in> set ps. plain_path s" "n < length ps" "length ps \<le> 8"
  shows "take (n * IPC_MAX_PATH_LEN) (rows ps n) @ ps ! n @ drop (n * IPC_MAX_PATH_LEN + length (ps ! n)) (rows ps n) = rows ps (Suc n)"
proof -
  let ?pre = "concat (map row_of (take n ps))"
  have l: "length ?pre = n * 256" using length_rows_prefix [OF assms(1)] assms(2) by simp
  have p: "length (ps ! n) < 256" using assms(1,2) by (auto simp: plain_path_def)
  have "8 - n = Suc (7 - n)" using assms(2,3) by simp
  then have k: "(8 - n) * 256 - length (ps ! n) = (256 - length (ps ! n)) + (8 - Suc n) * 256" using p by simp
  have "drop (n * 256 + length (ps ! n)) (rows ps n) = replicate ((8 - n) * 256 - length (ps ! n)) NUL"
    using l by (simp add: rows_def)
  also have "\<dots> = replicate (256 - length (ps ! n)) NUL @ replicate ((8 - Suc n) * 256) NUL"
    unfolding k replicate_add ..
  finally show ?thesis
    using l assms(2) by (simp add: rows_def row_of_def take_Suc_conv_app_nth)
qed

text \<open>What \<^verbatim>\<open>sub_dag\<close> fills in, slot by slot.\<close>

definition filled_upto :: "string list \<Rightarrow> 64 word list \<Rightarrow> 64 word list \<Rightarrow> nat \<Rightarrow> ipc_message \<Rightarrow> bool" where
  "filled_upto ps ns qs n m \<longleftrightarrow> message_wf m \<and> cmd_is CMD_SLOT0_BUSY m \<and> path_to_so m = rows ps n \<and>
     (\<forall>i<n. num_instances m ! i = ns ! i \<and> periodicity m ! i = (if qs = [] then 0 else qs ! i))"

lemma fill_slot_filled:
  assumes "filled_upto ps ns qs n m" "\<forall>s \<in> set ps. plain_path s" "n < length ps" "length ps \<le> 8"
    and "qs = [] \<or> length ps \<le> length qs"
  shows "\<exists>m'. fill_slot ps ns qs n m = Some (Inr m') \<and> filled_upto ps ns qs (Suc n) m'"
proof -
  have p: "length (ps ! n) < 256" using assms(2,3) by (auto simp: plain_path_def)
  have wf: "message_wf m" "path_to_so m = rows ps n" using assms(1) by (auto simp: filled_upto_def)
  then have len: "length (path_to_so m) = 2048" by (simp add: message_wf_def)
  have off: "n * 256 + length (ps ! n) \<le> 2048" using p assms(3,4) by simp
  let ?m = "m\<lparr>path_to_so := rows ps (Suc n), num_instances := (num_instances m)[n := ns ! n],
     periodicity := (periodicity m)[n := (if qs \<noteq> [] then qs ! n else 0)]\<rparr>"
  have "fill_slot ps ns qs n m = Some (Inr ?m)"
    using rows_Suc [OF assms(2-4)] off len wf assms(3,5) by (auto simp: fill_slot_def Let_def)
  moreover have "length (rows ps (Suc n)) = 2048"
    using length_rows_prefix [OF assms(2), of "Suc n"] assms(3,4) by (simp add: rows_def algebra_simps)
  then have "filled_upto ps ns qs (Suc n) ?m"
    using assms(1,3,4) by (auto simp: filled_upto_def message_wf_def cmd_is_def less_Suc_eq nth_list_update)
  ultimately show ?thesis by blast
qed

lemma fill_slots_filled:
  assumes "filled_upto ps ns qs k m" "\<forall>s \<in> set ps. plain_path s" "length ps \<le> 8" "k + d = length ps"
    and "qs = [] \<or> length ps \<le> length qs"
  shows "\<exists>m'. fill_slots ps ns qs [k..<length ps] m = Some (Inr m') \<and> filled_upto ps ns qs (length ps) m'"
  using assms(1,4)
proof (induction d arbitrary: k m)
  case 0
  then show ?case by simp
next
  case (Suc d)
  then have k: "k < length ps" by simp
  from fill_slot_filled [OF Suc.prems(1) assms(2) k assms(3,5)] obtain m1 where
    m1: "fill_slot ps ns qs k m = Some (Inr m1)" "filled_upto ps ns qs (Suc k) m1" by blast
  with Suc.IH [OF m1(2)] Suc.prems(2) k show ?case by (simp add: upt_rec [of k])
qed

text \<open>Reading a row back.\<close>

lemma c_string_row:
  assumes "\<forall>s \<in> set ps. plain_path s" "length ps \<le> 8" "i < 8"
  shows "c_string (rows ps (length ps)) (i * IPC_MAX_PATH_LEN) = (if i < length ps then ps ! i else [])"
proof (cases "i < length ps")
  case True
  let ?rest = "concat (map row_of (drop (Suc i) ps)) @ replicate ((8 - length ps) * 256) NUL"
  have l: "length (concat (map row_of (take i ps))) = i * 256" using length_rows_prefix [OF assms(1)] True by simp
  have "rows ps (length ps) = concat (map row_of (take i ps)) @ row_of (ps ! i) @ ?rest"
    using arg_cong [OF id_take_nth_drop [OF True], of "\<lambda>xs. concat (map row_of xs)"] by (simp add: rows_def)
  then have d: "drop (i * 256) (rows ps (length ps)) = row_of (ps ! i) @ ?rest" using l by simp
  have s: "NUL \<notin> set (ps ! i)" "length (ps ! i) < 256" using assms(1) True by (auto simp: plain_path_def)
  then obtain k where "256 - length (ps ! i) = Suc k" by (metis Suc_diff_Suc)
  then have "row_of (ps ! i) @ ?rest = ps ! i @ NUL # (replicate k NUL @ ?rest)" by (simp add: row_of_def)
  moreover have "takeWhile (\<lambda>c. c \<noteq> NUL) (ps ! i @ NUL # (replicate k NUL @ ?rest)) = ps ! i"
    using s(1) by (subst takeWhile_append2) auto
  ultimately show ?thesis using d True by (simp only: c_string_def if_True)
next
  case False
  have "length (concat (map row_of ps)) = length ps * 256" using length_rows_prefix [OF assms(1), of "length ps"] by simp
  then have "drop (i * 256) (rows ps (length ps)) = replicate ((8 - length ps) * 256 - (i * 256 - length ps * 256)) NUL"
    using False by (simp add: rows_def)
  then show ?thesis using False by (simp add: c_string_def takeWhile_replicate)
qed

lemma read_slots_filled:
  assumes "filled_upto ps ns qs (length ps) m" "\<forall>s \<in> set ps. plain_path s" "length ps \<le> 8" "k \<le> 8" "k \<le> length ps"
  shows "read_slots m [k..<8] = map (\<lambda>i. (ps ! i, ns ! i, if qs = [] then 0 else qs ! i)) [k..<length ps]"
  using assms(4,5)
proof (induction "8 - k" arbitrary: k)
  case 0
  then have "k = 8" "length ps = 8" using assms(3) by auto
  then show ?case by simp
next
  case (Suc d)
  then have k: "[k..<8] = k # [Suc k..<8]" by (simp add: upt_rec [of k])
  have c: "c_string (path_to_so m) (k * 256) = (if k < length ps then ps ! k else [])"
    using c_string_row [OF assms(2,3), of k] assms(1) Suc.hyps(2) by (simp add: filled_upto_def)
  show ?case
  proof (cases "k < length ps")
    case True
    then have "ps ! k \<noteq> []" using assms(2) by (auto simp: plain_path_def)
    moreover have "read_slots m [Suc k..<8] = map (\<lambda>i. (ps ! i, ns ! i, if qs = [] then 0 else qs ! i)) [Suc k..<length ps]"
      using Suc.hyps True by (intro Suc.hyps(1)) auto
    ultimately show ?thesis
      using c k True assms(1) by (simp add: filled_upto_def upt_rec [of k "length ps"] Let_def)
  next
    case False
    with Suc.prems c k show ?thesis by (simp add: Let_def)
  qed
qed

section \<open>Properties\<close>


definition one_message :: ipc_message where
  "one_message = set_cmd CMD_SLOT0_BUSY zero_message"


text \<open>
  C19: what \<^verbatim>\<open>sub_dag\<close> submits is what the daemon reads: for up to eight paths shorter than a
  row and as many instance counts and periods, the slots the daemon walks hold exactly the
  submitted paths with their counts and periods, in order, and nothing more.
\<close>

theorem submission_roundtrip:
  assumes "soPaths \<noteq> []" "length soPaths \<le> 8" "length numInstances = length soPaths"
    and "period = [] \<or> length period = length soPaths" and "\<forall>s \<in> set soPaths. plain_path s"
  shows "\<exists>m. sub_dag_message soPaths numInstances period = Some (Inr m) \<and> message_wf m \<and> cmd_is CMD_SLOT0_BUSY m \<and>
    read_slots m [0..<8] = zip soPaths (zip numInstances (if period = [] then replicate (length soPaths) 0 else period))"
proof -
  have "message_wf zero_message" by (simp add: message_wf_def zero_message_def)
  then have "message_wf (set_cmd CMD_SLOT0_BUSY zero_message)" by (rule set_cmd_wf) (simp add: CMD_SLOT0_BUSY_def)
  then have f0: "filled_upto soPaths numInstances period 0 (set_cmd CMD_SLOT0_BUSY zero_message)"
    using cmd_is_set_cmd by (simp add: filled_upto_def rows_def) (simp add: set_cmd_def zero_message_def)
  have q: "period = [] \<or> length soPaths \<le> length period" using assms(4) by auto
  from fill_slots_filled [OF f0 assms(5,2) _ q, of "length soPaths"] obtain m where
    m: "fill_slots soPaths numInstances period [0..<length soPaths] (set_cmd CMD_SLOT0_BUSY zero_message) = Some (Inr m)"
      "filled_upto soPaths numInstances period (length soPaths) m" by auto
  have "\<forall>s \<in> set soPaths. length s \<le> 2048" using assms(5) by (auto simp: plain_path_def)
  then have "sub_dag_message soPaths numInstances period = Some (Inr m)"
    using assms(1-3) m(1) by (auto simp: sub_dag_message_def not_less)
  moreover have "read_slots m [0..<8] = zip soPaths (zip numInstances (if period = [] then replicate (length soPaths) 0 else period))"
    unfolding read_slots_filled [OF m(2) assms(5,2), of 0, simplified]
    using assms(3,4) by (intro nth_equalityI) auto
  ultimately show ?thesis using m(2) by (auto simp: filled_upto_def)
qed

theorem submission_roundtrip_witness:
  "\<exists>m. sub_dag_message [''a.so'', ''dir/b.so''] [3, 1] [100, 200] = Some (Inr m) \<and>
     read_slots m [0..<8] = [(''a.so'', 3, 100), (''dir/b.so'', 1, 200)]"
  using submission_roundtrip [of "[''a.so'', ''dir/b.so'']" "[3, 1]" "[100, 200]"]
  by (auto simp: plain_path_def NUL_def)

text \<open>
  The length check of \<^verbatim>\<open>sub_dag\<close> compares with all eight rows instead of one. A second path
  of more than seven rows passes it and is copied past the end of the path array.
\<close>

theorem sub_dag_path_check_too_weak:
  assumes "length q \<le> 8 * IPC_MAX_PATH_LEN" "7 * IPC_MAX_PATH_LEN < length q" "length p \<le> IPC_MAX_PATH_LEN"
  shows "sub_dag_message [p, q] [n1, n2] period \<in> {None, Some (Inl OutOfRangeException)} \<and>
    sub_dag_message [p, q] [n1, n2] [] = None"
  using assms
  by (auto simp: sub_dag_message_def fill_slot_def Let_def zero_message_def set_cmd_def not_less numeral_2_eq_2
      split: if_splits)

theorem sub_dag_path_check_too_weak_witness:
  "sub_dag_message [''a'', replicate 1800 (CHR ''b'')] [1, 1] [] = None"
  using sub_dag_path_check_too_weak [of "replicate 1800 (CHR ''b'')" "''a''" 1 1 "[]"] by simp

end
