(* ===== verification/Daemon.thy ===== *)
theory Daemon
  imports Workers Scheduler_Refine Ipc
begin

text \<open>
  The runtime process, \<^verbatim>\<open>src/src-api/runtime.cpp\<close> and \<^verbatim>\<open>dag_parse.cpp\<close>: the entry point
  \<^verbatim>\<open>enqueue_kernel\<close> the application threads call, the lookup of the API implementations, and
  the phases of the loop of \<^verbatim>\<open>launchDaemonRuntime\<close>, each a function on the process state \<open>rt\<close>.

  Application structures live in a heap of addresses (\<open>apps\<close>); reading or writing through an
  address that is not allocated is \<open>Inl Undefined\<close>. An uncaught C++ exception and a call of
  \<^verbatim>\<open>exit\<close> are the other errors. The dynamic loader, the priority queue's choice among
  equal arrival times and the random periods are the environment \<open>rt_env\<close>. The log file
  is represented by its records; setting up the log directory, affinities and scheduling
  policies of the threads is left out.
\<close>

datatype rt_error = Undefined | Uncaught | ProcExit int

section \<open>State\<close>

datatype app_thread = ThreadRunning | ThreadFinished

record rt =
  apps :: "addr \<rightharpoonup> cedr_app"
  next_addr :: addr
  unarrived_apps :: "addr list"
  arrived_apps :: "addr list"
  ready_queue :: "task_nodes list"
  poison_queue :: "task_nodes list"
  app_thread_map :: "nat \<rightharpoonup> addr"
  app_threads :: "nat \<rightharpoonup> app_thread"
  next_thread :: nat
  pes :: "hw_thread list"
  rt_shared :: shared
  statics :: sched
  dash_functions :: "api_types \<Rightarrow> precision_types \<Rightarrow> resource_type \<Rightarrow> addr"
  sharedObjectMap :: "string \<rightharpoonup> addr"
  applicationMap :: "string \<rightharpoonup> cedr_app"
  appNum :: int
  rt_clock :: "nat \<Rightarrow> int"
  rt_ticks :: nat
  stream_timing_log :: "struct_logging list"
  sched_log :: "struct_schedlogging list"
  app_log :: "struct_applogging list"
  resolved_app_count :: int
  killed_app_count :: int

record rt_env =
  senv :: sched_env
  dlopen :: "string \<rightharpoonup> addr"
  dlsym :: "addr \<Rightarrow> string \<Rightarrow> addr"
  pq_top :: "(addr \<Rightarrow> u64) \<Rightarrow> addr list \<Rightarrow> addr"
  random_period :: "nat \<Rightarrow> u64 \<Rightarrow> u64"

text \<open>\<^verbatim>\<open>std::priority_queue\<close> with this comparator has a least arrival time on top.\<close>

definition rt_env_ok :: "rt_env \<Rightarrow> bool" where
  "rt_env_ok V \<longleftrightarrow> env_ok (senv V) \<and>
     (\<forall>f q. q \<noteq> [] \<longrightarrow> pq_top V f q \<in> set q \<and> (\<forall>a \<in> set q. f (pq_top V f q) \<le> f a))"

text \<open>One call of \<^verbatim>\<open>clock_gettime\<close> in nanoseconds.\<close>

definition tick :: "rt \<Rightarrow> int \<times> rt" where
  "tick s = (rt_clock s (rt_ticks s), s\<lparr>rt_ticks := rt_ticks s + 1\<rparr>)"

definition deref :: "rt \<Rightarrow> addr \<Rightarrow> rt_error + cedr_app" where
  "deref s a = (case apps s a of None \<Rightarrow> Inl Undefined | Some app \<Rightarrow> Inr app)"

definition store_app :: "addr \<Rightarrow> cedr_app \<Rightarrow> rt \<Rightarrow> rt" where
  "store_app a app s = s\<lparr>apps := (apps s)(a \<mapsto> app)\<rparr>"

section \<open>Calls of the applications\<close>

text \<open>\<^verbatim>\<open>app_thread_map[self]\<close> inserts a null pointer for a thread that is not registered.\<close>

definition thread_app :: "nat \<Rightarrow> rt \<Rightarrow> addr \<times> rt" where
  "thread_app self s = (case app_thread_map s self of
     Some a \<Rightarrow> (a, s)
   | None \<Rightarrow> (0, s\<lparr>app_thread_map := (app_thread_map s)(self \<mapsto> 0)\<rparr>))"

definition kernel_node :: "string \<Rightarrow> api_types \<Rightarrow> precision_types \<Rightarrow> addr list \<Rightarrow> rt \<Rightarrow> task_nodes" where
  "kernel_node kernel_str api precision vargs s = null_task\<lparr>
     task_name := kernel_str,
     task_type := api,
     args := butlast vargs,
     kernel_barrier := (if vargs = [] then 0 else last vargs),
     run_funcs := map (\<lambda>r. dash_functions s api precision r) all_resources,
     supported_resources := map (\<lambda>r. dash_functions s api precision r \<noteq> 0) all_resources\<rparr>"

definition enqueue_kernel :: "nat \<Rightarrow> string \<Rightarrow> string \<Rightarrow> addr list \<Rightarrow> rt \<Rightarrow> rt_error + rt" where
  "enqueue_kernel self kernel_str precision_str vargs s =
     (if kernel_str = ''POISON_PILL'' then
        let (app, s) = thread_app self s;
            new_node = null_task\<lparr>task_name := ''POISON PILL'', parent_app_pthread := self, app_pnt := app\<rparr>
        in Inr (s\<lparr>poison_queue := poison_queue s @ [new_node]\<rparr>)
      else case api_types_map kernel_str of
        None \<Rightarrow> Inr s
      | Some api \<Rightarrow> (case precision_types_map precision_str of
          None \<Rightarrow> Inl Uncaught
        | Some precision \<Rightarrow>
            let new_node = (kernel_node kernel_str api precision vargs s)\<lparr>parent_app_pthread := self\<rparr>;
                (app, s) = thread_app self s
            in bindR (deref s app) (\<lambda>a.
                 Inr ((store_app app (a\<lparr>task_count := task_count a + 1\<rparr>) s)\<lparr>
                   ready_queue := ready_queue s @ [new_node\<lparr>app_pnt := app, task_id := task_count a\<rparr>]\<rparr>))))"

text \<open>The end of an application's \<^verbatim>\<open>main\<close>, which posts the poison pill.\<close>

definition nk_thread_end :: "nat \<Rightarrow> rt \<Rightarrow> rt_error + rt" where
  "nk_thread_end self s =
     map_sum id (\<lambda>s. s\<lparr>app_threads := (app_threads s)(self \<mapsto> ThreadFinished)\<rparr>)
       (enqueue_kernel self ''POISON_PILL'' (precision_type_names ! 0) [] s)"

section \<open>Loading\<close>

text \<open>Every API, precision and resource is looked up in every binary; the last one found wins.\<close>

definition api_function_name :: "api_types \<Rightarrow> precision_types \<Rightarrow> resource_type \<Rightarrow> string" where
  "api_function_name api precision resource =
     api_type_names ! api_num api @ ''_'' @ precision_type_names ! prec_num precision @ ''_'' @
     resource_type_names ! res_num resource"

primrec open_binaries :: "rt_env \<Rightarrow> string list \<Rightarrow> rt_error + addr list" where
  "open_binaries V [] = Inr []"
| "open_binaries V (path # paths) = (case dlopen V path of
     None \<Rightarrow> Inl (ProcExit 1)
   | Some h \<Rightarrow> map_sum id (Cons h) (open_binaries V paths))"

definition find_implementation :: "rt_env \<Rightarrow> addr list \<Rightarrow> string \<Rightarrow> addr \<Rightarrow> addr" where
  "find_implementation V handles name old =
     fold (\<lambda>h found. if dlsym V h name = 0 then found else dlsym V h name) handles old"

definition parseAPIImplementations :: "rt_env \<Rightarrow> rt \<Rightarrow> rt_error + rt" where
  "parseAPIImplementations V s = bindR (open_binaries V (dash_binary_paths (cfg (senv V)))) (\<lambda>handles.
     Inr (s\<lparr>dash_functions := (\<lambda>api precision resource.
       find_implementation V handles (api_function_name api precision resource)
         (dash_functions s api precision resource))\<rparr>))"

definition openHandle :: "rt_env \<Rightarrow> string \<Rightarrow> string \<Rightarrow> rt \<Rightarrow> addr \<times> rt" where
  "openHandle V path name s = (case dlopen V path of
     None \<Rightarrow> (0, s)
   | Some h \<Rightarrow> (h, s\<lparr>sharedObjectMap := (sharedObjectMap s)(name \<mapsto> h)\<rparr>))"

definition parse_binary :: "rt_env \<Rightarrow> string \<Rightarrow> rt \<Rightarrow> cedr_app option \<times> rt" where
  "parse_binary V filename s =
     (let shared_object_name = after_last (CHR ''/'') filename;
          name = before_last (CHR ''.'') shared_object_name;
          (dl_handle, s) = (case sharedObjectMap s shared_object_name of
             None \<Rightarrow> openHandle V filename shared_object_name s
           | Some h \<Rightarrow> (h, s))
      in if dl_handle = 0 then (None, s)
         else let lib_main = dlsym V dl_handle ''main''
              in if lib_main = 0 then (None, s)
                 else (Some (null_app\<lparr>app_name := take 49 name, dlhandle := dl_handle, main_func_handle := lib_main\<rparr>), s))"

section \<open>Injection of applications\<close>

definition US2NANOSEC :: int where "US2NANOSEC = SEC2NANOSEC div 1000 div 1000"

text \<open>One instance of a prototype: a fresh structure, due one period later than the last.\<close>

definition inject_one :: "rt_env \<Rightarrow> cedr_app \<Rightarrow> u64 \<Rightarrow> u64 \<Rightarrow> rt \<Rightarrow> u64 \<times> rt" where
  "inject_one V prototype period accum_period s =
     (let (emul_time, s) = tick s;
          new_app = (app_assign null_app prototype)\<lparr>
            app_id := appNum s, task_count := 0, is_running := False, completed_task_count := 0,
            arrival_time := word_of_int emul_time + accum_period * word_of_int US2NANOSEC\<rparr>;
          accum_period = (if fixed_periodic_injection (cfg (senv V)) then accum_period + period
                          else random_period V (rt_ticks s) accum_period);
          a = next_addr s
      in (accum_period, (store_app a new_app s)\<lparr>
            next_addr := a + 1, appNum := appNum s + 1, unarrived_apps := unarrived_apps s @ [a]\<rparr>))"

primrec inject_many :: "rt_env \<Rightarrow> cedr_app \<Rightarrow> u64 \<Rightarrow> nat \<Rightarrow> u64 \<Rightarrow> rt \<Rightarrow> rt" where
  "inject_many V prototype period 0 accum_period s = s"
| "inject_many V prototype period (Suc n) accum_period s =
     (case inject_one V prototype period accum_period s of
        (accum_period, s) \<Rightarrow> inject_many V prototype period n accum_period s)"

text \<open>One slot of the message; an application that cannot be loaded is ignored.\<close>

definition inject_slot :: "rt_env \<Rightarrow> string \<times> u64 \<times> u64 \<Rightarrow> rt \<Rightarrow> rt" where
  "inject_slot V = (\<lambda>(pathToSO, num_inst, period) s.
     if num_inst = 0 then s
     else
       let appName = after_last (CHR ''/'') pathToSO;
           (prototype, s) = (case applicationMap s appName of
              Some p \<Rightarrow> (Some p, s)
            | None \<Rightarrow> (case parse_binary V pathToSO s of
                (Some p, s) \<Rightarrow> (Some p, s\<lparr>applicationMap := (applicationMap s)(appName \<mapsto> p)\<rparr>)
              | (None, s) \<Rightarrow> (None, s)))
       in case prototype of
            None \<Rightarrow> s
          | Some p \<Rightarrow> inject_many V p period (unat num_inst) period s)"

definition inject_message :: "rt_env \<Rightarrow> ipc_message \<Rightarrow> rt \<Rightarrow> rt" where
  "inject_message V m = fold (inject_slot V) (read_slots m [0..<IPC_MAX_APPS])"

section \<open>Arrival and launch\<close>

text \<open>
  The loop over the due applications; the fuel is the number of waiting applications, and each
  round removes one.
\<close>

definition arrival_of :: "rt \<Rightarrow> addr \<Rightarrow> u64" where
  "arrival_of s a = (case apps s a of Some app \<Rightarrow> arrival_time app | None \<Rightarrow> 0)"

primrec arrive_due :: "nat \<Rightarrow> rt_env \<Rightarrow> int \<Rightarrow> rt \<Rightarrow> rt_error + rt" where
  "arrive_due 0 V emul_time s = Inr s"
| "arrive_due (Suc n) V emul_time s =
     (if unarrived_apps s = [] then Inr s
      else
        let a = pq_top V (arrival_of s) (unarrived_apps s)
        in bindR (deref s a) (\<lambda>app.
             if arrival_time app \<le> word_of_int emul_time then
               arrive_due n V emul_time ((store_app a (app\<lparr>arrival_time := word_of_int emul_time\<rparr>) s)\<lparr>
                 unarrived_apps := remove1 a (unarrived_apps s),
                 arrived_apps := arrived_apps s @ [a]\<rparr>)
             else Inr s))"

definition arrivals :: "rt_env \<Rightarrow> rt \<Rightarrow> rt_error + rt" where
  "arrivals V s = (case tick s of (emul_time, s) \<Rightarrow> arrive_due (length (unarrived_apps s)) V emul_time s)"

text \<open>
  Launching an arrived application: its thread is created, and only then entered into the map
  the kernel calls look it up in.
\<close>

definition launch_create :: "addr \<Rightarrow> rt \<Rightarrow> rt_error + rt" where
  "launch_create a s = bindR (deref s a) (\<lambda>app.
     case tick s of (now, s) \<Rightarrow>
       let t = next_thread s
       in Inr ((store_app a (app\<lparr>app_pthread := t, start_time := word_of_int now, is_running := True\<rparr>) s)\<lparr>
            next_thread := t + 1, app_threads := (app_threads s)(t \<mapsto> ThreadRunning)\<rparr>))"

definition launch_register :: "addr \<Rightarrow> rt \<Rightarrow> rt_error + rt" where
  "launch_register a s = bindR (deref s a) (\<lambda>app.
     Inr (s\<lparr>app_thread_map := (app_thread_map s)(app_pthread app \<mapsto> a)\<rparr>))"

definition launch_app :: "addr \<Rightarrow> rt \<Rightarrow> rt_error + rt" where
  "launch_app a s = bindR (deref s a) (\<lambda>app.
     if is_running app then Inr s else bindR (launch_create a s) (launch_register a))"

definition launch_arrived :: "rt \<Rightarrow> rt_error + rt" where
  "launch_arrived s = foldR launch_app (arrived_apps s) s"

section \<open>The scheduling phase\<close>

definition set_workers :: "worker_thread list \<Rightarrow> hw_thread list \<Rightarrow> hw_thread list" where
  "set_workers ws hs = map (\<lambda>(h, w). h\<lparr>wt := w\<rparr>) (zip hs ws)"

definition nanos_u64 :: "int \<Rightarrow> u64" where
  "nanos_u64 t = word_of_int t"

definition ts_of :: "int \<Rightarrow> timespec" where
  "ts_of t = \<lparr>tv_sec = t div SEC2NANOSEC, tv_nsec = t mod SEC2NANOSEC\<rparr>"

definition schedule_phase :: "rt_env \<Rightarrow> rt \<Rightarrow> rt_error + rt" where
  "schedule_phase V s =
     (if ready_queue s = [] then Inr s
      else
        let n = length (ready_queue s);
            (t1, s) = tick s
        in case performScheduling (senv V) (ready_queue s) ((statics s)\<lparr>workers := map wt (pes s)\<rparr>) of
             None \<Rightarrow> Inl Undefined
           | Some (SchedExit c) \<Rightarrow> Inl (ProcExit c)
           | Some (Scheduled q st) \<Rightarrow>
               let (t2, s) = tick s;
                   schedlog_obj = \<lparr>ready_queue_size = of_nat n, sched_start = ts_of t1, sched_end = ts_of t2,
                     scheduling_overhead = nanos_u64 (t2 - t1)\<rparr>
               in Inr (s\<lparr>ready_queue := q, pes := set_workers (workers st) (pes s), statics := st,
                    sched_log := sched_log s @ [schedlog_obj]\<rparr>))"

section \<open>Harvesting completed tasks\<close>

text \<open>
  One completed task of worker \<open>i\<close>: its application's counter, its log record, and the task is
  freed. The worker's lock is taken for each task.
\<close>

definition harvest_one :: "nat \<Rightarrow> rt \<Rightarrow> rt_error + rt" where
  "harvest_one i s = (if length (pes s) \<le> i then Inl Undefined else
     case completed_task_dequeue (wt (pes s ! i)) of
       [] \<Rightarrow> Inl Undefined
     | task # rest \<Rightarrow>
         let h = pes s ! i;
             s = s\<lparr>pes := (pes s)[i := h\<lparr>wt := (wt h)\<lparr>completed_task_dequeue := rest\<rparr>\<rparr>]\<rparr>
         in bindR (deref s (app_pnt task)) (\<lambda>app.
              let app = app\<lparr>completed_task_count := completed_task_count app + 1\<rparr>;
                  log_obj = \<lparr>log_app_name = app_name app, log_app_id = app_id app, log_task_id = task_id task,
                    log_task_name = task_name task, log_resource_name = assigned_resource_name task,
                    log_start = start_ts task, log_end = end_ts task\<rparr>
              in Inr ((store_app (app_pnt task) app s)\<lparr>stream_timing_log := stream_timing_log s @ [log_obj]\<rparr>)))"

primrec harvest_times :: "nat \<Rightarrow> nat \<Rightarrow> rt \<Rightarrow> rt_error + rt" where
  "harvest_times i 0 s = Inr s"
| "harvest_times i (Suc n) s = bindR (harvest_one i s) (harvest_times i n)"

definition harvest_pe :: "nat \<Rightarrow> rt \<Rightarrow> rt_error + rt" where
  "harvest_pe i s = (if length (pes s) \<le> i then Inl Undefined
     else harvest_times i (length (completed_task_dequeue (wt (pes s ! i)))) s)"

definition harvest_phase :: "rt_env \<Rightarrow> rt \<Rightarrow> rt_error + rt" where
  "harvest_phase V = foldR harvest_pe [0..<total_resources (senv V)]"

section \<open>Applications that have ended\<close>

definition app_record :: "cedr_app \<Rightarrow> int \<Rightarrow> struct_applogging" where
  "app_record app now = \<lparr>alog_app_name = app_name app, alog_app_id = app_id app,
     alog_arrival = arrival_time app, alog_start = start_time app, alog_end = word_of_int now,
     alog_runtime = word_of_int now - start_time app, alog_lifetime = word_of_int now - arrival_time app\<rparr>"

text \<open>
  Removing one application whose tasks are all logged: join its thread, record it, drop it from
  the arrived list and the thread map (erasing an absent entry is undefined) and free it.
\<close>

definition retire_app :: "task_nodes \<Rightarrow> rt \<Rightarrow> rt_error + rt" where
  "retire_app pill s = bindR (deref s (app_pnt pill)) (\<lambda>app.
     if app_threads s (parent_app_pthread pill) = None then Inl (ProcExit 1)
     else if app_thread_map s (app_pthread app) = None then Inl Undefined
     else case tick s of (now, s) \<Rightarrow> Inr (s\<lparr>
       app_log := app_log s @ [app_record app now],
       resolved_app_count := resolved_app_count s + 1,
       app_threads := (app_threads s)(parent_app_pthread pill := None),
       arrived_apps := filter (\<lambda>a. a \<noteq> app_pnt pill) (arrived_apps s),
       app_thread_map := (app_thread_map s)(app_pthread app := None),
       apps := (apps s)(app_pnt pill := None)\<rparr>))"

text \<open>
  The sweep over the poison queue keeps an iterator to the next pill and one to the end while
  it erases. Erasing at either end of a \<^verbatim>\<open>std::deque\<close> leaves the iterators to the remaining
  pills usable; erasing in the middle invalidates them all, and the next use is undefined. When
  the erased pill is the last one, the iterator to the next pill and the end iterator were
  equal before and are compared once more; both then name the former end, they stay equal in
  every implementation of the queue, and the loop ends.
\<close>

fun sweep :: "task_nodes list \<Rightarrow> task_nodes list \<Rightarrow> rt \<Rightarrow> rt_error + rt" where
  "sweep kept [] s = Inr (s\<lparr>poison_queue := kept\<rparr>)"
| "sweep kept (pill # rest) s = bindR (deref s (app_pnt pill)) (\<lambda>app.
     if completed_task_count app = task_count app then
       bindR (retire_app pill s) (\<lambda>s.
         if kept \<noteq> [] \<and> rest \<noteq> [] then Inl Undefined else sweep kept rest s)
     else sweep (kept @ [pill]) rest s)"

definition poison_phase :: "rt \<Rightarrow> rt_error + rt" where
  "poison_phase s = sweep [] (poison_queue s) s"

section \<open>Shutdown\<close>

text \<open>
  Every worker is waited for until it is idle with an empty queue and then told to terminate;
  \<open>pe_idle\<close> is the state the waiting ends in. The pills still queued are joined and recorded.
  The loop that should cancel the remaining applications is guarded by the inverted condition.
\<close>

definition pe_idle :: "hw_thread \<Rightarrow> bool" where
  "pe_idle h \<longleftrightarrow> todo_task_dequeue (wt h) = [] \<and> resource_state (wt h) = 0"

definition stop_pe :: "hw_thread \<Rightarrow> hw_thread" where
  "stop_pe h = h\<lparr>wt := (wt h)\<lparr>resource_state := 3\<rparr>\<rparr>"

definition join_pill :: "task_nodes \<Rightarrow> rt \<Rightarrow> rt_error + rt" where
  "join_pill pill s = bindR (deref s (app_pnt pill)) (\<lambda>app.
     case tick s of (now, s) \<Rightarrow> Inr (s\<lparr>
       app_log := app_log s @ [app_record app now],
       resolved_app_count := resolved_app_count s + 1,
       app_threads := (app_threads s)(parent_app_pthread pill := None),
       arrived_apps := filter (\<lambda>a. a \<noteq> app_pnt pill) (arrived_apps s)\<rparr>))"

definition cancel_app :: "addr \<Rightarrow> rt \<Rightarrow> rt_error + rt" where
  "cancel_app a s = bindR (deref s a) (\<lambda>app. Inr (s\<lparr>
     app_threads := (app_threads s)(app_pthread app := None),
     killed_app_count := killed_app_count s + 1,
     app_thread_map := (app_thread_map s)(app_pthread app := None),
     arrived_apps := filter (\<lambda>b. b \<noteq> a) (arrived_apps s)\<rparr>))"

definition shutdown_phase :: "rt \<Rightarrow> rt_error + rt" where
  "shutdown_phase s =
     bindR (foldR join_pill (poison_queue s) (s\<lparr>pes := map stop_pe (pes s)\<rparr>)) (\<lambda>s.
       if arrived_apps s = [] then foldR cancel_app (arrived_apps s) s else Inr s)"

section \<open>The logs\<close>

text \<open>
  The timing trace is the log sorted by start time, each line with its duration, together with
  the earliest start and the latest end, from which the makespan is computed.
\<close>

definition timing_trace :: "struct_logging list \<Rightarrow> (struct_logging \<times> int \<times> int \<times> int) list \<times> int \<times> int" where
  "timing_trace log = fold (\<lambda>task (lines, earliestStart, latestFinish).
     let s0 = nanos (log_start task); e0 = nanos (log_end task)
     in (lines @ [(task, s0, e0, e0 - s0)], min earliestStart s0, max latestFinish e0))
     (sort_key (\<lambda>r. nanos (log_start r)) log) ([], LLONG_MAX, 0)"

definition schedule_trace :: "struct_schedlogging list \<Rightarrow> u32 \<times> int" where
  "schedule_trace log = fold (\<lambda>e (total_ready_tasks, total_sched_overhead).
     (total_ready_tasks + ready_queue_size e, total_sched_overhead + (nanos (sched_end e) - nanos (sched_start e))))
     log (0, 0)"

section \<open>One round of the loop\<close>

definition should_exit_early :: "rt_env \<Rightarrow> bool \<Rightarrow> rt \<Rightarrow> bool" where
  "should_exit_early V receivedFirstSubDag s \<longleftrightarrow> exit_when_idle (cfg (senv V)) \<and> receivedFirstSubDag \<and>
     unarrived_apps s = [] \<and> arrived_apps s = []"

definition daemon_round :: "rt_env \<Rightarrow> process_ipc \<Rightarrow> bool \<Rightarrow> rt \<Rightarrow> rt_error + (bool \<times> bool \<times> rt)" where
  "daemon_round V ipc_cmd got s =
     (if cmd_type ipc_cmd \<noteq> SH_OBJ \<and> (cmd_type ipc_cmd = SERVER_EXIT \<or> should_exit_early V got s) then
        map_sum id (\<lambda>s. (True, got, s)) (shutdown_phase s)
      else
        let (got, s) = (if cmd_type ipc_cmd = SH_OBJ then (True, inject_message V (message ipc_cmd) s)
                             else (got, s))
        in bindR (arrivals V s) (\<lambda>s. bindR (launch_arrived s) (\<lambda>s. bindR (schedule_phase V s) (\<lambda>s.
             bindR (harvest_phase V s) (\<lambda>s. map_sum id (\<lambda>s. (False, got, s)) (poison_phase s))))))"

section \<open>All threads together\<close>

text \<open>
  The steps of the process: an application thread that is registered calls a kernel or ends, a
  worker makes a step, and the runtime thread performs one of its operations. A thread that
  calls before it is registered is the subject of \<open>unregistered_call_crashes\<close>.
\<close>

inductive rt_step :: "rt_env \<Rightarrow> rt \<Rightarrow> rt \<Rightarrow> bool" for V where
  kernel_call: "app_threads s self = Some ThreadRunning \<Longrightarrow> app_thread_map s self \<noteq> None \<Longrightarrow>
    kernel_str \<noteq> ''POISON_PILL'' \<Longrightarrow> enqueue_kernel self kernel_str precision_str vargs s = Inr s' \<Longrightarrow> rt_step V s s'"
| app_end: "app_threads s self = Some ThreadRunning \<Longrightarrow> app_thread_map s self \<noteq> None \<Longrightarrow>
    nk_thread_end self s = Inr s' \<Longrightarrow> rt_step V s s'"
| worker_step: "i < length (pes s) \<Longrightarrow> hw_step (pes s ! i, rt_shared s) = Some (h, g) \<Longrightarrow>
    rt_step V s (s\<lparr>pes := (pes s)[i := h], rt_shared := g\<rparr>)"
| inject: "rt_step V s (inject_message V m s)"
| arrive: "arrivals V s = Inr s' \<Longrightarrow> rt_step V s s'"
| launch: "a \<in> set (arrived_apps s) \<Longrightarrow> launch_app a s = Inr s' \<Longrightarrow> rt_step V s s'"
| schedule: "schedule_phase V s = Inr s' \<Longrightarrow> rt_step V s s'"
| harvest: "harvest_one i s = Inr s' \<Longrightarrow> rt_step V s s'"
| poison: "poison_phase s = Inr s' \<Longrightarrow> rt_step V s s'"

end
