(* ===== verification/Daemon_Props.thy ===== *)
theory Daemon_Props
  imports Daemon Scheduler_Props
begin

text \<open>
  Properties of the runtime process: in every reachable state each task in flight refers to an
  allocated application, and the counters of an application account for its tasks exactly, so
  an application is freed only when no task refers to it any more; and the cases in which the
  code departs from that.
\<close>

section \<open>References to applications\<close>

definition refs :: "rt \<Rightarrow> addr multiset" where
  "refs s = image_mset app_pnt (mset (ready_queue s)) + (\<Sum>h\<leftarrow>pes s. image_mset app_pnt (mset (held h)))"

definition rt_ok :: "rt \<Rightarrow> bool" where
  "rt_ok s \<longleftrightarrow>
     (\<forall>a \<in># refs s. apps s a \<noteq> None) \<and>
     (\<forall>a app. apps s a = Some app \<longrightarrow> task_count app = completed_task_count app + int (count (refs s) a)) \<and>
     (\<forall>p \<in> set (poison_queue s). \<exists>app. apps s (app_pnt p) = Some app \<and> app_pthread app = parent_app_pthread p \<and>
        app_threads s (parent_app_pthread p) = Some ThreadFinished \<and>
        app_thread_map s (parent_app_pthread p) = Some (app_pnt p)) \<and>
     distinct (map app_pnt (poison_queue s)) \<and>
     (\<forall>t a. app_thread_map s t = Some a \<longrightarrow>
        (\<exists>app. apps s a = Some app \<and> app_pthread app = t \<and> is_running app) \<and> a \<notin> set (unarrived_apps s)) \<and>
     (\<forall>a \<in> set (unarrived_apps s) \<union> set (arrived_apps s). apps s a \<noteq> None) \<and>
     distinct (unarrived_apps s @ arrived_apps s) \<and>
     (\<forall>a. apps s a \<noteq> None \<longrightarrow> a < next_addr s) \<and>
     (\<forall>t. app_thread_map s t \<noteq> None \<or> app_threads s t \<noteq> None \<longrightarrow> t < next_thread s) \<and>
     (\<forall>a app. apps s a = Some app \<and> is_running app \<longrightarrow> a \<in> set (arrived_apps s))"

lemma rt_okI:
  assumes "\<And>a. a \<in># refs s \<Longrightarrow> apps s a \<noteq> None"
    and "\<And>a app. apps s a = Some app \<Longrightarrow> task_count app = completed_task_count app + int (count (refs s) a)"
    and "\<And>p. p \<in> set (poison_queue s) \<Longrightarrow> \<exists>app. apps s (app_pnt p) = Some app \<and> app_pthread app = parent_app_pthread p \<and>
        app_threads s (parent_app_pthread p) = Some ThreadFinished \<and>
        app_thread_map s (parent_app_pthread p) = Some (app_pnt p)"
    and "distinct (map app_pnt (poison_queue s))"
    and "\<And>t a. app_thread_map s t = Some a \<Longrightarrow>
        (\<exists>app. apps s a = Some app \<and> app_pthread app = t \<and> is_running app) \<and> a \<notin> set (unarrived_apps s)"
    and "\<And>a. a \<in> set (unarrived_apps s) \<union> set (arrived_apps s) \<Longrightarrow> apps s a \<noteq> None"
    and "distinct (unarrived_apps s @ arrived_apps s)"
    and "\<And>a. apps s a \<noteq> None \<Longrightarrow> a < next_addr s"
    and "\<And>t. app_thread_map s t \<noteq> None \<or> app_threads s t \<noteq> None \<Longrightarrow> t < next_thread s"
    and "\<And>a app. apps s a = Some app \<Longrightarrow> is_running app \<Longrightarrow> a \<in> set (arrived_apps s)"
  shows "rt_ok s"
  using assms unfolding rt_ok_def by blast

text \<open>The parts of the invariant.\<close>

lemma rt_okD:
  assumes "rt_ok s"
  shows rt_refs: "a \<in># refs s \<Longrightarrow> apps s a \<noteq> None"
    and rt_count: "apps s a = Some app \<Longrightarrow> task_count app = completed_task_count app + int (count (refs s) a)"
    and rt_pills: "p \<in> set (poison_queue s) \<Longrightarrow> \<exists>app. apps s (app_pnt p) = Some app \<and> app_pthread app = parent_app_pthread p \<and>
        app_threads s (parent_app_pthread p) = Some ThreadFinished \<and>
        app_thread_map s (parent_app_pthread p) = Some (app_pnt p)"
    and rt_pills_distinct: "distinct (map app_pnt (poison_queue s))"
    and rt_map: "app_thread_map s t = Some a \<Longrightarrow>
        (\<exists>app. apps s a = Some app \<and> app_pthread app = t \<and> is_running app) \<and> a \<notin> set (unarrived_apps s)"
    and rt_lists: "a \<in> set (unarrived_apps s) \<union> set (arrived_apps s) \<Longrightarrow> apps s a \<noteq> None"
    and rt_lists_distinct: "distinct (unarrived_apps s @ arrived_apps s)"
    and rt_fresh: "apps s a \<noteq> None \<Longrightarrow> a < next_addr s"
    and rt_thread: "app_thread_map s t \<noteq> None \<or> app_threads s t \<noteq> None \<Longrightarrow> t < next_thread s"
    and rt_running: "apps s a = Some app \<Longrightarrow> is_running app \<Longrightarrow> a \<in> set (arrived_apps s)"
  using assms unfolding rt_ok_def by blast+

lemma refs_simps [simp]:
  "refs (s\<lparr>apps := x1\<rparr>) = refs s" "refs (s\<lparr>next_addr := x2\<rparr>) = refs s" "refs (s\<lparr>unarrived_apps := x3\<rparr>) = refs s"
  "refs (s\<lparr>arrived_apps := x3\<rparr>) = refs s" "refs (s\<lparr>poison_queue := x4\<rparr>) = refs s"
  "refs (s\<lparr>app_thread_map := x5\<rparr>) = refs s" "refs (s\<lparr>app_threads := x6\<rparr>) = refs s" "refs (s\<lparr>next_thread := x7\<rparr>) = refs s"
  "refs (s\<lparr>rt_ticks := x7\<rparr>) = refs s" "refs (s\<lparr>stream_timing_log := x8\<rparr>) = refs s" "refs (s\<lparr>sched_log := x9\<rparr>) = refs s"
  "refs (s\<lparr>app_log := x10\<rparr>) = refs s" "refs (s\<lparr>resolved_app_count := x11\<rparr>) = refs s" "refs (s\<lparr>appNum := x11\<rparr>) = refs s"
  "refs (s\<lparr>sharedObjectMap := x12\<rparr>) = refs s" "refs (s\<lparr>applicationMap := x13\<rparr>) = refs s" "refs (s\<lparr>statics := x14\<rparr>) = refs s"
  "refs (s\<lparr>rt_shared := x15\<rparr>) = refs s"
  by (simp_all add: refs_def)

text \<open>Fields the invariant does not read may change freely.\<close>

lemma rt_ok_cong:
  assumes "rt_ok s" "refs s' = refs s" "apps s' = apps s" "poison_queue s' = poison_queue s"
    "app_threads s' = app_threads s" "app_thread_map s' = app_thread_map s" "unarrived_apps s' = unarrived_apps s"
    "arrived_apps s' = arrived_apps s" "next_addr s' = next_addr s" "next_thread s' = next_thread s"
  shows "rt_ok s'"
  using assms unfolding rt_ok_def by simp

section \<open>Every step keeps the invariant\<close>

lemma sum_list_update_mset:
  fixes f :: "'a \<Rightarrow> 'b::comm_monoid_add"
  assumes "i < length xs"
  shows "(\<Sum>x\<leftarrow>xs[i := y]. f x) + f (xs ! i) = (\<Sum>x\<leftarrow>xs. f x) + f y"
  using assms
proof (induction xs arbitrary: i)
  case Nil
  then show ?case by simp
next
  case (Cons x xs)
  then show ?case by (cases i) (simp_all add: ac_simps)
qed

lemma app_pnt_untimed [simp]: "app_pnt (untimed t) = app_pnt t"
  by (simp add: untimed_def)

lemma app_pnt_descr [simp]: "app_pnt (descr t) = app_pnt t"
  by (simp add: descr_def)

lemma held_refs:
  assumes "map untimed xs = map untimed ys"
  shows "image_mset app_pnt (mset xs) = image_mset app_pnt (mset ys)"
proof -
  have "map app_pnt xs = map app_pnt ys" using arg_cong [OF assms, of "map app_pnt"] by (simp add: comp_def)
  then show ?thesis by (metis mset_map)
qed

lemma worker_ok:
  assumes "rt_ok s" "i < length (pes s)" "hw_step (pes s ! i, g) = Some (h, g')"
  shows "rt_ok (s\<lparr>pes := (pes s)[i := h], rt_shared := g'\<rparr>)"
proof (rule rt_ok_cong [OF assms(1)])
  have "image_mset app_pnt (mset (held h)) = image_mset app_pnt (mset (held (pes s ! i)))"
    using held_refs [OF hw_step_held [OF assms(3)]] .
  with sum_list_update_mset [OF assms(2), of "\<lambda>h. image_mset app_pnt (mset (held h))" h]
  show "refs (s\<lparr>pes := (pes s)[i := h], rt_shared := g'\<rparr>) = refs s" by (simp add: refs_def)
qed simp_all

lemma thread_app_registered: "app_thread_map s self = Some a \<Longrightarrow> thread_app self s = (a, s)"
  by (simp add: thread_app_def)

lemma kernel_call_cases:
  assumes "app_thread_map s self = Some a" "apps s a = Some app" "k \<noteq> ''POISON_PILL''" "enqueue_kernel self k pr va s = Inr s'"
  shows "s' = s \<or> (\<exists>t. app_pnt t = a \<and>
    s' = (store_app a (app\<lparr>task_count := task_count app + 1\<rparr>) s)\<lparr>ready_queue := ready_queue s @ [t]\<rparr>)"
proof (cases "api_types_map k")
  case None
  then show ?thesis using assms(3,4) by (simp add: enqueue_kernel_def)
next
  case (Some api)
  show ?thesis
  proof (cases "precision_types_map pr")
    case None
    then show ?thesis using assms(3,4) Some by (simp add: enqueue_kernel_def)
  next
    case (Some p)
    then show ?thesis
      using assms(2-4) \<open>api_types_map k = Some api\<close> thread_app_registered [OF assms(1)]
      by (intro disjI2 exI [of _ "(kernel_node k api p va s)\<lparr>parent_app_pthread := self, app_pnt := a, task_id := task_count app\<rparr>"])
        (simp add: enqueue_kernel_def deref_def)
  qed
qed

text \<open>An update of one application's counters that agrees with the change of the tasks in flight.\<close>

lemma rt_ok_touch:
  assumes ok: "rt_ok s" and app: "apps s a = Some app" and s': "apps s' = (apps s)(a \<mapsto> app')"
    and fields: "app_pthread app' = app_pthread app" "is_running app' = is_running app"
    and others: "\<And>b. b \<noteq> a \<Longrightarrow> count (refs s') b = count (refs s) b"
    and counts: "task_count app' = completed_task_count app' + int (count (refs s') a)"
    and same: "poison_queue s' = poison_queue s"
    "app_threads s' = app_threads s" "app_thread_map s' = app_thread_map s" "unarrived_apps s' = unarrived_apps s"
    "arrived_apps s' = arrived_apps s" "next_addr s' = next_addr s" "next_thread s' = next_thread s"
  shows "rt_ok s'"
proof (rule rt_okI)
  fix b assume "b \<in># refs s'"
  then have "b = a \<or> b \<in># refs s" using others [of b] by (metis count_greater_zero_iff)
  then show "apps s' b \<noteq> None" using rt_refs [OF ok, of b] by (auto simp: s')
next
  fix b ap assume "apps s' b = Some ap"
  then show "task_count ap = completed_task_count ap + int (count (refs s') b)"
    using rt_count [OF ok, of b ap] others [of b] counts s' by (cases "b = a") auto
next
  fix p assume "p \<in> set (poison_queue s')"
  then show "\<exists>app. apps s' (app_pnt p) = Some app \<and> app_pthread app = parent_app_pthread p \<and>
        app_threads s' (parent_app_pthread p) = Some ThreadFinished \<and>
        app_thread_map s' (parent_app_pthread p) = Some (app_pnt p)"
    using rt_pills [OF ok, of p] app fields unfolding same s' by (cases "app_pnt p = a") auto
next
  fix u b assume "app_thread_map s' u = Some b"
  then show "(\<exists>app. apps s' b = Some app \<and> app_pthread app = u \<and> is_running app) \<and> b \<notin> set (unarrived_apps s')"
    using rt_map [OF ok, of u b] app fields unfolding same s' by (cases "b = a") auto
next
  fix b assume "b \<in> set (unarrived_apps s') \<union> set (arrived_apps s')"
  then show "apps s' b \<noteq> None" using rt_lists [OF ok, of b] unfolding same s' by simp
next
  fix b assume "apps s' b \<noteq> None"
  then show "b < next_addr s'" using rt_fresh [OF ok, of b] app unfolding same s' by (cases "b = a") auto
next
  fix b ap assume "apps s' b = Some ap" "is_running ap"
  then show "b \<in> set (arrived_apps s')" using rt_running [OF ok, of b] app fields unfolding same s' by (cases "b = a") auto
qed (use rt_okD [OF ok] same in auto)

lemma kernel_call_ok:
  assumes "rt_ok s" "app_thread_map s self = Some a" "k \<noteq> ''POISON_PILL''" "enqueue_kernel self k pr va s = Inr s'"
  shows "rt_ok s'"
proof -
  obtain app where app: "apps s a = Some app" using rt_map [OF assms(1,2)] by blast
  from kernel_call_cases [OF assms(2) app assms(3,4)] show ?thesis
  proof (elim disjE exE conjE)
    fix t assume t: "app_pnt t = a"
      and s': "s' = (store_app a (app\<lparr>task_count := task_count app + 1\<rparr>) s)\<lparr>ready_queue := ready_queue s @ [t]\<rparr>"
    have r: "refs s' = add_mset a (refs s)" using t by (simp add: s' refs_def store_app_def)
    show ?thesis
      by (rule rt_ok_touch [OF assms(1) app, of _ "app\<lparr>task_count := task_count app + 1\<rparr>"])
        (use rt_count [OF assms(1) app] in \<open>simp_all add: r, simp_all add: s' store_app_def\<close>)
  qed (use assms(1) in simp)
qed

lemma app_end_ok:
  assumes "rt_ok s" "app_threads s self = Some ThreadRunning" "app_thread_map s self = Some a" "nk_thread_end self s = Inr s'"
  shows "rt_ok s'"
proof -
  let ?pill = "null_task\<lparr>task_name := ''POISON PILL'', parent_app_pthread := self, app_pnt := a\<rparr>"
  have s': "s' = s\<lparr>poison_queue := poison_queue s @ [?pill], app_threads := (app_threads s)(self \<mapsto> ThreadFinished)\<rparr>"
    using assms(4) thread_app_registered [OF assms(3)] by (simp add: nk_thread_end_def enqueue_kernel_def)
  obtain app where app: "apps s a = Some app" "app_pthread app = self" using rt_map [OF assms(1,3)] by blast
  have new: "app_pnt p \<noteq> a" if "p \<in> set (poison_queue s)" for p
    using rt_pills [OF assms(1) that] app assms(2) by auto
  show ?thesis
  proof (rule rt_okI)
    fix p assume "p \<in> set (poison_queue s')"
    then show "\<exists>app. apps s' (app_pnt p) = Some app \<and> app_pthread app = parent_app_pthread p \<and>
        app_threads s' (parent_app_pthread p) = Some ThreadFinished \<and>
        app_thread_map s' (parent_app_pthread p) = Some (app_pnt p)"
      using rt_pills [OF assms(1), of p] app assms(3) by (auto simp: s')
  next
    show "distinct (map app_pnt (poison_queue s'))"
      using rt_pills_distinct [OF assms(1)] new by (auto simp: s')
  next
    fix u assume "app_thread_map s' u \<noteq> None \<or> app_threads s' u \<noteq> None"
    then show "u < next_thread s'"
      using rt_thread [OF assms(1), of u] assms(3) by (auto simp: s' split: if_splits)
  qed (use rt_okD [OF assms(1)] in \<open>simp_all add: s'\<close>)
qed

lemma not_ref: "rt_ok s \<Longrightarrow> apps s a = None \<Longrightarrow> count (refs s) a = 0"
  using rt_refs [of s a] by (auto simp: count_eq_zero_iff)

lemma tick_ok [simp]: "rt_ok (snd (tick s)) \<longleftrightarrow> rt_ok s"
  unfolding tick_def by (auto intro: rt_ok_cong)

lemma new_app_ok:
  assumes ok: "rt_ok s" and app: "task_count app = 0" "completed_task_count app = 0" "\<not> is_running app"
  shows "rt_ok ((store_app (next_addr s) app s)\<lparr>next_addr := next_addr s + 1, appNum := n,
    unarrived_apps := unarrived_apps s @ [next_addr s]\<rparr>)" (is "rt_ok ?s")
proof -
  have free: "apps s (next_addr s) = None" using rt_fresh [OF ok, of "next_addr s"] by (cases "apps s (next_addr s)") auto
  have old: "b \<noteq> next_addr s" if "apps s b \<noteq> None" for b using rt_fresh [OF ok that] by simp
  have r: "refs ?s = refs s" by (simp add: store_app_def)
  have a: "apps ?s = (apps s)(next_addr s \<mapsto> app)" by (simp add: store_app_def)
  have notin: "next_addr s \<notin> set (unarrived_apps s) \<union> set (arrived_apps s)" using rt_lists [OF ok] free by blast
  show ?thesis
  proof (rule rt_okI, unfold r a)
    fix b ap assume "((apps s)(next_addr s \<mapsto> app)) b = Some ap"
    then show "task_count ap = completed_task_count ap + int (count (refs s) b)"
      using rt_count [OF ok, of b ap] not_ref [OF ok free] app by (auto split: if_splits)
  next
    fix p assume "p \<in> set (poison_queue ?s)"
    then have "p \<in> set (poison_queue s)" by (simp add: store_app_def)
    from rt_pills [OF ok this] old [of "app_pnt p"]
    show "\<exists>ap. ((apps s)(next_addr s \<mapsto> app)) (app_pnt p) = Some ap \<and> app_pthread ap = parent_app_pthread p \<and>
        app_threads ?s (parent_app_pthread p) = Some ThreadFinished \<and>
        app_thread_map ?s (parent_app_pthread p) = Some (app_pnt p)"
      by (auto simp: store_app_def)
  next
    fix t b assume "app_thread_map ?s t = Some b"
    then have "app_thread_map s t = Some b" by (simp add: store_app_def)
    from rt_map [OF ok this] old [of b]
    show "(\<exists>ap. ((apps s)(next_addr s \<mapsto> app)) b = Some ap \<and> app_pthread ap = t \<and> is_running ap) \<and>
        b \<notin> set (unarrived_apps ?s)"
      by (auto simp: store_app_def)
  next
    show "distinct (unarrived_apps ?s @ arrived_apps ?s)"
      using rt_lists_distinct [OF ok] notin by (auto simp: store_app_def)
  next
    fix b assume "((apps s)(next_addr s \<mapsto> app)) b \<noteq> None"
    then show "b < next_addr ?s" using rt_fresh [OF ok, of b] by (cases "b = next_addr s") auto
  next
    fix b ap assume "((apps s)(next_addr s \<mapsto> app)) b = Some ap" "is_running ap"
    then show "b \<in> set (arrived_apps ?s)"
      using rt_running [OF ok, of b ap] app by (auto simp: store_app_def split: if_splits)
  next
    fix b assume "b \<in># refs s"
    then show "((apps s)(next_addr s \<mapsto> app)) b \<noteq> None" using rt_refs [OF ok] by simp
  next
    show "distinct (map app_pnt (poison_queue ?s))" using rt_pills_distinct [OF ok] by (simp add: store_app_def)
  next
    fix b assume "b \<in> set (unarrived_apps ?s) \<union> set (arrived_apps ?s)"
    then show "((apps s)(next_addr s \<mapsto> app)) b \<noteq> None" using rt_lists [OF ok, of b] by (auto simp: store_app_def)
  next
    fix t assume "app_thread_map ?s t \<noteq> None \<or> app_threads ?s t \<noteq> None"
    then show "t < next_thread ?s" using rt_thread [OF ok, of t] by (simp add: store_app_def)
  qed
qed

lemma inject_one_ok: "rt_ok s \<Longrightarrow> rt_ok (snd (inject_one V p per acc s))"
  unfolding inject_one_def Let_def split_beta snd_conv
  by (rule new_app_ok) simp_all

lemma inject_many_ok: "rt_ok s \<Longrightarrow> rt_ok (inject_many V p per n acc s)"
  by (induction n arbitrary: acc s) (auto simp: split_beta inject_one_ok)

lemma parse_binary_ok: "rt_ok s \<Longrightarrow> rt_ok (snd (parse_binary V f s))"
  by (auto simp: parse_binary_def openHandle_def Let_def intro!: rt_ok_cong [of s] split: option.splits)

lemma inject_slot_ok: "rt_ok s \<Longrightarrow> rt_ok (inject_slot V x s)"
proof (cases x)
  case (fields path num period)
  assume ok: "rt_ok s"
  let ?name = "after_last (CHR ''/'') path"
  obtain r s1 where p: "parse_binary V path s = (r, s1)" by force
  then have "rt_ok s1" using parse_binary_ok [OF ok, of V path] by simp
  moreover then have "rt_ok (s1\<lparr>applicationMap := m\<rparr>)" for m by (rule rt_ok_cong) simp_all
  ultimately show ?thesis
    using ok p by (auto simp: inject_slot_def fields Let_def inject_many_ok split: option.splits)
qed

lemma inject_ok: "rt_ok s \<Longrightarrow> rt_ok (inject_message V m s)"
proof -
  have "rt_ok s \<Longrightarrow> rt_ok (fold (inject_slot V) xs s)" for xs
    by (induction xs arbitrary: s) (simp_all add: inject_slot_ok)
  then show "rt_ok s \<Longrightarrow> rt_ok (inject_message V m s)" by (simp add: inject_message_def)
qed

text \<open>An application moves from the waiting list to the arrived ones.\<close>

lemma move_ok:
  assumes ok: "rt_ok s" and a: "a \<in> set (unarrived_apps s)"
  shows "rt_ok (s\<lparr>unarrived_apps := remove1 a (unarrived_apps s), arrived_apps := arrived_apps s @ [a]\<rparr>)"
proof (rule rt_okI)
  let ?s = "s\<lparr>unarrived_apps := remove1 a (unarrived_apps s), arrived_apps := arrived_apps s @ [a]\<rparr>"
  show "distinct (unarrived_apps ?s @ arrived_apps ?s)"
    using rt_lists_distinct [OF ok] a by (auto simp: distinct_remove1)
  fix t b assume "app_thread_map ?s t = Some b"
  then show "(\<exists>app. apps ?s b = Some app \<and> app_pthread app = t \<and> is_running app) \<and> b \<notin> set (unarrived_apps ?s)"
    using rt_map [OF ok, of t b] by (auto dest: notin_set_remove1)
next
  let ?s = "s\<lparr>unarrived_apps := remove1 a (unarrived_apps s), arrived_apps := arrived_apps s @ [a]\<rparr>"
  fix b assume "b \<in> set (unarrived_apps ?s) \<union> set (arrived_apps ?s)"
  then have "b \<in> set (unarrived_apps s) \<union> set (arrived_apps s)"
    using a set_remove1_subset [of a "unarrived_apps s"] by auto
  then show "apps ?s b \<noteq> None" using rt_lists [OF ok, of b] by simp
qed (use rt_okD [OF ok] in simp_all)

lemma arrive_due_ok:
  assumes "rt_env_ok V" "rt_ok s" "arrive_due n V t s = Inr s'"
  shows "rt_ok s'"
  using assms(2,3)
proof (induction n arbitrary: s)
  case 0
  then show ?case by simp
next
  case (Suc n)
  show ?case
  proof (cases "unarrived_apps s = []")
    case True
    then show ?thesis using Suc.prems by simp
  next
    case False
    let ?a = "pq_top V (arrival_of s) (unarrived_apps s)"
    have a: "?a \<in> set (unarrived_apps s)" using assms(1) False by (simp add: rt_env_ok_def)
    then obtain app where app: "apps s ?a = Some app" using rt_lists [OF Suc.prems(1)] by blast
    let ?s = "store_app ?a (app\<lparr>arrival_time := word_of_int t\<rparr>) s"
    have "rt_ok ?s"
      by (rule rt_ok_touch [OF Suc.prems(1) app, of _ "app\<lparr>arrival_time := word_of_int t\<rparr>"])
        (use rt_count [OF Suc.prems(1) app] in \<open>simp_all add: store_app_def\<close>)
    from move_ok [OF this, of ?a] a
    have "rt_ok (?s\<lparr>unarrived_apps := remove1 ?a (unarrived_apps s), arrived_apps := arrived_apps s @ [?a]\<rparr>)"
      by (simp add: store_app_def)
    from Suc.IH [OF this] Suc.prems False app show ?thesis
      by (simp add: Let_def deref_def split: if_splits)
  qed
qed

lemma arrive_ok: "rt_env_ok V \<Longrightarrow> rt_ok s \<Longrightarrow> arrivals V s = Inr s' \<Longrightarrow> rt_ok s'"
  using tick_ok [of s] arrive_due_ok [of V "snd (tick s)"] by (simp add: arrivals_def split_beta)

lemma launch_ok:
  assumes ok: "rt_ok s" and a: "a \<in> set (arrived_apps s)" and l: "launch_app a s = Inr s'"
  shows "rt_ok s'"
proof -
  obtain app where app: "apps s a = Some app" using rt_lists [OF ok, of a] a by blast
  show ?thesis
  proof (cases "is_running app")
    case True
    with l app ok show ?thesis by (simp add: launch_app_def deref_def)
  next
    case False
    let ?t = "next_thread s"
    define app' where "app' = app\<lparr>app_pthread := ?t, start_time := word_of_int (rt_clock s (rt_ticks s)), is_running := True\<rparr>"
    have s': "s' = s\<lparr>rt_ticks := rt_ticks s + 1, apps := (apps s)(a \<mapsto> app'), next_thread := ?t + 1,
        app_threads := (app_threads s)(?t \<mapsto> ThreadRunning), app_thread_map := (app_thread_map s)(?t \<mapsto> a)\<rparr>"
      using l app False
      by (simp add: launch_app_def deref_def launch_create_def launch_register_def tick_def store_app_def app'_def Let_def)
    have app': "task_count app' = task_count app" "completed_task_count app' = completed_task_count app"
      "app_pthread app' = ?t" "is_running app'" by (simp_all add: app'_def)
    have fresh: "app_thread_map s ?t = None" "app_threads s ?t = None" using rt_thread [OF ok, of ?t] by (metis less_irrefl_nat)+
    have unmapped: "app_thread_map s t \<noteq> Some a" for t using rt_map [OF ok, of t a] app False by auto
    have notun: "a \<notin> set (unarrived_apps s)" using rt_lists_distinct [OF ok] a by auto
    show ?thesis
    proof (rule rt_okI)
      fix p assume "p \<in> set (poison_queue s')"
      then have p: "p \<in> set (poison_queue s)" by (simp add: s')
      from rt_pills [OF ok p] have "app_pnt p \<noteq> a" "parent_app_pthread p \<noteq> ?t" using unmapped fresh by auto
      with rt_pills [OF ok p]
      show "\<exists>app. apps s' (app_pnt p) = Some app \<and> app_pthread app = parent_app_pthread p \<and>
        app_threads s' (parent_app_pthread p) = Some ThreadFinished \<and>
        app_thread_map s' (parent_app_pthread p) = Some (app_pnt p)"
        by (simp add: s')
    next
      fix t b assume "app_thread_map s' t = Some b"
      then show "(\<exists>app. apps s' b = Some app \<and> app_pthread app = t \<and> is_running app) \<and> b \<notin> set (unarrived_apps s')"
        using rt_map [OF ok, of t b] app' unmapped notun by (cases "t = ?t") (auto simp: s')
    next
      fix b ap assume "apps s' b = Some ap"
      then show "task_count ap = completed_task_count ap + int (count (refs s') b)"
        using rt_count [OF ok, of b] app app' by (cases "b = a") (auto simp: s')
    next
      fix b ap assume "apps s' b = Some ap" "is_running ap"
      then show "b \<in> set (arrived_apps s')" using rt_running [OF ok, of b ap] a by (cases "b = a") (auto simp: s')
    next
      fix t assume "app_thread_map s' t \<noteq> None \<or> app_threads s' t \<noteq> None"
      then show "t < next_thread s'" using rt_thread [OF ok, of t] by (cases "t = ?t") (auto simp: s')
    next
      fix b assume "apps s' b \<noteq> None"
      then show "b < next_addr s'" using rt_fresh [OF ok, of b] app by (cases "b = a") (auto simp: s')
    next
      fix b assume "b \<in># refs s'"
      then show "apps s' b \<noteq> None" using rt_refs [OF ok, of b] by (simp add: s')
    next
      fix b assume "b \<in> set (unarrived_apps s') \<union> set (arrived_apps s')"
      then show "apps s' b \<noteq> None" using rt_lists [OF ok, of b] by (simp add: s')
    qed (use rt_pills_distinct [OF ok] rt_lists_distinct [OF ok] in \<open>simp_all add: s'\<close>)
  qed
qed

section \<open>Scheduling, harvesting and retiring\<close>

lemma set_workers_Cons: "set_workers (w # ws) (h # hs) = h\<lparr>wt := w\<rparr> # set_workers ws hs"
  by (simp add: set_workers_def)

text \<open>Handing tasks to the workers' queues adds them to the tasks in flight.\<close>

lemma refs_set_workers:
  assumes "list_all2 (\<lambda>h w. \<exists>a new. w = (wt h)\<lparr>thread_avail_time := a, todo_task_dequeue := todo_task_dequeue (wt h) @ new\<rparr>) hs ws"
  shows "(\<Sum>h\<leftarrow>set_workers ws hs. image_mset app_pnt (mset (held h))) + image_mset app_pnt (queued (map wt hs)) =
    (\<Sum>h\<leftarrow>hs. image_mset app_pnt (mset (held h))) + image_mset app_pnt (queued ws)"
  using assms
proof (induction rule: list_all2_induct)
  case Nil
  then show ?case by (simp add: set_workers_def queued_def)
next
  case (Cons h hs w ws)
  then obtain a new where w: "w = (wt h)\<lparr>thread_avail_time := a, todo_task_dequeue := todo_task_dequeue (wt h) @ new\<rparr>"
    by blast
  have "held (h\<lparr>wt := w\<rparr>) = held h @ new" by (simp add: held_def in_hand_def w)
  with Cons.IH show ?case by (simp add: set_workers_Cons queued_def w ac_simps)
qed

lemma descr_refs:
  assumes "image_mset descr M = image_mset descr N"
  shows "image_mset app_pnt M = image_mset app_pnt N"
  using arg_cong [OF assms, of "image_mset app_pnt"] by (simp add: multiset.map_comp comp_def)

lemma schedule_refs:
  assumes E: "env_ok E" and r: "performScheduling E q ((st)\<lparr>workers := map wt hs\<rparr>) = Some (Scheduled q' st')"
  shows "image_mset app_pnt (mset q') + (\<Sum>h\<leftarrow>set_workers (workers st') hs. image_mset app_pnt (mset (held h))) =
    image_mset app_pnt (mset q) + (\<Sum>h\<leftarrow>hs. image_mset app_pnt (mset (held h)))"
proof -
  have c: "image_mset descr (mset q' + queued (workers st')) = image_mset descr (mset q + queued (map wt hs)) \<and>
    length (workers st') = length hs \<and>
    (\<forall>i < length hs. \<exists>new. received (cfg E) (wt (hs ! i)) (workers st' ! i) new)"
  proof (cases "q = []")
    case True
    have "\<exists>new. received c th th new" for c th using received_refl by blast
    with True r show ?thesis by (auto simp: performScheduling_def)
  next
    case False
    from performScheduling_round [OF r False] obtain n where
      "run_policy E q (st\<lparr>workers := map wt hs\<rparr>) = Some (Some (n, q', st'))" .
    then have "(case run_policy E q (st\<lparr>workers := map wt hs\<rparr>) of None \<Rightarrow> None | Some r \<Rightarrow> r) = Some (n, q', st')" by simp
    from any_policy.conserves [OF E this] any_policy.gives [OF E this] show ?thesis by auto
  qed
  then have "list_all2 (\<lambda>h w. \<exists>a new. w = (wt h)\<lparr>thread_avail_time := a, todo_task_dequeue := todo_task_dequeue (wt h) @ new\<rparr>)
      hs (workers st')"
    by (fastforce simp: list_all2_conv_all_nth received_def)
  note 1 = refs_set_workers [OF this]
  from c have 2: "image_mset app_pnt (mset q') + image_mset app_pnt (queued (workers st')) =
      image_mset app_pnt (mset q) + image_mset app_pnt (queued (map wt hs))"
    using descr_refs by (metis image_mset_union)
  have cancel: "A + H' = B + H" if "H' + Q = H + Q'" "A + Q' = B + Q" for A B H H' Q Q' :: "addr multiset"
  proof -
    have "(A + H') + Q = A + (H + Q')" using that(1) by (simp add: add.assoc)
    also have "\<dots> = (A + Q') + H" by (simp add: ac_simps)
    also have "\<dots> = (B + H) + Q" using that(2) by (simp add: ac_simps)
    finally show ?thesis by simp
  qed
  from cancel [OF 1 2] show ?thesis .
qed

lemma schedule_ok:
  assumes V: "rt_env_ok V" and ok: "rt_ok s" and r: "schedule_phase V s = Inr s'"
  shows "rt_ok s'"
proof (cases "ready_queue s = []")
  case True
  with ok r show ?thesis by (simp add: schedule_phase_def)
next
  case False
  with r obtain q st s2 l t where
    p: "performScheduling (senv V) (ready_queue s) ((statics s)\<lparr>workers := map wt (pes s)\<rparr>) = Some (Scheduled q st)"
    and s': "s' = s\<lparr>rt_ticks := t, ready_queue := q, pes := set_workers (workers st) (pes s), statics := st, sched_log := l\<rparr>"
    by (auto simp: schedule_phase_def tick_def Let_def split: option.splits sched_outcome.splits)
  from schedule_refs [OF _ p] V have "refs s' = refs s" by (simp add: s' refs_def rt_env_ok_def)
  from rt_ok_cong [OF ok this] show ?thesis by (simp add: s')
qed

lemma harvest_ok:
  assumes ok: "rt_ok s" and r: "harvest_one i s = Inr s'"
  shows "rt_ok s'"
proof -
  from r have i: "i < length (pes s)" by (auto simp: harvest_one_def split: if_splits)
  let ?h = "pes s ! i"
  from r i obtain task rest where c: "completed_task_dequeue (wt ?h) = task # rest"
    by (cases "completed_task_dequeue (wt ?h)") (auto simp: harvest_one_def)
  let ?a = "app_pnt task" and ?h' = "?h\<lparr>wt := (wt ?h)\<lparr>completed_task_dequeue := rest\<rparr>\<rparr>"
  from r i c obtain app l where app: "apps s ?a = Some app"
    and s': "s' = s\<lparr>pes := (pes s)[i := ?h'], apps := (apps s)(?a \<mapsto> app\<lparr>completed_task_count := completed_task_count app + 1\<rparr>),
      stream_timing_log := l\<rparr>"
    by (auto simp: harvest_one_def deref_def Let_def store_app_def split: option.splits)
  have "image_mset app_pnt (mset (held ?h)) = add_mset ?a (image_mset app_pnt (mset (held ?h')))"
    using c by (simp add: held_def in_hand_def)
  with sum_list_update_mset [OF i, of "\<lambda>h. image_mset app_pnt (mset (held h))" ?h']
  have r': "refs s = add_mset ?a (refs s')" by (simp add: s' refs_def ac_simps)
  then have counts: "count (refs s) b = (if b = ?a then count (refs s') b + 1 else count (refs s') b)" for b
    by simp
  show ?thesis
    by (rule rt_ok_touch [OF ok app, of _ "app\<lparr>completed_task_count := completed_task_count app + 1\<rparr>"])
      (use rt_count [OF ok app] counts in \<open>simp_all add: s'\<close>)
qed

lemma retire_ok:
  assumes ok: "rt_ok s" and p: "pill \<in> set (poison_queue s)"
    and r: "retire_app pill s = Inr s'" and app: "apps s (app_pnt pill) = Some app"
    and all_logged: "completed_task_count app = task_count app"
  shows "rt_ok (s'\<lparr>poison_queue := filter (\<lambda>q. app_pnt q \<noteq> app_pnt pill) (poison_queue s)\<rparr>)" (is "rt_ok ?s")
proof -
  let ?a = "app_pnt pill" and ?t = "parent_app_pthread pill"
  from rt_pills [OF ok p] app have t: "app_pthread app = ?t" "app_threads s ?t = Some ThreadFinished"
    "app_thread_map s ?t = Some ?a" by auto
  then have s': "s' = s\<lparr>rt_ticks := rt_ticks s + 1, app_log := app_log s @ [app_record app (rt_clock s (rt_ticks s))],
      resolved_app_count := resolved_app_count s + 1, app_threads := (app_threads s)(?t := None), arrived_apps := filter (\<lambda>a. a \<noteq> ?a) (arrived_apps s),
      app_thread_map := (app_thread_map s)(?t := None), apps := (apps s)(?a := None)\<rparr>"
    using r app by (simp add: retire_app_def deref_def tick_def)
  have none: "count (refs s) ?a = 0" using rt_count [OF ok app] all_logged by simp
  have map: "app_pthread ap = u" if "app_thread_map s u = Some b" "apps s b = Some ap" for u b ap
    using rt_map [OF ok that(1)] that(2) by auto
  have notun: "?a \<notin> set (unarrived_apps s)" using rt_map [OF ok t(3)] by simp
  show ?thesis
  proof (rule rt_okI)
    fix b assume "b \<in># refs ?s"
    then show "apps ?s b \<noteq> None" using rt_refs [OF ok, of b] none by (auto simp: s' count_eq_zero_iff)
  next
    fix q assume "q \<in> set (poison_queue ?s)"
    then have q: "q \<in> set (poison_queue s)" "app_pnt q \<noteq> ?a" by auto
    from rt_pills [OF ok q(1)] t(3) q(2) have "parent_app_pthread q \<noteq> ?t" by auto
    with rt_pills [OF ok q(1)] q(2)
    show "\<exists>app. apps ?s (app_pnt q) = Some app \<and> app_pthread app = parent_app_pthread q \<and>
        app_threads ?s (parent_app_pthread q) = Some ThreadFinished \<and>
        app_thread_map ?s (parent_app_pthread q) = Some (app_pnt q)"
      by (simp add: s')
  next
    show "distinct (map app_pnt (poison_queue ?s))"
      using rt_pills_distinct [OF ok] by (simp add: distinct_map_filter)
  next
    fix u b assume "app_thread_map ?s u = Some b"
    then have u: "app_thread_map s u = Some b" "u \<noteq> ?t" by (auto simp: s' split: if_splits)
    from u map [OF u(1)] app t(1) have "b \<noteq> ?a" by auto
    with rt_map [OF ok u(1)]
    show "(\<exists>app. apps ?s b = Some app \<and> app_pthread app = u \<and> is_running app) \<and> b \<notin> set (unarrived_apps ?s)"
      by (simp add: s')
  next
    fix b assume "b \<in> set (unarrived_apps ?s) \<union> set (arrived_apps ?s)"
    then have "b \<in> set (unarrived_apps s) \<union> set (arrived_apps s)" "b \<noteq> ?a" using notun by (auto simp: s')
    then show "apps ?s b \<noteq> None" using rt_lists [OF ok, of b] by (simp add: s')
  next
    fix b ap assume "apps ?s b = Some ap" "is_running ap"
    then show "b \<in> set (arrived_apps ?s)" using rt_running [OF ok, of b ap] by (auto simp: s' split: if_splits)
  next
    fix u assume "app_thread_map ?s u \<noteq> None \<or> app_threads ?s u \<noteq> None"
    then show "u < next_thread ?s" using rt_thread [OF ok, of u] by (auto simp: s' split: if_splits)
  next
    fix b ap assume "apps ?s b = Some ap"
    then show "task_count ap = completed_task_count ap + int (count (refs ?s) b)"
      using rt_count [OF ok, of b ap] by (auto simp: s' split: if_splits)
  next
    fix b assume "apps ?s b \<noteq> None"
    then show "b < next_addr ?s" using rt_fresh [OF ok, of b] by (auto simp: s' split: if_splits)
  next
    show "distinct (unarrived_apps ?s @ arrived_apps ?s)" using rt_lists_distinct [OF ok] by (auto simp: s')
  qed
qed

text \<open>The poison queue is a local matter of the sweep, which removing an application does not read.\<close>

lemma retire_poison:
  "retire_app pill (s\<lparr>poison_queue := ps\<rparr>) = map_sum id (\<lambda>s. s\<lparr>poison_queue := ps\<rparr>) (retire_app pill s)"
  by (cases "apps s (app_pnt pill)") (simp_all add: retire_app_def deref_def tick_def bindR_def)

text \<open>Removing a finished application succeeds, and its pill may be dropped.\<close>

lemma retire_defined:
  assumes "rt_ok s" "pill \<in> set (poison_queue s)"
  shows "\<exists>s'. retire_app pill s = Inr s'"
  using rt_pills [OF assms] by (auto simp: retire_app_def deref_def tick_def)

lemma sweep_retire:
  assumes ok: "rt_ok (s\<lparr>poison_queue := kept @ pill # pills\<rparr>)" and app: "apps s (app_pnt pill) = Some app"
    and d: "completed_task_count app = task_count app"
  obtains s1 where "retire_app pill s = Inr s1" "rt_ok (s1\<lparr>poison_queue := kept @ pills\<rparr>)"
proof -
  obtain s2 where r2: "retire_app pill (s\<lparr>poison_queue := kept @ pill # pills\<rparr>) = Inr s2"
    using retire_defined [OF ok, of pill] by auto
  then obtain s1 where r: "retire_app pill s = Inr s1" "s2 = s1\<lparr>poison_queue := kept @ pill # pills\<rparr>"
    by (cases "retire_app pill s") (auto simp: retire_poison)
  have "filter (\<lambda>q. app_pnt q \<noteq> app_pnt pill) (kept @ pill # pills) = kept @ pills"
    using rt_pills_distinct [OF ok]
    by (auto simp: image_iff intro!: arg_cong2 [of _ _ _ _ "(@)"] filter_True)
  with retire_ok [OF ok _ r2 _ d] app r(2) have "rt_ok (s1\<lparr>poison_queue := kept @ pills\<rparr>)" by simp
  with r(1) that show ?thesis by blast
qed

lemma sweep_ok:
  assumes "rt_ok (s\<lparr>poison_queue := kept @ pills\<rparr>)" "sweep kept pills s = Inr s'"
  shows "rt_ok s'"
  using assms
proof (induction pills arbitrary: kept s)
  case Nil
  then show ?case by auto
next
  case (Cons pill pills)
  let ?s = "s\<lparr>poison_queue := kept @ pill # pills\<rparr>"
  obtain app where app: "apps s (app_pnt pill) = Some app"
    using rt_pills [OF Cons.prems(1), of pill] by auto
  show ?case
  proof (cases "completed_task_count app = task_count app")
    case False
    with Cons.prems app have "sweep (kept @ [pill]) pills s = Inr s'" by (simp add: deref_def)
    from Cons.IH [OF _ this] Cons.prems(1) show ?thesis by simp
  next
    case True
    from sweep_retire [OF Cons.prems(1) app True] obtain s1 where
      s1: "retire_app pill s = Inr s1" "rt_ok (s1\<lparr>poison_queue := kept @ pills\<rparr>)" .
    with Cons.prems(2) app True have "sweep kept pills s1 = Inr s'" by (auto simp: deref_def split: if_splits)
    from Cons.IH [OF s1(2) this] show ?thesis .
  qed
qed

lemma poison_ok: "rt_ok s \<Longrightarrow> poison_phase s = Inr s' \<Longrightarrow> rt_ok s'"
  using sweep_ok [where s = s and kept = "[]" and pills = "poison_queue s"] by (simp add: poison_phase_def)

lemma rt_step_ok:
  assumes "rt_env_ok V" "rt_step V s s'" "rt_ok s"
  shows "rt_ok s'"
  using assms(2,3)
proof (cases rule: rt_step.cases)
  case (kernel_call self k pr va)
  then show ?thesis using assms(3) kernel_call_ok by blast
next
  case (app_end self)
  then show ?thesis using assms(3) app_end_ok by blast
next
  case (worker_step i h g)
  then show ?thesis using assms(3) worker_ok by simp
next
  case (inject m)
  then show ?thesis using assms(3) inject_ok by simp
qed (use assms arrive_ok launch_ok schedule_ok harvest_ok poison_ok in blast)+

text \<open>The state the runtime starts in, with its workers created and nothing injected.\<close>

definition booted :: "rt \<Rightarrow> bool" where
  "booted s \<longleftrightarrow> apps s = Map.empty \<and> 0 < next_addr s \<and> unarrived_apps s = [] \<and> arrived_apps s = [] \<and>
     ready_queue s = [] \<and> poison_queue s = [] \<and> app_thread_map s = Map.empty \<and> app_threads s = Map.empty \<and>
     (\<forall>h \<in> set (pes s). held h = [])"

lemma booted_ok: "booted s \<Longrightarrow> rt_ok s"
proof -
  assume b: "booted s"
  have "(\<Sum>h\<leftarrow>hs. image_mset app_pnt (mset (held h))) = {#}" if "\<forall>h \<in> set hs. held h = []" for hs
    using that by (induction hs) simp_all
  with b have "refs s = {#}" by (simp add: refs_def booted_def)
  with b show "rt_ok s" by (simp add: rt_ok_def booted_def)
qed

lemma reachable_ok:
  assumes "rt_env_ok V" "booted s0" "(rt_step V)\<^sup>*\<^sup>* s0 s"
  shows "rt_ok s"
  using assms(3)
  by (induction rule: rtranclp_induct) (use assms rt_step_ok booted_ok in blast)+

lemma sum_list_map_mset_in:
  "x \<in># (\<Sum>h\<leftarrow>hs. image_mset f (mset (g h))) \<longleftrightarrow> (\<exists>h \<in> set hs. \<exists>y \<in> set (g h). x = f y)"
  by (induction hs) auto

section \<open>A round of the loop is a sequence of steps\<close>

lemma foldR_steps:
  assumes "\<And>x s s'. x \<in> set xs \<Longrightarrow> I s \<Longrightarrow> f x s = Inr s' \<Longrightarrow> R\<^sup>*\<^sup>* s s' \<and> I s'"
    and "I s" "foldR f xs s = Inr s'"
  shows "R\<^sup>*\<^sup>* s s' \<and> I s'"
  using assms
proof (induction xs arbitrary: s)
  case Nil
  then show ?case by simp
next
  case (Cons x xs)
  from Cons.prems(3) obtain s1 where "f x s = Inr s1" "foldR f xs s1 = Inr s'" by (auto simp: bindR_eq_Inr)
  with Cons show ?case by (metis list.set_intros rtranclp_trans)
qed

lemma launch_arrived_apps: "launch_app a s = Inr s' \<Longrightarrow> arrived_apps s' = arrived_apps s"
  by (auto simp: launch_app_def launch_create_def launch_register_def deref_def tick_def store_app_def Let_def bindR_eq_Inr
      split: option.splits if_splits)

lemma launch_steps:
  assumes "launch_arrived s = Inr s'"
  shows "(rt_step V)\<^sup>*\<^sup>* s s'"
proof -
  have "(rt_step V)\<^sup>*\<^sup>* s s' \<and> arrived_apps s' = arrived_apps s"
    by (rule foldR_steps [where f = launch_app and xs = "arrived_apps s" and I = "\<lambda>t. arrived_apps t = arrived_apps s"])
      (use assms launch_arrived_apps rt_step.launch in \<open>auto simp: launch_arrived_def\<close>)
  then show ?thesis by simp
qed

lemma harvest_times_steps: "harvest_times i n s = Inr s' \<Longrightarrow> (rt_step V)\<^sup>*\<^sup>* s s'"
proof (induction n arbitrary: s)
  case 0
  then show ?case by simp
next
  case (Suc n)
  then obtain s1 where "harvest_one i s = Inr s1" "harvest_times i n s1 = Inr s'" by (auto simp: bindR_eq_Inr)
  with Suc.IH show ?case by (meson converse_rtranclp_into_rtranclp rt_step.harvest)
qed

lemma harvest_steps:
  assumes "harvest_phase V s = Inr s'"
  shows "(rt_step V)\<^sup>*\<^sup>* s s'"
proof -
  have "(rt_step V)\<^sup>*\<^sup>* s s' \<and> True"
    by (rule foldR_steps [where f = harvest_pe and xs = "[0..<total_resources (senv V)]"])
      (use assms harvest_times_steps in \<open>auto simp: harvest_phase_def harvest_pe_def split: if_splits\<close>)
  then show ?thesis by simp
qed

lemma round_steps:
  assumes "daemon_round V c got s = Inr (False, got', s')"
  shows "(rt_step V)\<^sup>*\<^sup>* s s'"
proof -
  let ?s0 = "if cmd_type c = SH_OBJ then inject_message V (message c) s else s"
  have "\<not> (cmd_type c \<noteq> SH_OBJ \<and> (cmd_type c = SERVER_EXIT \<or> should_exit_early V got s))"
    using assms by (cases "shutdown_phase s") (auto simp: daemon_round_def split: if_splits)
  with assms obtain s1 s2 s3 s4 where s: "arrivals V ?s0 = Inr s1" "launch_arrived s1 = Inr s2"
    "schedule_phase V s2 = Inr s3" "harvest_phase V s3 = Inr s4" "poison_phase s4 = Inr s'"
    by (auto simp: daemon_round_def bindR_eq_Inr map_sum_eq_Inr split: if_splits)
  have "(rt_step V)\<^sup>*\<^sup>* s ?s0" using rt_step.inject by (simp add: r_into_rtranclp)
  moreover have "(rt_step V)\<^sup>*\<^sup>* ?s0 s1" using s(1) by (simp add: r_into_rtranclp rt_step.arrive)
  moreover have "(rt_step V)\<^sup>*\<^sup>* s1 s2" using s(2) by (rule launch_steps)
  moreover have "(rt_step V)\<^sup>*\<^sup>* s2 s3" using s(3) by (simp add: r_into_rtranclp rt_step.schedule)
  moreover have "(rt_step V)\<^sup>*\<^sup>* s3 s4" using s(4) by (rule harvest_steps)
  moreover have "(rt_step V)\<^sup>*\<^sup>* s4 s'" using s(5) by (simp add: r_into_rtranclp rt_step.poison)
  ultimately show ?thesis by (meson rtranclp_trans)
qed

section \<open>Accesses in a consistent state are defined\<close>

lemma kernel_defined:
  assumes "rt_ok s" "app_thread_map s self \<noteq> None"
  shows "enqueue_kernel self k pr va s \<noteq> Inl Undefined"
proof -
  obtain a app where m: "app_thread_map s self = Some a" and app: "apps s a = Some app"
    using assms(2) rt_map [OF assms(1)] by blast
  show ?thesis
    using app thread_app_registered [OF m]
    by (simp add: enqueue_kernel_def Let_def deref_def split: option.split)
qed

lemma harvest_defined:
  assumes "rt_ok s" "i < length (pes s)" "completed_task_dequeue (wt (pes s ! i)) \<noteq> []"
  shows "\<exists>s'. harvest_one i s = Inr s'"
proof -
  obtain task rest where c: "completed_task_dequeue (wt (pes s ! i)) = task # rest"
    using assms(3) by (cases "completed_task_dequeue (wt (pes s ! i))") auto
  then have "task \<in> set (held (pes s ! i))" by (simp add: held_def)
  then have "app_pnt task \<in># refs s" using assms(2) by (auto simp: refs_def sum_list_map_mset_in)
  then obtain app where "apps s (app_pnt task) = Some app" using rt_refs [OF assms(1)] by blast
  with c assms(2) show ?thesis by (simp add: harvest_one_def deref_def Let_def)
qed

lemma arrive_due_defined:
  assumes "rt_env_ok V" "rt_ok s"
  shows "\<exists>s'. arrive_due n V t s = Inr s'"
  using assms(2)
proof (induction n arbitrary: s)
  case 0
  then show ?case by simp
next
  case (Suc n)
  show ?case
  proof (cases "unarrived_apps s = []")
    case True
    then show ?thesis by simp
  next
    case False
    let ?a = "pq_top V (arrival_of s) (unarrived_apps s)"
    have a: "?a \<in> set (unarrived_apps s)" using assms(1) False by (simp add: rt_env_ok_def)
    then obtain app where app: "apps s ?a = Some app" using rt_lists [OF Suc.prems(1)] by blast
    show ?thesis
    proof (cases "arrival_time app \<le> word_of_int t")
      case False
      with app \<open>unarrived_apps s \<noteq> []\<close> show ?thesis by (simp add: deref_def Let_def)
    next
      case True
      let ?s = "(store_app ?a (app\<lparr>arrival_time := word_of_int t\<rparr>) s)\<lparr>
         unarrived_apps := remove1 ?a (unarrived_apps s), arrived_apps := arrived_apps s @ [?a]\<rparr>"
      have "arrive_due (Suc 0) V t s = Inr ?s" using True app False \<open>unarrived_apps s \<noteq> []\<close>
        by (simp add: deref_def Let_def)
      from arrive_due_ok [OF assms(1) Suc.prems this] obtain s' where "arrive_due n V t ?s = Inr s'" using Suc.IH by blast
      then show ?thesis using True app \<open>unarrived_apps s \<noteq> []\<close> by (simp add: deref_def Let_def)
    qed
  qed
qed

lemma arrivals_defined: "rt_env_ok V \<Longrightarrow> rt_ok s \<Longrightarrow> \<exists>s'. arrivals V s = Inr s'"
  using arrive_due_defined [of V "snd (tick s)"] by (simp add: arrivals_def split_beta)

lemma launch_defined:
  assumes "rt_ok s" "a \<in> set (arrived_apps s)"
  shows "\<exists>s'. launch_app a s = Inr s'"
proof -
  obtain app where "apps s a = Some app" using rt_lists [OF assms(1), of a] assms(2) by blast
  then show ?thesis
    by (simp add: launch_app_def deref_def launch_create_def launch_register_def tick_def store_app_def Let_def)
qed

lemma sweep_defined:
  assumes "rt_ok (s\<lparr>poison_queue := kept @ pills\<rparr>)" "length (kept @ pills) \<le> 2"
  shows "\<exists>s'. sweep kept pills s = Inr s'"
  using assms
proof (induction pills arbitrary: kept s)
  case Nil
  then show ?case by simp
next
  case (Cons pill pills)
  obtain app where app: "apps s (app_pnt pill) = Some app" using rt_pills [OF Cons.prems(1), of pill] by auto
  show ?case
  proof (cases "completed_task_count app = task_count app")
    case False
    with Cons.IH [where s = s and kept = "kept @ [pill]"] Cons.prems app show ?thesis by (simp add: deref_def)
  next
    case True
    from sweep_retire [OF Cons.prems(1) app True] obtain s1 where
      s1: "retire_app pill s = Inr s1" "rt_ok (s1\<lparr>poison_queue := kept @ pills\<rparr>)" .
    have "kept = [] \<or> pills = []" using Cons.prems(2) by (cases kept; cases pills) auto
    with s1 True app Cons.IH [OF s1(2)] Cons.prems(2) show ?thesis by (auto simp: deref_def)
  qed
qed

lemma poison_defined: "rt_ok s \<Longrightarrow> length (poison_queue s) \<le> 2 \<Longrightarrow> \<exists>s'. poison_phase s = Inr s'"
  using sweep_defined [where s = s and kept = "[]" and pills = "poison_queue s"] by (simp add: poison_phase_def)

section \<open>Injection and arrival\<close>

lemma inject_many_spec:
  assumes "fixed_periodic_injection (cfg (senv V))"
  shows "unarrived_apps (inject_many V p period n acc s) = unarrived_apps s @ map (\<lambda>k. next_addr s + k) [0..<n] \<and>
    next_addr (inject_many V p period n acc s) = next_addr s + n \<and>
    appNum (inject_many V p period n acc s) = appNum s + int n \<and>
    (\<forall>b < next_addr s. apps (inject_many V p period n acc s) b = apps s b) \<and>
    (\<forall>k < n. apps (inject_many V p period n acc s) (next_addr s + k) = Some ((app_assign null_app p)\<lparr>
       app_id := appNum s + int k, task_count := 0, is_running := False, completed_task_count := 0,
       arrival_time := word_of_int (rt_clock s (rt_ticks s + k)) + (acc + of_nat k * period) * word_of_int US2NANOSEC\<rparr>))"
proof (induction n arbitrary: acc s)
  case 0
  then show ?case by simp
next
  case (Suc n)
  obtain s1 where s1: "inject_one V p period acc s = (acc + period, s1)"
    "unarrived_apps s1 = unarrived_apps s @ [next_addr s]" "next_addr s1 = next_addr s + 1" "appNum s1 = appNum s + 1"
    "rt_clock s1 = rt_clock s" "rt_ticks s1 = rt_ticks s + 1"
    "apps s1 = (apps s)(next_addr s \<mapsto> (app_assign null_app p)\<lparr>app_id := appNum s, task_count := 0, is_running := False,
       completed_task_count := 0,
       arrival_time := word_of_int (rt_clock s (rt_ticks s)) + acc * word_of_int US2NANOSEC\<rparr>)"
    using assms by (simp add: inject_one_def tick_def store_app_def Let_def)
  let ?t = "inject_many V p period n (acc + period) s1"
  have t: "inject_many V p period (Suc n) acc s = ?t" by (simp add: s1(1))
  note ih = Suc.IH [where s = s1 and acc = "acc + period"]
  have "map (\<lambda>k. next_addr s + k) [0..<Suc n] = next_addr s # map (\<lambda>k. next_addr s + 1 + k) [0..<n]"
    by (simp add: upt_conv_Cons map_Suc_upt [symmetric] comp_def del: upt_Suc)
  then have 1: "unarrived_apps ?t = unarrived_apps s @ map (\<lambda>k. next_addr s + k) [0..<Suc n]"
    using ih s1(2,3) by simp
  have 2: "\<forall>b < next_addr s. apps ?t b = apps s b" using ih s1(3,7) by simp
  have 3: "apps ?t (next_addr s + k) = Some ((app_assign null_app p)\<lparr>
       app_id := appNum s + int k, task_count := 0, is_running := False, completed_task_count := 0,
       arrival_time := word_of_int (rt_clock s (rt_ticks s + k)) + (acc + of_nat k * period) * word_of_int US2NANOSEC\<rparr>)"
    if "k < Suc n" for k
  proof (cases k)
    case 0
    then show ?thesis using ih s1(3,7) by simp
  next
    case (Suc j)
    have "acc + period + of_nat j * period = acc + of_nat k * period" by (simp add: Suc algebra_simps)
    then show ?thesis using ih s1(3-6) that Suc by (simp add: ac_simps)
  qed
  show ?case unfolding t using 1 2 3 ih s1(3,4) by simp
qed

definition due :: "rt \<Rightarrow> int \<Rightarrow> addr \<Rightarrow> bool" where
  "due s t a \<longleftrightarrow> arrival_of s a \<le> word_of_int t"

lemma arrive_due_spec:
  assumes "rt_env_ok V" "rt_ok s" "length (unarrived_apps s) \<le> n" "arrive_due n V t s = Inr s'"
  shows "\<exists>moved. arrived_apps s' = arrived_apps s @ moved \<and>
    mset moved = filter_mset (due s t) (mset (unarrived_apps s)) \<and>
    mset (unarrived_apps s') = filter_mset (\<lambda>a. \<not> due s t a) (mset (unarrived_apps s)) \<and>
    sorted (map (arrival_of s) moved)"
  using assms(2-4)
proof (induction n arbitrary: s)
  case 0
  then show ?case by simp
next
  case (Suc n)
  show ?case
  proof (cases "unarrived_apps s = []")
    case True
    with Suc.prems show ?thesis by simp
  next
    case False
    let ?a = "pq_top V (arrival_of s) (unarrived_apps s)"
    have a: "?a \<in> set (unarrived_apps s)" and least: "\<forall>b \<in> set (unarrived_apps s). arrival_of s ?a \<le> arrival_of s b"
      using assms(1) False by (simp_all add: rt_env_ok_def)
    then obtain app where app: "apps s ?a = Some app" using rt_lists [OF Suc.prems(1)] by blast
    then have at: "arrival_of s ?a = arrival_time app" by (simp add: arrival_of_def)
    show ?thesis
    proof (cases "due s t ?a")
      case False
      then have "\<not> due s t b" if "b \<in> set (unarrived_apps s)" for b
        using least that unfolding due_def by (metis order_trans)
      moreover have "s' = s" using False Suc.prems(3) app \<open>unarrived_apps s \<noteq> []\<close> at
        by (simp add: due_def deref_def Let_def)
      moreover have "filter_mset P M = {#}" if "\<And>x. x \<in># M \<Longrightarrow> \<not> P x" for P and M :: "addr multiset"
        using that by (induction M) auto
      moreover have "filter_mset P M = M" if "\<And>x. x \<in># M \<Longrightarrow> P x" for P and M :: "addr multiset"
        using that by (induction M) auto
      from this [of "mset (unarrived_apps s)" "\<lambda>a. \<not> due s t a"] calculation show ?thesis by simp
    next
      case True
      let ?s = "(store_app ?a (app\<lparr>arrival_time := word_of_int t\<rparr>) s)\<lparr>
         unarrived_apps := remove1 ?a (unarrived_apps s), arrived_apps := arrived_apps s @ [?a]\<rparr>"
      have one: "arrive_due (Suc 0) V t s = Inr ?s" using True app \<open>unarrived_apps s \<noteq> []\<close> at
        by (simp add: deref_def Let_def due_def)
      have rest: "arrive_due n V t ?s = Inr s'" using True app \<open>unarrived_apps s \<noteq> []\<close> at Suc.prems(3)
        by (simp add: deref_def Let_def due_def)
      have len: "length (unarrived_apps ?s) \<le> n" using Suc.prems(2) a by (simp add: length_remove1)
      from Suc.IH [OF arrive_due_ok [OF assms(1) Suc.prems(1) one] len rest] obtain moved where
        m: "arrived_apps s' = arrived_apps ?s @ moved" "mset moved = filter_mset (due ?s t) (mset (unarrived_apps ?s))"
          "mset (unarrived_apps s') = filter_mset (\<lambda>a. \<not> due ?s t a) (mset (unarrived_apps ?s))"
          "sorted (map (arrival_of ?s) moved)" by blast
      have d: "distinct (unarrived_apps s)" using rt_lists_distinct [OF Suc.prems(1)] by simp
      have same: "arrival_of ?s b = arrival_of s b" if "b \<noteq> ?a" for b using that by (simp add: arrival_of_def store_app_def)
      have notin: "b \<noteq> ?a" if "b \<in># mset (unarrived_apps ?s)" for b
        using that d by (auto simp: store_app_def simp del: mset_remove1)
      have f: "filter_mset (due ?s t) (mset (unarrived_apps ?s)) = filter_mset (due s t) (mset (unarrived_apps ?s))"
        "filter_mset (\<lambda>b. \<not> due ?s t b) (mset (unarrived_apps ?s)) = filter_mset (\<lambda>b. \<not> due s t b) (mset (unarrived_apps ?s))"
        by (intro filter_mset_cong refl; simp add: due_def same notin)+
      have all: "mset (unarrived_apps s) = add_mset ?a (mset (unarrived_apps ?s))" using a by simp
      have inm: "b \<in> set (unarrived_apps s) \<and> b \<noteq> ?a" if "b \<in> set moved" for b
        using that m(2) notin [of b] all by (metis (no_types, lifting) mem_Collect_eq set_mset_filter set_mset_mset union_iff
            add_mset_add_single)
      have "map (arrival_of ?s) moved = map (arrival_of s) moved" using inm same by simp
      with m(4) inm least have "sorted (map (arrival_of s) (?a # moved))" by simp
      moreover have "mset (?a # moved) = filter_mset (due s t) (mset (unarrived_apps s))"
        unfolding all using True m(2) f(1) by (simp del: rt.simps)
      moreover have "mset (unarrived_apps s') = filter_mset (\<lambda>b. \<not> due s t b) (mset (unarrived_apps s))"
        unfolding all using True m(3) f(2) by (simp del: rt.simps)
      moreover have "arrived_apps s' = arrived_apps s @ ?a # moved" using m(1) by simp
      ultimately show ?thesis by blast
    qed
  qed
qed

section \<open>A concrete run\<close>

definition sample_env :: rt_env where
  "sample_env = \<lparr>senv = plain_env (sample_cfg ''SIMPLE'' True), dlopen = Map.empty, dlsym = (\<lambda>_ _. 0),
     pq_top = arg_min_list, random_period = (\<lambda>_ p. p)\<rparr>"

lemma sample_env_ok: "rt_env_ok sample_env"
proof -
  have "f (arg_min_list f q) \<le> f a" if "a \<in> set q" for f :: "addr \<Rightarrow> u64" and q a
    using that f_arg_min_list_f [of q f] by (cases q) auto
  then show ?thesis by (simp add: rt_env_ok_def sample_env_def plain_env_ok arg_min_list_in)
qed

lemma sample_pq: "pq_top sample_env f [a] = a"
  by (simp add: sample_env_def)

definition sample_rt :: rt where
  "sample_rt = \<lparr>apps = Map.empty, next_addr = 1, unarrived_apps = [], arrived_apps = [], ready_queue = [],
     poison_queue = [], app_thread_map = Map.empty, app_threads = Map.empty, next_thread = 0,
     pes = map (\<lambda>w. \<lparr>wt = w, hw_pc = AtTop, run_args = []\<rparr>) (workers sample_sched),
     rt_shared = \<lparr>barriers = (\<lambda>_. 0), calls = [], now_ts = (\<lambda>_. null_timespec), hw_ticks = 0\<rparr>,
     statics = sample_sched, dash_functions = (\<lambda>_ _ r. if r = cpu then 11 else 0), sharedObjectMap = Map.empty,
     applicationMap = [''app.so'' \<mapsto> null_app], appNum = 0, rt_clock = (\<lambda>n. 1000000 * int n), rt_ticks = 0,
     stream_timing_log = [], sched_log = [], app_log = [], resolved_app_count = 0, killed_app_count = 0\<rparr>"

lemma sample_booted: "booted sample_rt"
  by (simp add: booted_def sample_rt_def sample_sched_def mk_worker_def held_def in_hand_def)

definition sample_message :: ipc_message where
  "sample_message = zero_message\<lparr>path_to_so := ''app.so'' @ drop 6 (path_to_so zero_message),
     num_instances := 1 # replicate 7 0\<rparr>"

lemma sample_slots: "read_slots sample_message [0..<8] = [(''app.so'', 1, 0)]"
  by (simp add: sample_message_def zero_message_def upt_rec c_string_def NUL_def)

text \<open>One application is injected, arrives and is launched, and its thread calls a kernel.\<close>

lemma sample_run: "\<exists>s :: rt. (rt_step sample_env)\<^sup>*\<^sup>* sample_rt s \<and> map app_pnt (ready_queue s) = [1]"
proof -
  define s1 where "s1 = inject_message sample_env sample_message sample_rt"
  have r1: "rt_step sample_env sample_rt s1" by (simp add: s1_def rt_step.inject)
  have s1: "unarrived_apps s1 = [1]" "arrived_apps s1 = []" "app_thread_map s1 = Map.empty" "next_thread s1 = 0"
    "ready_queue s1 = []" "\<exists>app. apps s1 1 = Some app \<and> arrival_time app = 0 \<and> \<not> is_running app"
    by (simp_all add: s1_def inject_message_def sample_slots inject_slot_def sample_rt_def after_last_def
        inject_one_def tick_def Let_def store_app_def null_app_def app_assign_def)
  then obtain app where app: "apps s1 1 = Some app" "arrival_time app = 0" "\<not> is_running app" by blast
  define app2 where "app2 = app\<lparr>arrival_time := word_of_int (rt_clock s1 (rt_ticks s1))\<rparr>"
  define s2 where "s2 = s1\<lparr>rt_ticks := rt_ticks s1 + 1, apps := (apps s1)(1 \<mapsto> app2), unarrived_apps := [], arrived_apps := [1]\<rparr>"
  have "arrive_due 1 sample_env (rt_clock s1 (rt_ticks s1)) (s1\<lparr>rt_ticks := rt_ticks s1 + 1\<rparr>) = Inr s2"
    unfolding One_nat_def arrive_due.simps Let_def
    using s1(1,2) app by (simp add: sample_pq deref_def store_app_def s2_def app2_def)
  then have "arrivals sample_env s1 = Inr s2"
    using s1(1) by (simp add: arrivals_def tick_def)
  then have r2: "rt_step sample_env s1 s2" by (rule rt_step.arrive)
  define app3 where "app3 = app2\<lparr>app_pthread := 0, start_time := word_of_int (rt_clock s2 (rt_ticks s2)), is_running := True\<rparr>"
  define s3 where "s3 = s2\<lparr>rt_ticks := rt_ticks s2 + 1, apps := (apps s2)(1 \<mapsto> app3), next_thread := 1,
     app_threads := (app_threads s2)(0 \<mapsto> ThreadRunning), app_thread_map := (app_thread_map s2)(0 \<mapsto> 1)\<rparr>"
  have "launch_app 1 s2 = Inr s3"
    using s1 app by (simp add: launch_app_def deref_def launch_create_def launch_register_def tick_def store_app_def
        Let_def s2_def s3_def app2_def app3_def)
  then have r3: "rt_step sample_env s2 s3" by (intro rt_step.launch) (simp_all add: s2_def)
  have t: "thread_app 0 s3 = (1, s3)" by (rule thread_app_registered) (simp add: s3_def)
  have d: "deref s3 1 = Inr app3" by (simp add: deref_def s3_def)
  obtain api where api: "api_types_map ''DASH_FFT'' = Some api" by (auto simp: api_types_map_def api_type_names_def all_apis_def)
  obtain p where p: "precision_types_map ''flt'' = Some p"
    by (auto simp: precision_types_map_def precision_type_names_def)
  obtain s4 where s4: "enqueue_kernel 0 ''DASH_FFT'' ''flt'' [] s3 = Inr s4" "map app_pnt (ready_queue s4) = [1]"
    using s1 api p t d by (simp add: enqueue_kernel_def Let_def store_app_def) (simp add: s3_def s2_def)
  from s4(1) have r4: "rt_step sample_env s3 s4"
    by (intro rt_step.kernel_call [of s3 0 "''DASH_FFT''" "''flt''" "[]"]) (simp_all add: s3_def)
  have "(rt_step sample_env)\<^sup>*\<^sup>* sample_rt s4"
    by (rule rtranclp.rtrancl_into_rtrancl [OF rtranclp.rtrancl_into_rtrancl
          [OF rtranclp.rtrancl_into_rtrancl [OF r_into_rtranclp [of "rt_step sample_env", OF r1] r2] r3] r4])
  then show ?thesis using s4(2) by (intro exI [of _ s4] conjI)
qed

section \<open>Properties\<close>

text \<open>
  C1: in every state the runtime can reach, under any interleaving of its threads, a task that
  is ready, queued, in a worker's hands or completed refers to an application that is still
  allocated, whose issued tasks are its logged ones and those in flight.
\<close>

theorem app_lifetime_safe:
  assumes "rt_env_ok V" and "booted s0" and "(rt_step V)\<^sup>*\<^sup>* s0 s"
    and "t \<in> set (ready_queue s) \<union> (\<Union>h \<in> set (pes s). set (held h))"
  shows "\<exists>app. apps s (app_pnt t) = Some app \<and>
    task_count app = completed_task_count app + int (count (refs s) (app_pnt t)) \<and> 0 < count (refs s) (app_pnt t)"
proof -
  have ok: "rt_ok s" using reachable_ok [OF assms(1-3)] .
  have "app_pnt t \<in># refs s"
    using assms(4) by (auto simp: refs_def sum_list_map_mset_in)
  with rt_refs [OF ok this] rt_count [OF ok] show ?thesis by fastforce
qed

theorem app_lifetime_safe_witness:
  "\<exists>s :: rt. (rt_step sample_env)\<^sup>*\<^sup>* sample_rt s \<and> map app_pnt (ready_queue s) = [1] \<and>
     (\<exists>app. apps s 1 = Some app \<and> task_count app = completed_task_count app + int (count (refs s) 1) \<and> 0 < count (refs s) 1)"
proof -
  from sample_run obtain s :: rt where s: "(rt_step sample_env)\<^sup>*\<^sup>* sample_rt s" "map app_pnt (ready_queue s) = [1]"
    by (elim exE conjE)
  from s(2) obtain t where t: "ready_queue s = [t]" "app_pnt t = 1" by (auto simp del: One_nat_def)
  have "t \<in> set (ready_queue s) \<union> (\<Union>h \<in> set (pes s). set (held h))" using t(1) by simp
  from app_lifetime_safe [OF sample_env_ok sample_booted s(1) this] s
  show ?thesis unfolding t(2) by (intro exI [of _ s] conjI)
qed




lemma foldR_id: "(\<And>x. x \<in> set xs \<Longrightarrow> f x s = Inr s) \<Longrightarrow> foldR f xs s = Inr s"
  by (induction xs) simp_all

lemma idle_round:
  "\<exists>s' :: rt. daemon_round sample_env \<lparr>cmd_type = NOPE, message = zero_message\<rparr> False sample_rt = Inr (False, False, s')"
proof -
  let ?s = "snd (tick sample_rt)"
  have s: "ready_queue ?s = []" "unarrived_apps ?s = []" "arrived_apps ?s = []" "poison_queue ?s = []"
    "length (pes ?s) = 2" "\<forall>h \<in> set (pes ?s). completed_task_dequeue (wt h) = []"
    by (simp_all add: tick_def sample_rt_def sample_sched_def mk_worker_def)
  have h: "harvest_phase sample_env ?s = Inr ?s"
    unfolding harvest_phase_def by (rule foldR_id) (use s in \<open>simp add: harvest_pe_def sample_env_def\<close>)
  have e: "\<not> should_exit_early sample_env False sample_rt" by (simp add: should_exit_early_def)
  show ?thesis using s h e
    by (simp add: daemon_round_def arrivals_def split_beta launch_arrived_def schedule_phase_def poison_phase_def)
qed


text \<open>
  The map that finds a thread's application is filled only after the thread is created. A
  new thread that gets ahead of the runtime thread makes the process dereference a null
  pointer with its first kernel call; one that ends at once posts a pill without an
  application, and the next sweep dereferences it.
\<close>

theorem unregistered_call_crashes:
  assumes "rt_ok s" and "apps s 0 = None" and "launch_create a s = Inr s1"
    and "api_types_map k \<noteq> None" and "precision_types_map pr \<noteq> None" and "k \<noteq> ''POISON_PILL''"
    and "a \<noteq> 0" and "poison_queue s = []"
  shows "app_threads s1 (next_thread s) = Some ThreadRunning \<and>
    enqueue_kernel (next_thread s) k pr va s1 = Inl Undefined \<and>
    (\<exists>s2. nk_thread_end (next_thread s) s1 = Inr s2 \<and> poison_phase s2 = Inl Undefined)"
proof -
  have m: "app_thread_map s (next_thread s) = None" using rt_thread [OF assms(1), of "next_thread s"] by (metis less_irrefl_nat)
  from assms(3) have s1: "app_thread_map s1 = app_thread_map s" "apps s1 0 = apps s 0" "poison_queue s1 = []"
    "app_threads s1 = (app_threads s)(next_thread s \<mapsto> ThreadRunning)"
    using assms(7,8) by (auto simp: launch_create_def deref_def tick_def store_app_def Let_def split: option.splits)
  have t: "thread_app (next_thread s) s1 = (0, s1\<lparr>app_thread_map := (app_thread_map s1)(next_thread s \<mapsto> 0)\<rparr>)"
    using m s1(1) by (simp add: thread_app_def)
  then show ?thesis
    using assms(2,4-6) s1 by (auto simp: enqueue_kernel_def nk_thread_end_def poison_phase_def deref_def)
qed

definition arrived_rt :: rt where
  "arrived_rt = sample_rt\<lparr>apps := [1 \<mapsto> null_app], next_addr := 2, arrived_apps := [1]\<rparr>"

lemma refs_sample: "refs sample_rt = {#}"
  by (simp add: refs_def sample_rt_def sample_sched_def mk_worker_def held_def in_hand_def)

lemma arrived_rt_ok: "rt_ok arrived_rt"
proof -
  have "refs arrived_rt = {#}" by (simp add: arrived_rt_def refs_sample)
  then show ?thesis by (simp add: rt_ok_def) (simp add: arrived_rt_def sample_rt_def null_app_def)
qed

theorem unregistered_call_crashes_witness:
  "\<exists>s1 :: rt. launch_create 1 arrived_rt = Inr s1 \<and> app_threads s1 0 = Some ThreadRunning \<and>
     enqueue_kernel 0 ''DASH_FFT'' ''flt'' [] s1 = Inl Undefined"
proof -
  have n: "apps arrived_rt 0 = None" "poison_queue arrived_rt = []" "next_thread arrived_rt = 0"
    by (simp_all add: arrived_rt_def sample_rt_def)
  have k: "api_types_map ''DASH_FFT'' \<noteq> None" "precision_types_map ''flt'' \<noteq> None"
    by (auto simp: api_types_map_def api_type_names_def all_apis_def precision_types_map_def precision_type_names_def)
  obtain s1 where l: "launch_create 1 arrived_rt = Inr s1"
    by (simp add: launch_create_def deref_def arrived_rt_def tick_def Let_def)
  have "''DASH_FFT'' \<noteq> ''POISON_PILL''" "(1::addr) \<noteq> 0" by simp_all
  from unregistered_call_crashes [OF arrived_rt_ok n(1) l k this n(2), of "[]"] l n(3)
  show ?thesis by (intro exI [of _ s1]) simp
qed

text \<open>
  The sweep erases a pill in the middle of the queue while it keeps its iterators: when
  the first of three ended applications still has tasks in flight and the second does not,
  the sweep is undefined.
\<close>

theorem sweep_mid_erase_undefined:
  assumes "rt_ok s" and "poison_queue s = p # q # r # rest"
    and "\<And>app. apps s (app_pnt p) = Some app \<Longrightarrow> completed_task_count app \<noteq> task_count app"
    and "\<And>app. apps s (app_pnt q) = Some app \<Longrightarrow> completed_task_count app = task_count app"
  shows "poison_phase s = Inl Undefined"
proof -
  obtain ap aq where ap: "apps s (app_pnt p) = Some ap" and aq: "apps s (app_pnt q) = Some aq"
    using rt_pills [OF assms(1), of p] rt_pills [OF assms(1), of q] assms(2) by auto
  obtain s1 where "retire_app q s = Inr s1" using retire_defined [OF assms(1), of q] assms(2) by auto
  then show ?thesis using assms(2) assms(3) [OF ap] assms(4) [OF aq] ap aq
    by (simp add: poison_phase_def deref_def)
qed

definition pill_of :: "nat \<Rightarrow> task_nodes" where
  "pill_of n = null_task\<lparr>task_name := ''POISON PILL'', parent_app_pthread := n, app_pnt := n\<rparr>"

definition ended_app :: "nat \<Rightarrow> int \<Rightarrow> cedr_app" where
  "ended_app n issued = null_app\<lparr>task_count := issued, completed_task_count := 0, app_pthread := n, is_running := True\<rparr>"

definition ended_rt :: rt where
  "ended_rt = sample_rt\<lparr>apps := [1 \<mapsto> ended_app 1 1, 2 \<mapsto> ended_app 2 0, 3 \<mapsto> ended_app 3 0], next_addr := 4,
     arrived_apps := [1, 2, 3], ready_queue := [null_task\<lparr>app_pnt := 1\<rparr>], poison_queue := [pill_of 1, pill_of 2, pill_of 3],
     app_threads := [1 \<mapsto> ThreadFinished, 2 \<mapsto> ThreadFinished, 3 \<mapsto> ThreadFinished],
     app_thread_map := [1 \<mapsto> 1, 2 \<mapsto> 2, 3 \<mapsto> 3], next_thread := 4\<rparr>"

lemma ended_rt_ok: "rt_ok ended_rt"
proof -
  have "refs ended_rt = add_mset 1 {#}"
    using refs_sample by (simp add: ended_rt_def refs_def sample_rt_def)
  then show ?thesis
    by (simp add: rt_ok_def) (simp add: ended_rt_def sample_rt_def ended_app_def pill_of_def)
qed

theorem sweep_mid_erase_undefined_witness: "poison_phase ended_rt = Inl Undefined"
  by (rule sweep_mid_erase_undefined [OF ended_rt_ok, of "pill_of 1" "pill_of 2" "pill_of 3" "[]"])
    (simp_all add: ended_rt_def pill_of_def ended_app_def)

text \<open>
  At shutdown nothing is ever cancelled: the loop that should cancel the applications
  still running is entered only when there is none. Their threads keep running and they
  stay on the arrived list.
\<close>

theorem shutdown_never_cancels:
  assumes "shutdown_phase s = Inr s'"
  shows "killed_app_count s' = killed_app_count s \<and>
    arrived_apps s' = filter (\<lambda>a. a \<notin> app_pnt ` set (poison_queue s)) (arrived_apps s) \<and>
    (\<forall>t. t \<notin> parent_app_pthread ` set (poison_queue s) \<longrightarrow> app_threads s' t = app_threads s t) \<and>
    resolved_app_count s' = resolved_app_count s + int (length (poison_queue s))"
proof -
  have join: "killed_app_count t' = killed_app_count t \<and>
      arrived_apps t' = filter (\<lambda>a. a \<notin> app_pnt ` set ps) (arrived_apps t) \<and>
      (\<forall>u. u \<notin> parent_app_pthread ` set ps \<longrightarrow> app_threads t' u = app_threads t u) \<and>
      resolved_app_count t' = resolved_app_count t + int (length ps)"
    if "foldR join_pill ps t = Inr t'" for ps t t'
    using that
  proof (induction ps arbitrary: t)
    case Nil
    then show ?case by simp
  next
    case (Cons p ps)
    then obtain t1 where t1: "join_pill p t = Inr t1" "foldR join_pill ps t1 = Inr t'" by (auto simp: bindR_eq_Inr)
    from t1(1) have "killed_app_count t1 = killed_app_count t" "arrived_apps t1 = filter (\<lambda>a. a \<noteq> app_pnt p) (arrived_apps t)"
      "app_threads t1 = (app_threads t)(parent_app_pthread p := None)" "resolved_app_count t1 = resolved_app_count t + 1"
      by (auto simp: join_pill_def deref_def tick_def split: option.splits)
    with Cons.IH [OF t1(2)] show ?case by (auto intro: filter_cong)
  qed
  from assms obtain t' where t': "foldR join_pill (poison_queue s) (s\<lparr>pes := map stop_pe (pes s)\<rparr>) = Inr t'"
    "(if arrived_apps t' = [] then foldR cancel_app (arrived_apps t') t' else Inr t') = Inr s'"
    by (auto simp: shutdown_phase_def bindR_eq_Inr)
  from t'(2) have "s' = t'" by (cases "arrived_apps t' = []") simp_all
  with join [OF t'(1)] show ?thesis by simp
qed

theorem shutdown_never_cancels_witness:
  "\<exists>s' :: rt. shutdown_phase arrived_rt = Inr s' \<and> arrived_apps s' = [1] \<and> killed_app_count s' = 0"
proof -
  obtain s' where s': "shutdown_phase arrived_rt = Inr s'"
    by (simp add: shutdown_phase_def arrived_rt_def sample_rt_def)
  from shutdown_never_cancels [OF s'] s' show ?thesis
    by (intro exI [of _ s']) (simp add: arrived_rt_def sample_rt_def)
qed

text \<open>
  Injecting \<open>n\<close> instances of an application with a fixed period creates exactly \<open>n\<close> new
  structures behind the ones that wait, with consecutive identities, counters at zero and not
  running, named by at most 49 characters, the \<open>k\<close>-th due \<open>k + 1\<close> periods after the reading of the clock taken for it; every
  other application is left as it was.
\<close>

theorem injection_creates_instances:
  assumes "fixed_periodic_injection (cfg (senv V))"
  shows "unarrived_apps (inject_many V p period n period s) = unarrived_apps s @ [next_addr s ..< next_addr s + n] \<and>
    (\<forall>b < next_addr s. apps (inject_many V p period n period s) b = apps s b) \<and>
    (\<forall>k < n. \<exists>app. apps (inject_many V p period n period s) (next_addr s + k) = Some app \<and>
       app_id app = appNum s + int k \<and> app_name app = take 49 (app_name p) \<and> main_func_handle app = main_func_handle p \<and>
       task_count app = 0 \<and> completed_task_count app = 0 \<and> \<not> is_running app \<and>
       arrival_time app = word_of_int (rt_clock s (rt_ticks s + k)) + of_nat (k + 1) * period * word_of_int US2NANOSEC)"
proof -
  have l: "[next_addr s ..< next_addr s + n] = map (\<lambda>k. next_addr s + k) [0..<n]"
    using map_add_upt [of "next_addr s" n] by (simp add: add.commute)
  have "period + of_nat k * period = of_nat (k + 1) * period" for k by (simp add: algebra_simps)
  with inject_many_spec [OF assms, of p period n period s] show ?thesis
    unfolding l by (simp add: app_assign_def)
qed

theorem injection_creates_instances_witness:
  "\<exists>app. apps (inject_many sample_env null_app 5 2 5 sample_rt) 2 = Some app \<and> app_id app = 1 \<and>
     arrival_time app = word_of_int 1000000 + 2 * 5 * word_of_int US2NANOSEC"
proof -
  have "fixed_periodic_injection (cfg (senv sample_env))"
    by (simp add: sample_env_def plain_env_def sample_cfg_def ConfigManager_def)
  note spec = injection_creates_instances [OF this, of null_app 5 2 sample_rt, THEN conjunct2, THEN conjunct2,
      rule_format, of 1]
  have n: "next_addr sample_rt = 1" "appNum sample_rt = 0" "rt_clock sample_rt (rt_ticks sample_rt + 1) = 1000000"
    by (simp_all add: sample_rt_def)
  from spec show ?thesis unfolding n by (auto simp: numeral_2_eq_2)
qed

text \<open>
  When the runtime looks at its clock, exactly the waiting applications that are due
  arrive, in the order of their due times, and the others keep waiting.
\<close>

theorem arrivals_move_due:
  assumes "rt_env_ok V" and "rt_ok s" and "arrivals V s = Inr s'"
  shows "\<exists>moved. arrived_apps s' = arrived_apps s @ moved \<and>
    mset moved = filter_mset (due s (rt_clock s (rt_ticks s))) (mset (unarrived_apps s)) \<and>
    mset (unarrived_apps s') = filter_mset (\<lambda>a. \<not> due s (rt_clock s (rt_ticks s)) a) (mset (unarrived_apps s)) \<and>
    sorted (map (arrival_of s) moved)"
proof -
  let ?s = "snd (tick s)"
  have e: "arrived_apps ?s = arrived_apps s" "unarrived_apps ?s = unarrived_apps s" "fst (tick s) = rt_clock s (rt_ticks s)"
    "arrival_of ?s = arrival_of s" "due ?s = due s"
    by (simp_all add: tick_def arrival_of_def due_def fun_eq_iff)
  from assms have "rt_ok ?s" "arrive_due (length (unarrived_apps ?s)) V (fst (tick s)) ?s = Inr s'"
    by (simp_all add: arrivals_def split_beta)
  from arrive_due_spec [OF assms(1) this(1) order_refl this(2)] show ?thesis unfolding e .
qed

definition waiting_rt :: rt where
  "waiting_rt = sample_rt\<lparr>apps := [1 \<mapsto> null_app\<lparr>arrival_time := 7\<rparr>, 2 \<mapsto> null_app\<lparr>arrival_time := 0\<rparr>], next_addr := 3,
     unarrived_apps := [1, 2]\<rparr>"

theorem arrivals_move_due_witness:
  "\<exists>s'. arrivals sample_env waiting_rt = Inr s' \<and> mset (arrived_apps s') = {#2#} \<and> mset (unarrived_apps s') = {#1#}"
proof -
  have "refs waiting_rt = {#}" by (simp add: waiting_rt_def refs_sample)
  then have ok: "rt_ok waiting_rt" by (simp add: rt_ok_def) (simp add: waiting_rt_def sample_rt_def null_app_def)
  obtain s' where s': "arrivals sample_env waiting_rt = Inr s'" using arrivals_defined [OF sample_env_ok ok] by blast
  have "due waiting_rt 0 1 = False" "due waiting_rt 0 2 = True"
    by (simp_all add: due_def arrival_of_def waiting_rt_def)
  moreover have "rt_clock waiting_rt (rt_ticks waiting_rt) = 0" "unarrived_apps waiting_rt = [1, 2]" "arrived_apps waiting_rt = []"
    by (simp_all add: waiting_rt_def sample_rt_def)
  ultimately show ?thesis using arrivals_move_due [OF sample_env_ok ok s'] s' by auto
qed

end
