(* ===== verification/Libdash.thy ===== *)
theory Libdash
  imports Prelude "HOL-Library.Signed_Division"
begin

text \<open>
  The CPU kernels of the library the applications call, \<^verbatim>\<open>src/libdash/cpu\<close>: elementwise
  operations, matrix product, sum, difference and transposition, and the convolutions.

  A kernel takes its buffers as lists and returns the output buffer; an access out of bounds,
  a signed overflow of \<^verbatim>\<open>int\<close> and a division by zero are \<open>None\<close>. Input and output are different
  buffers. The \<^verbatim>\<open>short\<close> of the integer kernels is a 16-bit word: a sum, difference or product of
  two shorts fits an \<^verbatim>\<open>int\<close>, and storing it in a short reduces it modulo \<open>2\<^sup>1\<^sup>6\<close>, so where every
  intermediate result is stored the arithmetic is that of words. The number type of the
  floating-point kernels is a type variable with operations and no laws, so that what is proved
  holds for rounded arithmetic as well, unless a theorem asks for laws. Loop counters stay below
  the width of \<^verbatim>\<open>int\<close>.
\<close>

type_synonym s16 = "16 word"

record 'a cmplx =
  re :: 'a
  im :: 'a

datatype zip_op = ZIP_ADD | ZIP_SUB | ZIP_MULT | ZIP_DIV | ZIP_CMP_MULT

section \<open>Loops over matrices\<close>

lemma foreach_matrix:
  "foreach [0..<n] (\<lambda>i. foreach [0..<m] (\<lambda>j. f i j)) s = foreach [0..<n * m] (\<lambda>c. f (c div m) (c mod m)) s"
  by (subst foreach_nested[symmetric]) (intro foreach_cong refl; auto intro: foreach_cong)

lemma foreach_fails: "x \<in> set xs \<Longrightarrow> (\<And>s. f x s = None) \<Longrightarrow> foreach xs f s = None"
  by (induction xs arbitrary: s) (auto split: Option.bind_splits)

lemma foreach_sums:
  fixes g :: "nat \<Rightarrow> 'a::comm_monoid_add"
  shows "foreach [0..<n] (\<lambda>k s. Some (s + g k)) 0 = Some (\<Sum>k<n. g k)"
  by (induction n) (simp_all add: lessThan_Suc ac_simps)

section \<open>Elementwise operations\<close>

text \<open>A result of \<^verbatim>\<open>int\<close> arithmetic.\<close>

definition c_int :: "int \<Rightarrow> int option" where
  "c_int x = (if - (2 ^ 31) \<le> x \<and> x < 2 ^ 31 then Some x else None)"

text \<open>The operation without a case in the switch leaves the output alone.\<close>

definition zip_flt :: "zip_op \<Rightarrow> ('f::{plus,minus,times,uminus,inverse}) cmplx \<Rightarrow> 'f cmplx \<Rightarrow> 'f cmplx" where
  "zip_flt op a b = (case op of
     ZIP_ADD \<Rightarrow> \<lparr>re = re a + re b, im = im a + im b\<rparr>
   | ZIP_SUB \<Rightarrow> \<lparr>re = re a - re b, im = im a - im b\<rparr>
   | ZIP_MULT \<Rightarrow> \<lparr>re = re a * re b - im a * im b, im = re a * im b + im a * re b\<rparr>
   | _ \<Rightarrow> \<lparr>re = (re a * re b + im a * im b) / (re b * re b + im b * im b),
           im = (- re a * im b + im a * re b) / (re b * re b + im b * im b)\<rparr>)"

definition DASH_ZIP_flt_cpu :: "('f::{plus,minus,times,uminus,inverse}) cmplx list \<Rightarrow> 'f cmplx list \<Rightarrow> 'f cmplx list \<Rightarrow>
    nat \<Rightarrow> zip_op \<Rightarrow> 'f cmplx list option" where
  "DASH_ZIP_flt_cpu input_1 input_2 output len op = foreach [0..<len] (\<lambda>i output.
     if op = ZIP_CMP_MULT then Some output
     else do { a \<leftarrow> rd input_1 i; b \<leftarrow> rd input_2 i; wr output i (zip_flt op a b) }) output"

definition zip_int :: "zip_op \<Rightarrow> s16 cmplx \<Rightarrow> s16 cmplx \<Rightarrow> s16 cmplx option" where
  "zip_int op a b = (let p = sint (re a); q = sint (im a); r = sint (re b); t = sint (im b) in case op of
     ZIP_ADD \<Rightarrow> Some \<lparr>re = word_of_int (p + r), im = word_of_int (q + t)\<rparr>
   | ZIP_SUB \<Rightarrow> Some \<lparr>re = word_of_int (p - r), im = word_of_int (q - t)\<rparr>
   | ZIP_MULT \<Rightarrow> do {
       x \<leftarrow> c_int (p * r - q * t);
       y \<leftarrow> c_int (p * t + q * r);
       Some \<lparr>re = word_of_int x, im = word_of_int y\<rparr> }
   | _ \<Rightarrow> do {
       d \<leftarrow> c_int (r * r + t * t);
       x \<leftarrow> c_int (p * r + q * t);
       y \<leftarrow> c_int (- p * t + q * r);
       if d = 0 then None else Some \<lparr>re = word_of_int (x sdiv d), im = word_of_int (y sdiv d)\<rparr> })"

definition DASH_ZIP_int_cpu :: "s16 cmplx list \<Rightarrow> s16 cmplx list \<Rightarrow> s16 cmplx list \<Rightarrow> nat \<Rightarrow> zip_op \<Rightarrow> s16 cmplx list option" where
  "DASH_ZIP_int_cpu input_1 input_2 output len op = foreach [0..<len] (\<lambda>i output.
     if op = ZIP_CMP_MULT then Some output
     else do { a \<leftarrow> rd input_1 i; b \<leftarrow> rd input_2 i; v \<leftarrow> zip_int op a b; wr output i v }) output"

section \<open>Matrices\<close>

text \<open>
  The four partial sums of a cell of the product; the same text for both number types, the
  terms and sums being stored in the type of the matrix.
\<close>

definition gemm_cell :: "('a::{zero,plus,times}) cmplx list \<Rightarrow> 'a cmplx list \<Rightarrow> nat \<Rightarrow> nat \<Rightarrow> nat \<Rightarrow> nat \<Rightarrow> ('a \<times> 'a \<times> 'a \<times> 'a) option" where
  "gemm_cell A B A_COLS B_COLS i j = foreach [0..<A_COLS] (\<lambda>k (res1, res2, res3, res4). do {
     a \<leftarrow> rd A (i * A_COLS + k);
     b \<leftarrow> rd B (k * B_COLS + j);
     Some (res1 + re a * re b, res2 + im a * im b, res3 + re a * im b, res4 + im a * re b) }) (0, 0, 0, 0)"

definition DASH_GEMM_flt_cpu :: "('a::{zero,plus,minus,times}) cmplx list \<Rightarrow> 'a cmplx list \<Rightarrow> 'a cmplx list \<Rightarrow> nat \<Rightarrow> nat \<Rightarrow> nat \<Rightarrow>
    'a cmplx list option" where
  "DASH_GEMM_flt_cpu A B C A_ROWS A_COLS B_COLS = foreach [0..<A_ROWS] (\<lambda>i. foreach [0..<B_COLS] (\<lambda>j C. do {
     (res1, res2, res3, res4) \<leftarrow> gemm_cell A B A_COLS B_COLS i j;
     wr C (i * B_COLS + j) \<lparr>re = res1 - res2, im = res3 + res4\<rparr> })) C"

definition DASH_GEMM_int_cpu :: "s16 cmplx list \<Rightarrow> s16 cmplx list \<Rightarrow> s16 cmplx list \<Rightarrow> nat \<Rightarrow> nat \<Rightarrow> nat \<Rightarrow> s16 cmplx list option" where
  "DASH_GEMM_int_cpu = DASH_GEMM_flt_cpu"

definition blas_loop :: "('a cmplx \<Rightarrow> 'a cmplx \<Rightarrow> 'a cmplx) \<Rightarrow> 'a cmplx list \<Rightarrow> 'a cmplx list \<Rightarrow> 'a cmplx list \<Rightarrow> nat \<Rightarrow> nat \<Rightarrow>
    'a cmplx list option" where
  "blas_loop f A B C A_ROWS A_COLS = foreach [0..<A_ROWS] (\<lambda>i. foreach [0..<A_COLS] (\<lambda>j C. do {
     a \<leftarrow> rd A (i * A_COLS + j);
     b \<leftarrow> rd B (i * A_COLS + j);
     wr C (i * A_COLS + j) (f a b) })) C"

definition DASH_BLAS_MADD_cpu :: "('a::plus) cmplx list \<Rightarrow> 'a cmplx list \<Rightarrow> 'a cmplx list \<Rightarrow> nat \<Rightarrow> nat \<Rightarrow> 'a cmplx list option" where
  "DASH_BLAS_MADD_cpu = blas_loop (\<lambda>a b. \<lparr>re = re a + re b, im = im a + im b\<rparr>)"

definition DASH_BLAS_MSUB_cpu :: "('a::minus) cmplx list \<Rightarrow> 'a cmplx list \<Rightarrow> 'a cmplx list \<Rightarrow> nat \<Rightarrow> nat \<Rightarrow> 'a cmplx list option" where
  "DASH_BLAS_MSUB_cpu = blas_loop (\<lambda>a b. \<lparr>re = re a - re b, im = im a - im b\<rparr>)"

definition DASH_BLAS_TRANSPOSE_cpu :: "('a::uminus) cmplx list \<Rightarrow> 'a cmplx list \<Rightarrow> nat \<Rightarrow> nat \<Rightarrow> bool \<Rightarrow> 'a cmplx list option" where
  "DASH_BLAS_TRANSPOSE_cpu input output ROWS COLS conjugate = foreach [0..<ROWS] (\<lambda>i. foreach [0..<COLS] (\<lambda>j output. do {
     a \<leftarrow> rd input (i * COLS + j);
     wr output (j * ROWS + i) (if conjugate then \<lparr>re = re a, im = - im a\<rparr> else \<lparr>re = re a, im = im a\<rparr>) })) output"

section \<open>Convolutions\<close>

text \<open>The result is accumulated on what the output buffer holds.\<close>

definition DASH_CONV_1D_flt_cpu :: "('f::{plus,times}) list \<Rightarrow> nat \<Rightarrow> 'f list \<Rightarrow> nat \<Rightarrow> 'f list \<Rightarrow> 'f list option" where
  "DASH_CONV_1D_flt_cpu arr len msk mask_size result =
     (let n = int (mask_size div 2)
      in foreach [0..<len] (\<lambda>i. foreach [0..<mask_size] (\<lambda>j result.
           let idx = int i - n + int j
           in if idx < 0 \<or> idx > int len then Some result
              else do {
                r \<leftarrow> rd result i;
                a \<leftarrow> rd arr (nat idx);
                m \<leftarrow> rd msk j;
                wr result i (r + a * m) })) result)"

text \<open>
  The conversions between \<^verbatim>\<open>short\<close> and \<^verbatim>\<open>float\<close>: \<open>fl\<close> gives the float of an integer, \<open>tr\<close> truncates. The
  three results of the conditional are floats.
\<close>

definition conv_sum :: "(int \<Rightarrow> 'f::{zero,plus,times}) \<Rightarrow> s16 list \<Rightarrow> nat \<Rightarrow> nat \<Rightarrow> 'f list \<Rightarrow> nat \<Rightarrow> nat \<Rightarrow> nat \<Rightarrow> 'f option" where
  "conv_sum fl input height width msk mask_size i j =
     (let z = int (mask_size div 2)
      in foreach [0..<mask_size] (\<lambda>k. foreach [0..<mask_size] (\<lambda>l sum.
           let s = int i + int k - z; w = int j + int l - z
           in if (0 \<le> s \<and> s < int height) \<and> 0 \<le> w \<and> w < int width then do {
                x \<leftarrow> rd input (nat (int width * s + w));
                m \<leftarrow> rd msk (mask_size * k + l);
                Some (sum + fl (sint x) * m) }
              else Some sum)) 0)"

definition conv_clip :: "(int \<Rightarrow> 'f::ord) \<Rightarrow> ('f \<Rightarrow> int) \<Rightarrow> 'f \<Rightarrow> s16" where
  "conv_clip fl tr acc = word_of_int (tr (if fl 32767 < acc then fl 32767 else if acc < fl (- 32768) then fl 32767 else acc))"

definition DASH_CONV_2D_int_cpu :: "(int \<Rightarrow> 'f::{zero,plus,times,ord}) \<Rightarrow> ('f \<Rightarrow> int) \<Rightarrow> s16 list \<Rightarrow> nat \<Rightarrow> nat \<Rightarrow> 'f list \<Rightarrow> nat \<Rightarrow>
    s16 list \<Rightarrow> s16 list option" where
  "DASH_CONV_2D_int_cpu fl tr input height width msk mask_size output =
     foreach [0..<height] (\<lambda>i. foreach [0..<width] (\<lambda>j output. do {
       acc \<leftarrow> conv_sum fl input height width msk mask_size i j;
       wr output (i * width + j) (conv_clip fl tr acc) })) output"

section \<open>Matrix theorems\<close>

text \<open>A loop that computes each cell of a matrix in row order.\<close>

lemma foreach_cells:
  assumes "n * m \<le> length ob" and "\<And>i j. i < n \<Longrightarrow> j < m \<Longrightarrow> g i j = Some (h i j)"
  shows "foreach [0..<n] (\<lambda>i. foreach [0..<m] (\<lambda>j ob. Option.bind (g i j) (\<lambda>v. wr ob (i * m + j) (f v)))) ob =
    Some (map (\<lambda>c. f (h (c div m) (c mod m))) [0..<n * m] @ drop (n * m) ob)"
proof -
  have cell: "c div m < n \<and> c mod m < m \<and> c div m * m + c mod m = c" if "c < n * m" for c
    using that by (metis div_mult_mod_eq less_mult_imp_div_less mod_less_divisor mult_0_right not_gr_zero not_less_zero)
  have "foreach [0..<n] (\<lambda>i. foreach [0..<m] (\<lambda>j ob. Option.bind (g i j) (\<lambda>v. wr ob (i * m + j) (f v)))) ob =
      foreach [0..<n * m] (\<lambda>c ob. wr ob c (f (h (c div m) (c mod m)))) ob"
    unfolding foreach_matrix by (rule foreach_cong) (use cell assms(2) in auto)
  also have "\<dots> = Some (map (\<lambda>c. f (h (c div m) (c mod m))) [0..<n * m] @ drop (n * m) ob)"
    by (rule foreach_write_prefix[OF assms(1)])
  finally show ?thesis .
qed

lemma cell_index: "i < n \<Longrightarrow> j < (m :: nat) \<Longrightarrow> i * m + j < n * m"
proof -
  assume i: "i < n" and j: "j < m"
  then have "i * m + j < Suc i * m" by simp
  also have "\<dots> \<le> n * m" using i by (intro mult_right_mono) simp_all
  finally show ?thesis .
qed

lemma cell_nth:
  assumes "i < n" and "j < m"
  shows "(map (\<lambda>c. f (c div m) (c mod m)) [0..<n * m] @ ys) ! (i * m + j) = f i j"
  using cell_index[OF assms] assms by (simp add: nth_append)

lemma gemm_cell_sum:
  fixes A B :: "('a::comm_semiring_0) cmplx list"
  assumes "i < n" "n * m \<le> length A" "m * l \<le> length B" "j < l"
  shows "gemm_cell A B m l i j = Some
    (\<Sum>k<m. re (A ! (i * m + k)) * re (B ! (k * l + j)), \<Sum>k<m. im (A ! (i * m + k)) * im (B ! (k * l + j)),
     \<Sum>k<m. re (A ! (i * m + k)) * im (B ! (k * l + j)), \<Sum>k<m. im (A ! (i * m + k)) * re (B ! (k * l + j)))"
proof -
  have rows: "i * m + k < length A" "k * l + j < length B" if "k < m" for k
    using cell_index[OF assms(1) that] cell_index[OF that assms(4)] assms(2,3) by linarith+
  have "foreach [0..<k] (\<lambda>k (res1, res2, res3, res4). do {
       a \<leftarrow> rd A (i * m + k); b \<leftarrow> rd B (k * l + j);
       Some (res1 + re a * re b, res2 + im a * im b, res3 + re a * im b, res4 + im a * re b) }) (0, 0, 0, 0) = Some
    (\<Sum>k<k. re (A ! (i * m + k)) * re (B ! (k * l + j)), \<Sum>k<k. im (A ! (i * m + k)) * im (B ! (k * l + j)),
     \<Sum>k<k. re (A ! (i * m + k)) * im (B ! (k * l + j)), \<Sum>k<k. im (A ! (i * m + k)) * re (B ! (k * l + j)))" if "k \<le> m" for k
    using that rows by (induction k) (simp_all add: add.commute)
  then show ?thesis by (simp add: gemm_cell_def)
qed

lemma gemm_result:
  fixes A B :: "('a::comm_ring) cmplx list"
  assumes "n * m \<le> length A" "m * l \<le> length B" "n * l \<le> length C"
  shows "DASH_GEMM_flt_cpu A B C n m l = Some (map (\<lambda>c.
      \<lparr>re = (\<Sum>k<m. re (A ! (c div l * m + k)) * re (B ! (k * l + c mod l))) - (\<Sum>k<m. im (A ! (c div l * m + k)) * im (B ! (k * l + c mod l))),
       im = (\<Sum>k<m. re (A ! (c div l * m + k)) * im (B ! (k * l + c mod l))) + (\<Sum>k<m. im (A ! (c div l * m + k)) * re (B ! (k * l + c mod l)))\<rparr>) [0..<n * l] @ drop (n * l) C)"
  unfolding DASH_GEMM_flt_cpu_def
  using foreach_cells[OF assms(3) gemm_cell_sum[OF _ assms(1,2)], where f = "\<lambda>(res1, res2, res3, res4). \<lparr>re = res1 - res2, im = res3 + res4\<rparr>"]
  by (simp add: case_prod_unfold)

text \<open>The value of a matrix cell over the integers.\<close>

definition cell_re :: "s16 cmplx list \<Rightarrow> s16 cmplx list \<Rightarrow> nat \<Rightarrow> nat \<Rightarrow> nat \<Rightarrow> nat \<Rightarrow> int" where
  "cell_re A B m l i j = (\<Sum>k<m. sint (re (A ! (i * m + k))) * sint (re (B ! (k * l + j))) - sint (im (A ! (i * m + k))) * sint (im (B ! (k * l + j))))"

definition cell_im :: "s16 cmplx list \<Rightarrow> s16 cmplx list \<Rightarrow> nat \<Rightarrow> nat \<Rightarrow> nat \<Rightarrow> nat \<Rightarrow> int" where
  "cell_im A B m l i j = (\<Sum>k<m. sint (re (A ! (i * m + k))) * sint (im (B ! (k * l + j))) + sint (im (A ! (i * m + k))) * sint (re (B ! (k * l + j))))"

lemma word_of_int_cells:
  "word_of_int (cell_re A B m l i j) = (\<Sum>k<m. re (A ! (i * m + k)) * re (B ! (k * l + j))) - (\<Sum>k<m. im (A ! (i * m + k)) * im (B ! (k * l + j)))"
  "word_of_int (cell_im A B m l i j) = (\<Sum>k<m. re (A ! (i * m + k)) * im (B ! (k * l + j))) + (\<Sum>k<m. im (A ! (i * m + k)) * re (B ! (k * l + j)))"
  unfolding cell_re_def cell_im_def by (simp_all add: of_int_sum sum_subtractf sum.distrib)

text \<open>
  C29: With buffers of the stated dimensions the integer matrix product writes to every cell of the
  output the complex dot product of the row and the column, computed over the integers and reduced
  to sixteen bits once: the sums that wrap around on the way do no harm. The rest of the output
  buffer is unchanged.
\<close>

theorem gemm_int_product:
  assumes "n * m \<le> length A" "m * l \<le> length B" "n * l \<le> length C"
  shows "\<exists>C'. DASH_GEMM_int_cpu A B C n m l = Some C' \<and> length C' = length C \<and> drop (n * l) C' = drop (n * l) C \<and>
    (\<forall>i<n. \<forall>j<l. C' ! (i * l + j) = \<lparr>re = word_of_int (cell_re A B m l i j), im = word_of_int (cell_im A B m l i j)\<rparr>)"
  unfolding DASH_GEMM_int_cpu_def gemm_result[OF assms]
  using assms(3) by (simp add: word_of_int_cells cell_index nth_append)

theorem gemm_int_product_witness:
  "\<exists>C'. DASH_GEMM_int_cpu [\<lparr>re = 300, im = 200\<rparr>, \<lparr>re = - 1, im = 7\<rparr>] [\<lparr>re = 400, im = 5\<rparr>, \<lparr>re = 3, im = 3\<rparr>] [\<lparr>re = 0, im = 0\<rparr>] 1 2 1 = Some C' \<and>
    (\<forall>i<1. \<forall>j<1. C' ! (i * 1 + j) =
      \<lparr>re = word_of_int (cell_re [\<lparr>re = 300, im = 200\<rparr>, \<lparr>re = - 1, im = 7\<rparr>] [\<lparr>re = 400, im = 5\<rparr>, \<lparr>re = 3, im = 3\<rparr>] 2 1 i j),
       im = word_of_int (cell_im [\<lparr>re = 300, im = 200\<rparr>, \<lparr>re = - 1, im = 7\<rparr>] [\<lparr>re = 400, im = 5\<rparr>, \<lparr>re = 3, im = 3\<rparr>] 2 1 i j)\<rparr>)"
  using gemm_int_product[of 1 2 "[\<lparr>re = 300, im = 200\<rparr>, \<lparr>re = - 1, im = 7\<rparr>]" 1 "[\<lparr>re = 400, im = 5\<rparr>, \<lparr>re = 3, im = 3\<rparr>]" "[\<lparr>re = 0, im = 0\<rparr>]"] by auto

text \<open>The cell of the transposed matrix, read at its flat index.\<close>

definition conj_cell :: "bool \<Rightarrow> ('a::uminus) cmplx \<Rightarrow> 'a cmplx" where
  "conj_cell c a = (if c then \<lparr>re = re a, im = - im a\<rparr> else \<lparr>re = re a, im = im a\<rparr>)"

lemma conj_cell_twice: "conj_cell c (conj_cell c (a :: 'a::group_add cmplx)) = a"
  by (simp add: conj_cell_def)

lemma transposed_index: "c < n * m \<Longrightarrow> c mod m * n + c div m < m * (n :: nat)"
  by (intro cell_index) (auto simp: less_mult_imp_div_less intro!: mod_less_divisor gr0I)

lemma transposed_twice:
  assumes "c < n * (m :: nat)"
  shows "(c mod m * n + c div m) mod n * m + (c mod m * n + c div m) div n = c"
proof -
  have "c div m < n" using assms by (simp add: less_mult_imp_div_less)
  then show ?thesis by simp
qed

lemma transpose_result:
  assumes "n * m \<le> length a" "n * m \<le> length b"
  shows "\<exists>b'. DASH_BLAS_TRANSPOSE_cpu a b n m c = Some b' \<and> length b' = length b \<and>
    (\<forall>k<n * m. b' ! (k mod m * n + k div m) = conj_cell c (a ! k))"
proof -
  have cell: "k div m * m + k mod m = k" for k by simp
  have rw: "DASH_BLAS_TRANSPOSE_cpu a b n m c =
      foreach [0..<n * m] (\<lambda>k b. wr b (k mod m * n + k div m) (conj_cell c (a ! k))) b"
    unfolding DASH_BLAS_TRANSPOSE_cpu_def foreach_matrix
    by (rule foreach_cong) (use assms in \<open>auto simp: conj_cell_def\<close>)
  have inj: "inj_on (\<lambda>k. k mod m * n + k div m) {..<n * m}"
    by (rule inj_on_inverseI[where g = "\<lambda>p. p mod n * m + p div n"]) (simp only: transposed_twice lessThan_iff)
  have "k mod m * n + k div m < length b" if "k < n * m" for k
    using transposed_index[OF that] assms(2) by (simp add: mult.commute)
  then show ?thesis unfolding rw using foreach_scatter[OF _ inj, of b "\<lambda>k. conj_cell c (a ! k)"] by blast
qed

text \<open>
  C30: Transposing a matrix and transposing the result back, both with or both without conjugation,
  gives the matrix again, whatever the output buffers held.
\<close>

theorem transpose_twice:
  fixes a :: "('a::group_add) cmplx list"
  assumes "length a = n * m" "n * m \<le> length b" "length d = n * m"
  shows "\<exists>b'. DASH_BLAS_TRANSPOSE_cpu a b n m c = Some b' \<and> DASH_BLAS_TRANSPOSE_cpu b' d m n c = Some a"
proof -
  obtain b' where b: "DASH_BLAS_TRANSPOSE_cpu a b n m c = Some b'" "length b' = length b"
    "\<forall>k<n * m. b' ! (k mod m * n + k div m) = conj_cell c (a ! k)"
    using transpose_result[of n m a b c] assms by auto
  obtain d' where d: "DASH_BLAS_TRANSPOSE_cpu b' d m n c = Some d'" "length d' = length d"
    "\<forall>k<m * n. d' ! (k mod n * m + k div n) = conj_cell c (b' ! k)"
    using transpose_result[of m n b' d c] assms b(2) by (auto simp: mult.commute)
  have "d' ! k = a ! k" if "k < n * m" for k
    using d(3)[rule_format, OF transposed_index[OF that]] b(3)[rule_format, OF that] transposed_twice[OF that]
    by (simp add: conj_cell_twice)
  with d(2) assms have "d' = a" by (intro nth_equalityI) simp_all
  with b(1) d(1) show ?thesis by blast
qed

theorem transpose_twice_witness:
  "\<exists>b'. DASH_BLAS_TRANSPOSE_cpu [\<lparr>re = 1, im = 2\<rparr>, \<lparr>re = 3, im = - 4 :: s16\<rparr>] [\<lparr>re = 0, im = 0\<rparr>, \<lparr>re = 0, im = 0\<rparr>] 1 2 True = Some b' \<and>
    DASH_BLAS_TRANSPOSE_cpu b' [\<lparr>re = 9, im = 9\<rparr>, \<lparr>re = 9, im = 9\<rparr>] 2 1 True = Some [\<lparr>re = 1, im = 2\<rparr>, \<lparr>re = 3, im = - 4\<rparr>]"
  by (rule transpose_twice) simp_all

section \<open>Elementwise theorems\<close>

lemma s16_range: "- 32768 \<le> sint (w :: s16)" "sint (w :: s16) \<le> 32767"
  using sint_ge[of w] sint_lt[of w] by simp_all

lemma s16_product:
  fixes v w :: s16
  shows "- 1073709056 \<le> sint v * sint w" and "sint v * sint w \<le> 1073741824"
    and "sint v * sint w = 1073741824 \<longleftrightarrow> sint v = - 32768 \<and> sint w = - 32768"
proof -
  define x y where "x = sint v" and "y = sint w"
  have r: "- 32768 \<le> x" "x \<le> 32767" "- 32768 \<le> y" "y \<le> 32767"
    unfolding x_def y_def by (rule s16_range)+
  have "- 1073709056 \<le> x * y \<and> x * y \<le> 1073741824 \<and> (x * y = 1073741824 \<longleftrightarrow> x = - 32768 \<and> y = - 32768)"
  proof (cases "0 \<le> x"; cases "0 \<le> y")
    assume "0 \<le> x" "0 \<le> y"
    then have "0 \<le> x * y" "x * y \<le> 32767 * 32767" using r by (simp, intro mult_mono) simp_all
    with \<open>0 \<le> x\<close> show ?thesis by simp
  next
    assume "0 \<le> x" "\<not> 0 \<le> y"
    then have "0 \<le> x * - y" "x * - y \<le> 32767 * 32768" using r by (simp add: mult_nonneg_nonpos, intro mult_mono) simp_all
    with \<open>0 \<le> x\<close> show ?thesis by simp
  next
    assume "\<not> 0 \<le> x" "0 \<le> y"
    then have "0 \<le> - x * y" "- x * y \<le> 32768 * 32767" using r by (simp add: mult_nonpos_nonneg, intro mult_mono) simp_all
    with \<open>0 \<le> y\<close> show ?thesis by simp
  next
    assume n: "\<not> 0 \<le> x" "\<not> 0 \<le> y"
    then have le: "- x * - y \<le> 32768 * 32768" "0 \<le> - x * - y" using r by (intro mult_mono, auto simp: mult_nonpos_nonpos)
    have "- x * - y \<le> 32767 * 32768" if "x \<noteq> - 32768" using that r n by (intro mult_mono) simp_all
    moreover have "- x * - y \<le> 32768 * 32767" if "y \<noteq> - 32768" using that r n by (intro mult_mono) simp_all
    ultimately show ?thesis using le by (cases "x = - 32768"; cases "y = - 32768") auto
  qed
  then show "- 1073709056 \<le> sint v * sint w" "sint v * sint w \<le> 1073741824"
    "sint v * sint w = 1073741824 \<longleftrightarrow> sint v = - 32768 \<and> sint w = - 32768" by (simp_all add: x_def y_def)
qed

lemma sint_s16_min: "sint (w :: s16) = - 32768 \<longleftrightarrow> w = - 32768"
  using signed_word_eqI[of w "- 32768"] by auto

lemma c_int_square_limit: "c_int 2147483648 = None"
  by (simp add: c_int_def)

text \<open>The operands for which the integer operation is undefined.\<close>

definition zip_undefined :: "zip_op \<Rightarrow> s16 cmplx \<Rightarrow> s16 cmplx \<Rightarrow> bool" where
  "zip_undefined op a b = (case op of
     ZIP_MULT \<Rightarrow> re a = - 32768 \<and> im a = - 32768 \<and> re b = - 32768 \<and> im b = - 32768
   | ZIP_DIV \<Rightarrow> (re b = 0 \<and> im b = 0) \<or> (re b = - 32768 \<and> im b = - 32768)
   | _ \<Rightarrow> False)"

lemma sint_s16_zero: "sint (w :: s16) = 0 \<longleftrightarrow> w = 0"
  using signed_word_eqI[of w 0] by auto

lemma square_zero: "sint (v :: s16) * sint v + sint (w :: s16) * sint w = 0 \<longleftrightarrow> v = 0 \<and> w = 0"
  by (simp add: sum_squares_eq_zero_iff sint_s16_zero)

lemma zip_int_None:
  assumes "op \<noteq> ZIP_CMP_MULT"
  shows "zip_int op a b = None \<longleftrightarrow> zip_undefined op a b"
proof (cases op)
  case ZIP_MULT
  let ?p = "sint (re a)" and ?q = "sint (im a)" and ?r = "sint (re b)" and ?t = "sint (im b)"
  note prod = s16_product[of "re a" "re b"] s16_product[of "im a" "im b"] s16_product[of "re a" "im b"] s16_product[of "im a" "re b"]
  have x: "c_int (?p * ?r - ?q * ?t) = Some (?p * ?r - ?q * ?t)"
    using prod(1,2,4,5) unfolding c_int_def by simp
  have y: "c_int (?p * ?t + ?q * ?r) = None \<longleftrightarrow> zip_undefined op a b"
    using prod(7-12) unfolding c_int_def zip_undefined_def ZIP_MULT sint_s16_min by force
  show ?thesis using y by (cases "c_int (?p * ?t + ?q * ?r)") (simp_all add: zip_int_def ZIP_MULT Let_def x)
next
  case ZIP_DIV
  let ?p = "sint (re a)" and ?q = "sint (im a)" and ?r = "sint (re b)" and ?t = "sint (im b)"
  note prod = s16_product[of "re a" "re b"] s16_product[of "im a" "im b"] s16_product[of "re a" "im b"] s16_product[of "im a" "re b"]
    s16_product[of "re b" "re b"] s16_product[of "im b" "im b"]
  have d: "c_int (?r * ?r + ?t * ?t) = (if re b = - 32768 \<and> im b = - 32768 then None else Some (?r * ?r + ?t * ?t))"
    using prod(13-18) unfolding c_int_def sint_s16_min by force
  have x: "c_int (?p * ?r + ?q * ?t) = Some (?p * ?r + ?q * ?t)" if "\<not> (re b = - 32768 \<and> im b = - 32768)"
    using prod(1-6) that unfolding c_int_def sint_s16_min by force
  have y: "c_int (- ?p * ?t + ?q * ?r) = Some (- ?p * ?t + ?q * ?r)"
    using prod(7-12) unfolding c_int_def by simp
  show ?thesis
    using square_zero[of "re b" "im b"] x y
    by (cases "re b = - 32768 \<and> im b = - 32768") (simp_all add: zip_int_def zip_undefined_def ZIP_DIV d Let_def c_int_square_limit)
qed (use assms in \<open>simp_all add: zip_int_def zip_undefined_def Let_def\<close>)


lemma zip_int_exact:
  "zip_int ZIP_ADD a b = Some \<lparr>re = re a + re b, im = im a + im b\<rparr>"
  "zip_int ZIP_SUB a b = Some \<lparr>re = re a - re b, im = im a - im b\<rparr>"
  by (simp_all add: zip_int_def Let_def)

text \<open>
  C31: With buffers of at least the given size, an elementwise integer operation of the four that have
  a case is defined exactly when no pair of operands meets one of the two arithmetic limits: a
  product of two numbers all of whose parts are \<open>- 32768\<close>, whose imaginary part is \<open>2\<^sup>3\<^sup>1\<close>, and a
  quotient by zero or by the number both of whose parts are \<open>- 32768\<close>, whose squares sum to \<open>2\<^sup>3\<^sup>1\<close>.
  Then the first cells of the output hold the results and the others are unchanged.
\<close>

theorem zip_int_limits:
  assumes "len \<le> length input_1" "len \<le> length input_2" "len \<le> length output" "op \<noteq> ZIP_CMP_MULT"
  shows "DASH_ZIP_int_cpu input_1 input_2 output len op =
    (if \<exists>i<len. zip_undefined op (input_1 ! i) (input_2 ! i) then None
     else Some (map (\<lambda>i. the (zip_int op (input_1 ! i) (input_2 ! i))) [0..<len] @ drop len output))"
proof -
  let ?z = "\<lambda>i. zip_int op (input_1 ! i) (input_2 ! i)"
  have loop: "DASH_ZIP_int_cpu input_1 input_2 output len op =
      foreach [0..<len] (\<lambda>i output. Option.bind (?z i) (wr output i)) output"
    unfolding DASH_ZIP_int_cpu_def by (rule foreach_cong) (use assms in auto)
  show ?thesis
  proof (cases "\<exists>i<len. zip_undefined op (input_1 ! i) (input_2 ! i)")
    case True
    then obtain i where i: "i < len" "?z i = None" using zip_int_None[OF assms(4)] by blast
    have "foreach [0..<len] (\<lambda>i output. Option.bind (?z i) (wr output i)) output = None"
      by (rule foreach_fails[of i]) (use i in simp_all)
    with True loop show ?thesis by simp
  next
    case False
    then have z: "?z i = Some (the (?z i))" if "i < len" for i using that zip_int_None[OF assms(4)] by force
    have "Option.bind (?z i) (wr s i) = wr s i (the (?z i))" if "i < len" for i s
      by (subst z[OF that]) simp
    then have "foreach [0..<len] (\<lambda>i output. Option.bind (?z i) (wr output i)) output =
        foreach [0..<len] (\<lambda>i output. wr output i (the (?z i))) output"
      by (intro foreach_cong) simp_all
    with False loop show ?thesis using foreach_write_prefix[OF assms(3)] by simp
  qed
qed

theorem zip_int_limits_witness:
  "DASH_ZIP_int_cpu [\<lparr>re = 7, im = 1\<rparr>] [\<lparr>re = 0, im = 0\<rparr>] [\<lparr>re = 0, im = 0\<rparr>] 1 ZIP_DIV = None \<and>
   DASH_ZIP_int_cpu [\<lparr>re = 300, im = 0\<rparr>] [\<lparr>re = 300, im = 1\<rparr>] [\<lparr>re = 0, im = 0\<rparr>] 1 ZIP_SUB = Some [\<lparr>re = 0, im = - 1\<rparr>]"
  using zip_int_limits[of 1 "[\<lparr>re = 7, im = 1\<rparr>]" "[\<lparr>re = 0, im = 0\<rparr>]" "[\<lparr>re = 0, im = 0\<rparr>]" ZIP_DIV]
    zip_int_limits[of 1 "[\<lparr>re = 300, im = 0\<rparr>]" "[\<lparr>re = 300, im = 1\<rparr>]" "[\<lparr>re = 0, im = 0\<rparr>]" ZIP_SUB]
  by (simp add: zip_undefined_def zip_int_exact)

section \<open>Convolution theorems\<close>

text \<open>
  C32: The bound test of the one-dimensional convolution lets the index \<open>len\<close> through: with a
  nonempty input of exactly \<open>len\<close> elements and a mask of at least three, the last element's sum reads
  one past the end of the input.
\<close>

theorem conv_1d_reads_past_end:
  assumes "0 < len" "3 \<le> mask_size" "length arr = len"
  shows "DASH_CONV_1D_flt_cpu arr len msk mask_size result = None"
proof -
  let ?n = "mask_size div 2"
  have last: "?n + 1 < mask_size" "1 \<le> ?n" using assms(2) by linarith+
  show ?thesis
    unfolding DASH_CONV_1D_flt_cpu_def Let_def
  proof (rule foreach_fails[of "len - 1"])
    show "len - 1 \<in> set [0..<len]" using assms(1) by simp
    fix s
    show "foreach [0..<mask_size] (\<lambda>j result.
       if int (len - 1) - int ?n + int j < 0 \<or> int len < int (len - 1) - int ?n + int j then Some result
       else do { r \<leftarrow> rd result (len - 1); a \<leftarrow> rd arr (nat (int (len - 1) - int ?n + int j)); m \<leftarrow> rd msk j;
                 wr result (len - 1) (r + a * m) }) s = None"
      by (rule foreach_fails[of "?n + 1"]) (use assms last in \<open>auto simp: rd_def of_nat_diff split: Option.bind_splits\<close>)
  qed
qed

theorem conv_1d_reads_past_end_witness:
  "DASH_CONV_1D_flt_cpu [1, 2, 3 :: int] 3 [1, 1, 1] 3 [0, 0, 0] = None"
  by (rule conv_1d_reads_past_end) simp_all

lemma conv_clip_low:
  "\<not> fl 32767 < acc \<Longrightarrow> acc < fl (- 32768) \<Longrightarrow> tr (fl 32767) = 32767 \<Longrightarrow> conv_clip fl tr acc = 32767"
  by (simp add: conv_clip_def)

lemma foreach_defined: "(\<And>i s. i \<in> set is \<Longrightarrow> f i s \<noteq> None) \<Longrightarrow> foreach is f s \<noteq> None"
  by (induction "is" arbitrary: s) (auto split: Option.bind_splits)

lemma conv_sum_total:
  assumes "height * width \<le> length input" "mask_size * mask_size \<le> length msk"
  shows "conv_sum fl input height width msk mask_size i j = Some (the (conv_sum fl input height width msk mask_size i j))"
proof -
  have inp: "nat (int width * s + w) < length input" if "0 \<le> s" "s < int height" "0 \<le> w" "w < int width" for s w
  proof -
    have "nat s * width + nat w < height * width" using that by (intro cell_index) simp_all
    moreover have "nat (int width * s + w) = nat s * width + nat w" using that by (simp add: nat_add_distrib nat_mult_distrib mult.commute)
    ultimately show ?thesis using assms(1) by simp
  qed
  have msk: "mask_size * k + l < length msk" if "k < mask_size" "l < mask_size" for k l
    using cell_index[OF that] assms(2) by (simp add: mult.commute)
  have "conv_sum fl input height width msk mask_size i j \<noteq> None"
    unfolding conv_sum_def Let_def by (intro foreach_defined) (simp add: inp msk)
  then show ?thesis by auto
qed

text \<open>
  Where the sum of the two-dimensional convolution is too small for a short, the output is the
  greatest short and not the smallest: a strongly negative edge becomes a strongly positive one. The
  hypotheses on the conversions are what floating point gives: the two bounds are exact.
\<close>

theorem conv_2d_saturates_upwards:
  fixes fl :: "int \<Rightarrow> 'f::{linorder,zero,plus,times}"
  assumes "height * width \<le> length input" "mask_size * mask_size \<le> length msk" "height * width \<le> length output"
    and "i < height" "j < width"
    and "conv_sum fl input height width msk mask_size i j = Some acc" "acc < fl (- 32768)"
    and "fl (- 32768) < fl 32767" "tr (fl 32767) = 32767"
  shows "\<exists>out. DASH_CONV_2D_int_cpu fl tr input height width msk mask_size output = Some out \<and> out ! (i * width + j) = 32767"
proof -
  have "conv_clip fl tr acc = 32767" using assms(7-9) by (intro conv_clip_low) auto
  then show ?thesis
    unfolding DASH_CONV_2D_int_cpu_def
    using foreach_cells[OF assms(3) conv_sum_total[OF assms(1,2)], where f = "conv_clip fl tr"] assms(6)
      cell_nth[OF assms(4,5), of "\<lambda>i j. conv_clip fl tr (the (conv_sum fl input height width msk mask_size i j))"]
    by simp
qed

theorem conv_2d_saturates_upwards_witness:
  "\<exists>out. DASH_CONV_2D_int_cpu (\<lambda>x. x) (\<lambda>x. x) [- 200 :: s16] 1 1 [300 :: int] 1 [0] = Some out \<and> out ! (0 * 1 + 0) = 32767"
  by (rule conv_2d_saturates_upwards[where acc = "- 60000"]) (simp_all add: conv_sum_def)

end
