(* ===== verification/Libdash_Calls.thy ===== *)
theory Libdash_Calls
  imports Daemon_Props Libdash
begin

text \<open>
  The calls of \<^verbatim>\<open>src/libdash\<close> an application makes: the nonblocking ones, which hand the kernel to
  \<open>enqueue_kernel\<close> (or, where the runtime has no support for the kernel yet, run it at once), and
  the blocking ones, which wait for the worker's signal. The build modelled is the one with the
  runtime (\<^verbatim>\<open>CPU_ONLY\<close> undefined) and the feature flags of \<^verbatim>\<open>dash.h\<close>.
\<close>

section \<open>Nonblocking calls\<close>

text \<open>The list is what is passed behind the count, the number is the count passed.\<close>

definition DASH_FFT_flt_nb :: "nat \<Rightarrow> addr \<Rightarrow> addr \<Rightarrow> addr \<Rightarrow> addr \<Rightarrow> addr \<Rightarrow> rt \<Rightarrow> rt_error + rt" where
  "DASH_FFT_flt_nb self input output len isForwardTransform barrier =
     enqueue_kernel self ''DASH_FFT'' ''flt'' (take 5 [input, output, len, isForwardTransform, barrier])"

definition DASH_FFT_int_nb :: "nat \<Rightarrow> addr \<Rightarrow> addr \<Rightarrow> addr \<Rightarrow> addr \<Rightarrow> addr \<Rightarrow> rt \<Rightarrow> rt_error + rt" where
  "DASH_FFT_int_nb self input output len isForwardTransform barrier =
     enqueue_kernel self ''DASH_FFT'' ''int'' (take 5 [input, output, len, isForwardTransform, barrier])"

definition DASH_GEMM_flt_nb :: "nat \<Rightarrow> addr \<Rightarrow> addr \<Rightarrow> addr \<Rightarrow> addr \<Rightarrow> addr \<Rightarrow> addr \<Rightarrow> addr \<Rightarrow> rt \<Rightarrow> rt_error + rt" where
  "DASH_GEMM_flt_nb self A B C A_ROWS A_COLS B_COLS barrier =
     enqueue_kernel self ''DASH_GEMM'' ''flt'' (take 7 [A, B, C, A_ROWS, A_COLS, B_COLS, barrier])"

definition DASH_GEMM_int_nb :: "nat \<Rightarrow> addr \<Rightarrow> addr \<Rightarrow> addr \<Rightarrow> addr \<Rightarrow> addr \<Rightarrow> addr \<Rightarrow> addr \<Rightarrow> rt \<Rightarrow> rt_error + rt" where
  "DASH_GEMM_int_nb self A B C A_ROWS A_COLS B_COLS barrier =
     enqueue_kernel self ''DASH_GEMM'' ''int'' (take 7 [A, B, C, A_ROWS, A_COLS, B_COLS, barrier])"

definition DASH_ZIP_flt_nb :: "nat \<Rightarrow> addr \<Rightarrow> addr \<Rightarrow> addr \<Rightarrow> addr \<Rightarrow> addr \<Rightarrow> addr \<Rightarrow> rt \<Rightarrow> rt_error + rt" where
  "DASH_ZIP_flt_nb self input_1 input_2 output len op barrier =
     enqueue_kernel self ''DASH_ZIP'' ''flt'' (take 6 [input_1, input_2, output, len, op, barrier])"

definition DASH_ZIP_int_nb :: "nat \<Rightarrow> addr \<Rightarrow> addr \<Rightarrow> addr \<Rightarrow> addr \<Rightarrow> addr \<Rightarrow> addr \<Rightarrow> rt \<Rightarrow> rt_error + rt" where
  "DASH_ZIP_int_nb self input_1 input_2 output len op barrier =
     enqueue_kernel self ''DASH_ZIP'' ''int'' (take 6 [input_1, input_2, output, len, op, barrier])"

definition DASH_BPSK_flt_nb :: "nat \<Rightarrow> addr \<Rightarrow> addr \<Rightarrow> addr \<Rightarrow> addr \<Rightarrow> rt \<Rightarrow> rt_error + rt" where
  "DASH_BPSK_flt_nb self input output nsymbols barrier =
     enqueue_kernel self ''DASH_BPSK'' ''flt'' (take 4 [input, output, nsymbols, barrier])"

definition DASH_QAM16_flt_nb :: "nat \<Rightarrow> addr \<Rightarrow> addr \<Rightarrow> addr \<Rightarrow> addr \<Rightarrow> rt \<Rightarrow> rt_error + rt" where
  "DASH_QAM16_flt_nb self input output nsymbols barrier =
     enqueue_kernel self ''DASH_QAM16'' ''flt'' (take 4 [input, output, nsymbols, barrier])"

definition DASH_CONV_2D_int_nb :: "nat \<Rightarrow> addr \<Rightarrow> addr \<Rightarrow> addr \<Rightarrow> addr \<Rightarrow> addr \<Rightarrow> addr \<Rightarrow> addr \<Rightarrow> rt \<Rightarrow> rt_error + rt" where
  "DASH_CONV_2D_int_nb self input height width msk mask_size output barrier =
     enqueue_kernel self ''DASH_CONV_2D'' ''int'' (take 7 [input, height, width, msk, mask_size, output, barrier])"

definition DASH_CONV_1D_flt_nb :: "nat \<Rightarrow> addr \<Rightarrow> addr \<Rightarrow> addr \<Rightarrow> addr \<Rightarrow> addr \<Rightarrow> addr \<Rightarrow> rt \<Rightarrow> rt_error + rt" where
  "DASH_CONV_1D_flt_nb self input len msk mask_size output barrier =
     enqueue_kernel self ''DASH_CONV_1D'' ''flt'' (take 6 [input, len, msk, mask_size, output, barrier])"

text \<open>
  The kernels without support in the runtime are disabled in \<^verbatim>\<open>dash.h\<close>: the call computes the
  result itself and counts the completion unless the barrier is null.
\<close>

definition run_here :: "'o option \<Rightarrow> u32 option \<Rightarrow> ('o \<times> u32 option) option" where
  "run_here result counter = map_option (\<lambda>r. (r, map_option (\<lambda>n. n + 1) counter)) result"

definition DASH_BLAS_MADD_nb :: "('a::plus) cmplx list \<Rightarrow> 'a cmplx list \<Rightarrow> 'a cmplx list \<Rightarrow> nat \<Rightarrow> nat \<Rightarrow> u32 option \<Rightarrow> ('a cmplx list \<times> u32 option) option" where
  "DASH_BLAS_MADD_nb A B C A_ROWS A_COLS = run_here (DASH_BLAS_MADD_cpu A B C A_ROWS A_COLS)"

definition DASH_BLAS_MSUB_nb :: "('a::minus) cmplx list \<Rightarrow> 'a cmplx list \<Rightarrow> 'a cmplx list \<Rightarrow> nat \<Rightarrow> nat \<Rightarrow> u32 option \<Rightarrow> ('a cmplx list \<times> u32 option) option" where
  "DASH_BLAS_MSUB_nb A B C A_ROWS A_COLS = run_here (DASH_BLAS_MSUB_cpu A B C A_ROWS A_COLS)"

definition DASH_BLAS_TRANSPOSE_nb :: "('a::uminus) cmplx list \<Rightarrow> 'a cmplx list \<Rightarrow> nat \<Rightarrow> nat \<Rightarrow> bool \<Rightarrow> u32 option \<Rightarrow> ('a cmplx list \<times> u32 option) option" where
  "DASH_BLAS_TRANSPOSE_nb input output ROWS COLS conjugate = run_here (DASH_BLAS_TRANSPOSE_cpu input output ROWS COLS conjugate)"

text \<open>What a call that reaches the runtime leaves behind.\<close>

definition call_queued :: "rt \<Rightarrow> rt_error + rt \<Rightarrow> api_types \<Rightarrow> precision_types \<Rightarrow> addr list \<Rightarrow> addr \<Rightarrow> bool" where
  "call_queued s r api precision as b = (case r of Inl e \<Rightarrow> False | Inr s' \<Rightarrow>
     (case drop (length (ready_queue s)) (ready_queue s') of
        [t] \<Rightarrow> take (length (ready_queue s)) (ready_queue s') = ready_queue s \<and> task_type t = api \<and> args t = as \<and>
               kernel_barrier t = b \<and> run_funcs t = map (dash_functions s api precision) all_resources \<and> callable t
      | _ \<Rightarrow> False))"

lemma enqueue_kernel_queues:
  assumes "app_thread_map s self = Some a" "apps s a = Some app"
    and "vs = as @ [b]" "length as < 20"
    and "api_types_map k = Some api" "precision_types_map p = Some precision" "k \<noteq> ''POISON_PILL''"
  shows "call_queued s (enqueue_kernel self k p vs s) api precision as b"
  using assms by (simp add: enqueue_kernel_def call_queued_def thread_app_def deref_def kernel_node_def store_app_def callable_def)

lemma kernel_names:
  "api_types_map ''DASH_FFT'' = Some DASH_FFT" "api_types_map ''DASH_GEMM'' = Some DASH_GEMM" "api_types_map ''DASH_ZIP'' = Some DASH_ZIP"
  "api_types_map ''DASH_BPSK'' = Some DASH_BPSK" "api_types_map ''DASH_QAM16'' = Some DASH_QAM16"
  "api_types_map ''DASH_CONV_2D'' = Some DASH_CONV_2D" "api_types_map ''DASH_CONV_1D'' = Some DASH_CONV_1D"
  "precision_types_map ''flt'' = Some prec_flt" "precision_types_map ''int'' = Some prec_int"
  by (simp_all add: api_types_map_def api_type_names_def all_apis_def precision_types_map_def precision_type_names_def)

text \<open>
  C4: Every nonblocking call of the library that goes to the runtime uses a kernel and a precision the
  runtime knows and the right number of arguments: called from a registered application
  thread, it appends exactly one task, which carries the call's arguments and barrier and every
  implementation found for that kernel, and which a worker can call.
\<close>

theorem nonblocking_calls_queue:
  assumes "app_thread_map s self = Some a" "apps s a = Some app"
  shows "call_queued s (DASH_FFT_flt_nb self x0 x1 x2 x3 b s) DASH_FFT prec_flt [x0, x1, x2, x3] b \<and>
    call_queued s (DASH_FFT_int_nb self x0 x1 x2 x3 b s) DASH_FFT prec_int [x0, x1, x2, x3] b \<and>
    call_queued s (DASH_GEMM_flt_nb self x0 x1 x2 x3 x4 x5 b s) DASH_GEMM prec_flt [x0, x1, x2, x3, x4, x5] b \<and>
    call_queued s (DASH_GEMM_int_nb self x0 x1 x2 x3 x4 x5 b s) DASH_GEMM prec_int [x0, x1, x2, x3, x4, x5] b \<and>
    call_queued s (DASH_ZIP_flt_nb self x0 x1 x2 x3 x4 b s) DASH_ZIP prec_flt [x0, x1, x2, x3, x4] b \<and>
    call_queued s (DASH_ZIP_int_nb self x0 x1 x2 x3 x4 b s) DASH_ZIP prec_int [x0, x1, x2, x3, x4] b \<and>
    call_queued s (DASH_BPSK_flt_nb self x0 x1 x2 b s) DASH_BPSK prec_flt [x0, x1, x2] b \<and>
    call_queued s (DASH_QAM16_flt_nb self x0 x1 x2 b s) DASH_QAM16 prec_flt [x0, x1, x2] b \<and>
    call_queued s (DASH_CONV_2D_int_nb self x0 x1 x2 x3 x4 x5 b s) DASH_CONV_2D prec_int [x0, x1, x2, x3, x4, x5] b \<and>
    call_queued s (DASH_CONV_1D_flt_nb self x0 x1 x2 x3 x4 b s) DASH_CONV_1D prec_flt [x0, x1, x2, x3, x4] b"
  by (intro conjI) (simp_all add: enqueue_kernel_queues[OF assms] kernel_names DASH_FFT_flt_nb_def DASH_FFT_int_nb_def DASH_GEMM_flt_nb_def DASH_GEMM_int_nb_def DASH_ZIP_flt_nb_def DASH_ZIP_int_nb_def DASH_BPSK_flt_nb_def DASH_QAM16_flt_nb_def DASH_CONV_2D_int_nb_def DASH_CONV_1D_flt_nb_def)

theorem nonblocking_calls_queue_witness:
  "call_queued (sample_rt\<lparr>apps := [1 \<mapsto> null_app], app_thread_map := [0 \<mapsto> 1]\<rparr>)
    (DASH_ZIP_int_nb 0 10 11 12 13 14 15 (sample_rt\<lparr>apps := [1 \<mapsto> null_app], app_thread_map := [0 \<mapsto> 1]\<rparr>))
    DASH_ZIP prec_int [10, 11, 12, 13, 14] 15"
  using nonblocking_calls_queue[of "sample_rt\<lparr>apps := [1 \<mapsto> null_app], app_thread_map := [0 \<mapsto> 1]\<rparr>" 0 1 null_app] by simp

section \<open>Blocking calls\<close>

text \<open>
  A blocking call as two processes over the barrier on the caller's stack: the caller locks the
  mutex, enqueues, waits while the counter is not one, and unlocks; the worker that gets the task runs
  the kernel, locks the mutex, counts, signals and unlocks. Waiting releases the mutex and sleeps in
  one step, and a sleeper is woken by the signal or for no reason at all. \<open>k\<close> is what the kernel does
  to the caller's buffers.
\<close>

datatype caller_pc = C_Lock | C_Enqueue | C_Test | C_Waiting | C_Reacquire | C_Unlock | C_Returned
datatype worker_pc = W_NoTask | W_Queued | W_Run | W_Lock | W_Count | W_Signal | W_Unlock | W_Done
datatype process = Caller | Worker

record 'o call_state =
  c_at :: caller_pc
  w_at :: worker_pc
  mutex_of :: "process option"
  completions :: u32
  buffers :: 'o

definition call_started :: "'o \<Rightarrow> 'o call_state" where
  "call_started x = \<lparr>c_at = C_Lock, w_at = W_NoTask, mutex_of = None, completions = 0, buffers = x\<rparr>"

text \<open>The flag marks the wake-up for no reason.\<close>

inductive call_step :: "('o \<Rightarrow> 'o) \<Rightarrow> bool \<Rightarrow> 'o call_state \<Rightarrow> 'o call_state \<Rightarrow> bool" for k where
  lock: "c_at s = C_Lock \<Longrightarrow> mutex_of s = None \<Longrightarrow> call_step k False s (s\<lparr>c_at := C_Enqueue, mutex_of := Some Caller\<rparr>)"
| enqueue: "c_at s = C_Enqueue \<Longrightarrow> call_step k False s (s\<lparr>c_at := C_Test, w_at := W_Queued\<rparr>)"
| wait: "c_at s = C_Test \<Longrightarrow> completions s \<noteq> 1 \<Longrightarrow> call_step k False s (s\<lparr>c_at := C_Waiting, mutex_of := None\<rparr>)"
| leave: "c_at s = C_Test \<Longrightarrow> completions s = 1 \<Longrightarrow> call_step k False s (s\<lparr>c_at := C_Unlock\<rparr>)"
| spurious: "c_at s = C_Waiting \<Longrightarrow> call_step k True s (s\<lparr>c_at := C_Reacquire\<rparr>)"
| reacquire: "c_at s = C_Reacquire \<Longrightarrow> mutex_of s = None \<Longrightarrow> call_step k False s (s\<lparr>c_at := C_Test, mutex_of := Some Caller\<rparr>)"
| unlock: "c_at s = C_Unlock \<Longrightarrow> call_step k False s (s\<lparr>c_at := C_Returned, mutex_of := None\<rparr>)"
| dispatch: "w_at s = W_Queued \<Longrightarrow> call_step k False s (s\<lparr>w_at := W_Run\<rparr>)"
| run: "w_at s = W_Run \<Longrightarrow> call_step k False s (s\<lparr>w_at := W_Lock, buffers := k (buffers s)\<rparr>)"
| worker_lock: "w_at s = W_Lock \<Longrightarrow> mutex_of s = None \<Longrightarrow> call_step k False s (s\<lparr>w_at := W_Count, mutex_of := Some Worker\<rparr>)"
| count: "w_at s = W_Count \<Longrightarrow> call_step k False s (s\<lparr>w_at := W_Signal, completions := completions s + 1\<rparr>)"
| signal: "w_at s = W_Signal \<Longrightarrow> call_step k False s (s\<lparr>w_at := W_Unlock,
    c_at := if c_at s = C_Waiting then C_Reacquire else c_at s\<rparr>)"
| worker_unlock: "w_at s = W_Unlock \<Longrightarrow> call_step k False s (s\<lparr>w_at := W_Done, mutex_of := None\<rparr>)"

code_pred call_step .

inductive_simps call_step_iff: "call_step k b s s'"

definition call_inv :: "('o \<Rightarrow> 'o) \<Rightarrow> 'o \<Rightarrow> 'o call_state \<Rightarrow> bool" where
  "call_inv k x s \<longleftrightarrow>
     (mutex_of s = Some Caller \<longleftrightarrow> c_at s \<in> {C_Enqueue, C_Test, C_Unlock}) \<and>
     (mutex_of s = Some Worker \<longleftrightarrow> w_at s \<in> {W_Count, W_Signal, W_Unlock}) \<and>
     (w_at s = W_NoTask \<longleftrightarrow> c_at s \<in> {C_Lock, C_Enqueue}) \<and>
     completions s = (if w_at s \<in> {W_Signal, W_Unlock, W_Done} then 1 else 0) \<and>
     buffers s = (if w_at s \<in> {W_NoTask, W_Queued, W_Run} then x else k x) \<and>
     (c_at s \<in> {C_Unlock, C_Returned} \<longrightarrow> w_at s = W_Done) \<and>
     (c_at s = C_Waiting \<longrightarrow> w_at s \<notin> {W_Unlock, W_Done})"

lemma call_inv_started: "call_inv k x (call_started x)"
  by (simp add: call_inv_def call_started_def)

lemma call_inv_step: "call_step k b s s' \<Longrightarrow> call_inv k x s \<Longrightarrow> call_inv k x s'"
  by (erule call_step.cases; hypsubst; cases "c_at s"; cases "w_at s"; simp add: call_inv_def; force)

lemma call_inv_progress:
  assumes "call_inv k x s" "c_at s \<noteq> C_Returned"
  shows "\<exists>s'. call_step k False s s'"
proof (cases "mutex_of s")
  case None
  with assms show ?thesis
    by (cases "c_at s"; cases "w_at s"; simp add: call_inv_def; blast intro: call_step.intros)
next
  case (Some p)
  with assms show ?thesis
    by (cases p; cases "c_at s"; cases "w_at s"; simp add: call_inv_def; blast intro: call_step.intros)
qed

primrec caller_rank :: "caller_pc \<Rightarrow> nat" where
  "caller_rank C_Lock = 6"
| "caller_rank C_Enqueue = 5"
| "caller_rank C_Reacquire = 4"
| "caller_rank C_Test = 3"
| "caller_rank C_Waiting = 2"
| "caller_rank C_Unlock = 2"
| "caller_rank C_Returned = 1"

primrec worker_rank :: "worker_pc \<Rightarrow> nat" where
  "worker_rank W_NoTask = 7"
| "worker_rank W_Queued = 6"
| "worker_rank W_Run = 5"
| "worker_rank W_Lock = 4"
| "worker_rank W_Count = 3"
| "worker_rank W_Signal = 2"
| "worker_rank W_Unlock = 1"
| "worker_rank W_Done = 0"

definition call_rank :: "'o call_state \<Rightarrow> nat" where
  "call_rank s = 3 * worker_rank (w_at s) + caller_rank (c_at s)"

lemma call_rank_step:
  "call_step k b s s' \<Longrightarrow> call_inv k x s \<Longrightarrow> if b then call_rank s' = call_rank s + 2 else call_rank s' < call_rank s"
  by (erule call_step.cases; hypsubst; cases "c_at s"; cases "w_at s"; simp add: call_inv_def call_rank_def; force)

text \<open>\<open>call_run k x n w s\<close>: after \<open>n\<close> steps, \<open>w\<close> of them wake-ups for no reason, the call is at \<open>s\<close>.\<close>

inductive call_run :: "('o \<Rightarrow> 'o) \<Rightarrow> 'o \<Rightarrow> nat \<Rightarrow> nat \<Rightarrow> 'o call_state \<Rightarrow> bool" for k x where
  start: "call_run k x 0 0 (call_started x)"
| progress: "call_run k x n w s \<Longrightarrow> call_step k False s s' \<Longrightarrow> call_run k x (Suc n) w s'"
| wake: "call_run k x n w s \<Longrightarrow> call_step k True s s' \<Longrightarrow> call_run k x (Suc n) (Suc w) s'"

lemma call_run_inv: "call_run k x n w s \<Longrightarrow> call_inv k x s"
  by (induction rule: call_run.induct) (auto intro: call_inv_started call_inv_step)

lemma call_run_rank: "call_run k x n w s \<Longrightarrow> n + call_rank s \<le> 27 + 3 * w"
proof (induction rule: call_run.induct)
  case start
  show ?case by (simp add: call_rank_def call_started_def)
next
  case (progress n w s s')
  then show ?case using call_rank_step[OF progress(2) call_run_inv[OF progress(1)]] by simp
next
  case (wake n w s s')
  then show ?case using call_rank_step[OF wake(2) call_run_inv[OF wake(1)]] by simp
qed

text \<open>
  C5: When a blocking call has returned, its kernel has run exactly once on the caller's buffers, the
  completion was counted once, and the worker is past its last access to the barrier, which lies
  on the stack frame the caller gives up: no order of the two threads' steps returns early.
\<close>

theorem blocking_call_complete:
  assumes "call_run k x n w s" "c_at s = C_Returned"
  shows "buffers s = k x \<and> completions s = 1 \<and> w_at s = W_Done \<and> mutex_of s = None \<and> (\<forall>b s'. \<not> call_step k b s s')"
proof -
  note inv = call_run_inv[OF assms(1), unfolded call_inv_def]
  have wd: "w_at s = W_Done" using inv assms(2) by simp
  have "mutex_of s \<noteq> Some Caller" "mutex_of s \<noteq> Some Worker" using inv assms(2) wd by simp_all
  then have "mutex_of s = None" by (metis option.exhaust process.exhaust)
  with inv assms(2) wd show ?thesis by (simp add: call_step_iff)
qed

lemma call_can_return: "call_run k x n w s \<Longrightarrow> \<exists>n' s'. call_run k x n' w s' \<and> c_at s' = C_Returned"
proof (induction "call_rank s" arbitrary: n s rule: less_induct)
  case less
  show ?case
  proof (cases "c_at s = C_Returned")
    case True
    with less.prems show ?thesis by blast
  next
    case False
    from call_inv_progress[OF call_run_inv[OF less.prems] this] obtain s' where s': "call_step k False s s'" ..
    then show ?thesis
      using less.hyps[OF _ call_run.progress[OF less.prems s']] call_rank_step[OF s' call_run_inv[OF less.prems]] by simp
  qed
qed

theorem blocking_call_complete_witness:
  "\<exists>n s. call_run (\<lambda>n. n + 1) (41 :: nat) n 0 s \<and> c_at s = C_Returned \<and> buffers s = 42"
proof -
  obtain n s where "call_run (\<lambda>n. n + 1) (41 :: nat) n 0 s" "c_at s = C_Returned"
    using call_can_return[OF call_run.start[of "\<lambda>n. n + 1" 41]] by blast
  then show ?thesis using blocking_call_complete by fastforce
qed

text \<open>
  C6: No wake-up is lost and the two threads never deadlock: as long as the call has not returned, some
  thread can take a step that is not a wake-up for no reason, and a run with \<open>w\<close> of those has less than
  \<open>27 + 3 * w\<close> steps. So the call returns, whatever the order of the steps, once the task is given to a
  worker.
\<close>

theorem blocking_call_returns:
  assumes "call_run k x n w s"
  shows "n < 27 + 3 * w \<and> (c_at s = C_Returned \<or> (\<exists>s'. call_step k False s s'))"
proof -
  have "0 < call_rank s" by (cases "c_at s") (simp_all add: call_rank_def)
  with call_run_rank[OF assms] call_inv_progress[OF call_run_inv[OF assms]] show ?thesis by auto
qed

theorem blocking_call_returns_witness:
  "\<exists>s'. call_step (\<lambda>n. n + 1) False (call_started (41 :: nat)) s'"
  using blocking_call_returns[OF call_run.start[of "\<lambda>n. n + 1" "41 :: nat"]] by (simp add: call_started_def)


end
