(* ===== verification/Dag_Types.thy ===== *)
theory Dag_Types
  imports Config "HOL-Library.AList"
begin

text \<open>
  The data model of the task-graph runtime, \<^verbatim>\<open>src/src-dag/include/header.hpp\<close>: resource
  types, streaming modes, variables, task nodes, applications, workers and log records, and
  the assignment operators that instantiate a prototype.

  An application owns the array of its nodes; a pointer to a node is the address of the
  application with an index into the array, and the predecessor and successor arrays hold
  indices (\<open>None\<close> is a null pointer). Variables are immutable after they are built, so
  argument lists hold them by value; the memory they point to is a map from addresses to
  blocks, which are plain bytes or, for pointer variables, a stored address. Names that
  \<open>Cedr_Types\<close> has for the other runtime are shadowed here.
\<close>

section \<open>Resource types and streaming modes\<close>

datatype dag_resource = Cpu | Fft | Mmult | Gpu

primrec dres_num :: "dag_resource \<Rightarrow> nat" where
  "dres_num Cpu = 0"
| "dres_num Fft = 1"
| "dres_num Mmult = 2"
| "dres_num Gpu = 3"

definition all_dres :: "dag_resource list" where "all_dres = [Cpu, Fft, Mmult, Gpu]"

definition dres_names :: "string list" where
  "dres_names = [''cpu'', ''fft'', ''mmult'', ''gpu'']"

definition dres_map :: "string \<rightharpoonup> dag_resource" where
  "dres_map = map_of (map (\<lambda>r. (dres_names ! dres_num r, r)) all_dres)"

datatype stream_mode = non_streaming | single_buffer | double_buffer | sequential

primrec stream_num :: "stream_mode \<Rightarrow> nat" where
  "stream_num non_streaming = 0"
| "stream_num single_buffer = 1"
| "stream_num double_buffer = 2"
| "stream_num sequential = 3"

definition stream_mode_names :: "string list" where
  "stream_mode_names = [''none'', ''single buffer'', ''double buffer'', ''sequential'']"

definition stream_mode_map :: "string \<rightharpoonup> stream_mode" where
  "stream_mode_map = map_of (map (\<lambda>m. (stream_mode_names ! stream_num m, m))
     [non_streaming, single_buffer, double_buffer, sequential])"

lemma all_dres_complete [simp]: "r \<in> set all_dres"
  by (cases r) (simp_all add: all_dres_def)

lemma dres_num_less [simp]: "dres_num r < 4"
  by (cases r) simp_all

lemma dres_num_inj [simp]: "dres_num r = dres_num r' \<longleftrightarrow> r = r'"
  by (cases r; cases r') simp_all

lemma dres_map_name [simp]: "dres_map (dres_names ! dres_num r) = Some r"
  by (cases r) (simp_all add: dres_map_def dres_names_def all_dres_def)

lemma stream_mode_map_name [simp]: "stream_mode_map (stream_mode_names ! stream_num m) = Some m"
  by (cases m) (simp_all add: stream_mode_map_def stream_mode_names_def)

section \<open>Structures\<close>

record variable =
  var_name :: string
  num_bytes :: u32
  heap_ptr :: addr
  is_ptr_var :: bool
  ptr_alloc_bytes :: u32

type_synonym task_ptr = "addr \<times> nat"

record dag_task =
  task_id :: int
  task_app_id :: int
  app_pnt :: addr
  succ :: "nat option list"
  pred :: "nat option list"
  task_name :: string
  iter :: u64
  complete_flag :: bool
  in_ready_queue :: bool
  running_flag :: bool
  is_head :: bool
  is_tail :: bool
  run_funcs :: "addr list"
  args :: "variable list"
  actual_run_func :: addr
  start_ts :: timespec
  end_ts :: timespec
  actual_execution_time :: int
  prev_idle_time :: u64
  assigned_resource_type :: dag_resource
  assigned_resource_name :: string
  supported_resources :: "dag_resource set"
  actual_resource_cluster_idx :: u32
  estimated_execution :: "int list"

record dag_app =
  head_nodes :: "dag_task list"
  app_id :: int
  task_count :: int
  completed_task_count :: int
  stream_enable :: stream_mode
  max_stream_frame_count :: int
  app_name :: string
  dlhandle :: addr
  variables :: "(string \<times> variable) list"
  arrival_time :: u64

record dag_worker =
  todo_task_dequeue :: "task_ptr list"
  completed_task_dequeue :: "task_ptr list"
  resource_state :: int
  resource_name :: string
  thread_resource_type :: dag_resource
  resource_cluster_idx :: u32
  todo_dequeue_time :: int
  thread_avail_time :: int

record dag_logging =
  log_frame_id :: int
  log_app_name :: string
  log_app_id :: int
  log_task_id :: int
  log_task_name :: string
  log_resource_name :: string
  log_start :: timespec
  log_end :: timespec
  log_prev_idle_time :: u64

text \<open>What \<^verbatim>\<open>calloc\<close> leaves in a fresh node and in a fresh application.\<close>

definition null_node :: dag_task where
  "null_node = \<lparr>task_id = 0, task_app_id = 0, app_pnt = 0, succ = [], pred = [], task_name = '''', iter = 0,
     complete_flag = False, in_ready_queue = False, running_flag = False, is_head = False, is_tail = False,
     run_funcs = replicate 4 0, args = [], actual_run_func = 0, start_ts = null_timespec, end_ts = null_timespec,
     actual_execution_time = 0, prev_idle_time = 0, assigned_resource_type = Cpu, assigned_resource_name = '''',
     supported_resources = {}, actual_resource_cluster_idx = 0, estimated_execution = replicate 4 0\<rparr>"

definition null_dag :: dag_app where
  "null_dag = \<lparr>head_nodes = [], app_id = 0, task_count = 0, completed_task_count = 0, stream_enable = non_streaming,
     max_stream_frame_count = 0, app_name = '''', dlhandle = 0, variables = [], arrival_time = 0\<rparr>"

section \<open>The process\<close>

datatype block = Bytes "u8 list" | Pointer addr

datatype dag_pc = DTop | DLoaded task_ptr addr | DLabelled task_ptr addr | DExecuted task_ptr | DTerminated

record dag_hw =
  dwt :: dag_worker
  dpc :: dag_pc
  last_avail :: u64

record drt =
  dapps :: "addr \<rightharpoonup> dag_app"
  blocks :: "addr \<rightharpoonup> block"
  next_addr :: addr
  unarrived_apps :: "addr list"
  arrived_nonstreaming :: "addr list"
  arrived_streaming :: "addr list"
  completed_apps :: "addr list"
  ready_queue :: "task_ptr list"
  dpes :: "dag_hw list"
  sharedObjectMap :: "string \<rightharpoonup> addr"
  applicationMap :: "string \<rightharpoonup> addr"
  appNum :: int
  schedule_cache :: "string \<rightharpoonup> int"
  rand_resource :: u32
  met_resource_idx :: u32
  free_resource_count :: u32
  rt_clock :: "nat \<Rightarrow> int"
  rt_ticks :: nat
  nn_inputs :: "int list"
  stream_timing_log :: "dag_logging list"
  lib_globals :: "addr \<Rightarrow> u32"
  calls :: "(addr \<times> addr list \<times> u32) list"

datatype dag_error = Undefined | Thrown cfg_error | ProcExit int

definition tick :: "drt \<Rightarrow> int \<times> drt" where
  "tick s = (rt_clock s (rt_ticks s), s\<lparr>rt_ticks := rt_ticks s + 1\<rparr>)"

text \<open>Accesses through pointers: to an application, and to one of its nodes.\<close>

definition the_app :: "drt \<Rightarrow> addr \<Rightarrow> dag_error + dag_app" where
  "the_app s a = (case dapps s a of None \<Rightarrow> Inl Undefined | Some app \<Rightarrow> Inr app)"

definition node_at :: "drt \<Rightarrow> task_ptr \<rightharpoonup> dag_task" where
  "node_at s p = Option.bind (dapps s (fst p)) (\<lambda>app. rd (head_nodes app) (snd p))"

definition the_node :: "drt \<Rightarrow> task_ptr \<Rightarrow> dag_error + dag_task" where
  "the_node s p = (case node_at s p of None \<Rightarrow> Inl Undefined | Some t \<Rightarrow> Inr t)"

text \<open>An element of the worker array.\<close>

definition worker_at :: "drt \<Rightarrow> int \<Rightarrow> dag_worker option" where
  "worker_at s i = (if 0 \<le> i then map_option dwt (rd (dpes s) (nat i)) else None)"

definition set_worker :: "int \<Rightarrow> (dag_worker \<Rightarrow> dag_worker) \<Rightarrow> drt \<Rightarrow> drt" where
  "set_worker i f s = s\<lparr>dpes := (dpes s)[nat i := (dpes s ! nat i)\<lparr>dwt := f (dwt (dpes s ! nat i))\<rparr>]\<rparr>"

definition set_app :: "addr \<Rightarrow> dag_app \<Rightarrow> drt \<Rightarrow> drt" where
  "set_app a app s = s\<lparr>dapps := (dapps s)(a \<mapsto> app)\<rparr>"

definition set_node :: "task_ptr \<Rightarrow> (dag_task \<Rightarrow> dag_task) \<Rightarrow> drt \<Rightarrow> drt" where
  "set_node p f s = (case dapps s (fst p) of None \<Rightarrow> s
     | Some app \<Rightarrow> set_app (fst p) (app\<lparr>head_nodes := (head_nodes app)[snd p := f (head_nodes app ! snd p)]\<rparr>) s)"

text \<open>\<^verbatim>\<open>calloc\<close> of a block of bytes.\<close>

definition alloc_block :: "block \<Rightarrow> drt \<Rightarrow> addr \<times> drt" where
  "alloc_block b s = (next_addr s, s\<lparr>blocks := (blocks s)(next_addr s \<mapsto> b), next_addr := next_addr s + 1\<rparr>)"

definition zero_block :: "nat \<Rightarrow> block" where
  "zero_block n = Bytes (replicate n 0)"

section \<open>The assignment operators\<close>

text \<open>
  The assignment of nodes copies the description; the iteration number, the queue flag, the
  links and the arguments are left to the caller.
\<close>

definition task_assign :: "dag_task \<Rightarrow> dag_task \<Rightarrow> dag_task" where
  "task_assign this other = this\<lparr>
     task_id := task_id other,
     task_app_id := task_app_id other,
     task_name := task_name other,
     is_head := is_head other,
     is_tail := is_tail other,
     complete_flag := complete_flag other,
     running_flag := running_flag other,
     run_funcs := run_funcs other,
     start_ts := start_ts other,
     end_ts := end_ts other,
     actual_execution_time := actual_execution_time other,
     prev_idle_time := prev_idle_time other,
     assigned_resource_type := assigned_resource_type other,
     assigned_resource_name := assigned_resource_name other,
     supported_resources := supported_resources other,
     actual_resource_cluster_idx := actual_resource_cluster_idx other,
     estimated_execution := map (\<lambda>r. if r \<in> supported_resources other then estimated_execution other ! dres_num r
                                     else estimated_execution this ! dres_num r) all_dres\<rparr>"

text \<open>
  The copy of a variable has its own memory: the bytes of the prototype, or for a pointer
  variable of eight bytes the address of a new block. The new block has as many bytes as the
  pointer, whatever was allocated for the prototype.
\<close>

definition copy_variable :: "string \<times> variable \<Rightarrow> drt \<Rightarrow> dag_error + ((string \<times> variable) \<times> drt)" where
  "copy_variable = (\<lambda>(name, v) s.
     let n = unat (num_bytes v);
         (h, s) = alloc_block (zero_block n) s;
         v' = \<lparr>var_name = name, num_bytes = num_bytes v, heap_ptr = h, is_ptr_var = is_ptr_var v, ptr_alloc_bytes = 0\<rparr>
     in if is_ptr_var v then
          if n = 8 then let (p, s) = alloc_block (zero_block n) s
                        in Inr ((name, v'), s\<lparr>blocks := (blocks s)(h \<mapsto> Pointer p)\<rparr>)
          else Inr ((name, v'), s)
        else case blocks s (heap_ptr v) of
          None \<Rightarrow> Inl Undefined
        | Some b \<Rightarrow> Inr ((name, v'), s\<lparr>blocks := (blocks s)(h \<mapsto> b)\<rparr>))"

primrec copy_variables :: "(string \<times> variable) list \<Rightarrow> drt \<Rightarrow> dag_error + ((string \<times> variable) list \<times> drt)" where
  "copy_variables [] s = Inr ([], s)"
| "copy_variables (v # vs) s = bindR (copy_variable v s) (\<lambda>(v', s).
     map_sum id (\<lambda>(vs', s). (v' # vs', s)) (copy_variables vs s))"

primrec mapR :: "('x \<Rightarrow> 'e + 'y) \<Rightarrow> 'x list \<Rightarrow> 'e + 'y list" where
  "mapR f [] = Inr []"
| "mapR f (x # xs) = bindR (f x) (\<lambda>y. map_sum id (Cons y) (mapR f xs))"

text \<open>A link of the copy goes to the node whose number the linked node of the prototype has.\<close>

definition copy_link :: "dag_task list \<Rightarrow> nat option \<Rightarrow> dag_error + nat option" where
  "copy_link nodes l = (case Option.bind l (rd nodes) of
     None \<Rightarrow> Inl Undefined
   | Some t \<Rightarrow> if task_id t < 0 then Inl Undefined else Inr (Some (nat (task_id t))))"

definition copy_node :: "addr \<Rightarrow> dag_task list \<Rightarrow> (string \<times> variable) list \<Rightarrow> nat \<Rightarrow> dag_error + dag_task" where
  "copy_node a nodes vars i = (case rd nodes i of None \<Rightarrow> Inl Undefined | Some other \<Rightarrow>
     bindR (mapR (copy_link nodes) (pred other)) (\<lambda>preds.
     bindR (mapR (copy_link nodes) (succ other)) (\<lambda>succs.
     bindR (mapR (\<lambda>v. case map_of vars (var_name v) of None \<Rightarrow> Inl Undefined | Some v' \<Rightarrow> Inr v') (args other)) (\<lambda>as.
       Inr ((task_assign null_node other)\<lparr>pred := preds, succ := succs, args := as, app_pnt := a\<rparr>)))))"

definition app_assign :: "addr \<Rightarrow> dag_app \<Rightarrow> drt \<Rightarrow> dag_error + (dag_app \<times> drt)" where
  "app_assign a other s =
     bindR (copy_variables (variables other) s) (\<lambda>(vars, s).
     bindR (mapR (copy_node a (head_nodes other) vars) [0..<nat (task_count other)]) (\<lambda>nodes.
       Inr (null_dag\<lparr>
         app_id := app_id other,
         task_count := task_count other,
         arrival_time := arrival_time other,
         dlhandle := dlhandle other,
         stream_enable := stream_enable other,
         max_stream_frame_count := max_stream_frame_count other,
         app_name := take 49 (app_name other),
         variables := vars,
         head_nodes := nodes\<rparr>, s)))"

end
