(* ===== verification/Dag_Config.thy ===== *)
theory Dag_Config
  imports Dag_Types
begin

text \<open>
  The configuration of the task-graph runtime, \<^verbatim>\<open>src/src-dag/config_manager.cpp\<close>: as in
  \<open>Config\<close>, without the API costs and the library paths, and with the counters read one by
  one instead of as a list.
\<close>

record dag_config =
  dc_resource_array :: "u32 list"
  dc_cache_schedules :: bool
  dc_enable_queueing :: bool
  dc_use_papi :: bool
  dc_loosen_thread_permissions :: bool
  dc_fixed_periodic_injection :: bool
  dc_exit_when_idle :: bool
  dc_PAPI_Counters :: "string list"
  dc_scheduler :: string
  dc_max_parallel_jobs :: u64
  dc_random_seed :: u64

text \<open>The constructor; the macro \<^verbatim>\<open>ARM\<close> selects the accelerator defaults.\<close>

definition ConfigManager :: "bool \<Rightarrow> dag_config" where
  "ConfigManager arm = \<lparr>
     dc_resource_array = (if arm then [3, 1, 1, 0] else [3, 0, 0, 0]),
     dc_cache_schedules = False,
     dc_enable_queueing = True,
     dc_use_papi = False,
     dc_loosen_thread_permissions = False,
     dc_fixed_periodic_injection = True,
     dc_exit_when_idle = False,
     dc_PAPI_Counters = [],
     dc_scheduler = ''SIMPLE'',
     dc_max_parallel_jobs = 12,
     dc_random_seed = 0\<rparr>"

definition getTotalResources :: "dag_config \<Rightarrow> u32" where
  "getTotalResources c = fold (\<lambda>num sum. sum + num) (dc_resource_array c) 0"

text \<open>
  Iterating over a value visits the elements of an array, the members of an object, nothing
  for null, and any other value itself.
\<close>

fun elements :: "json \<Rightarrow> json list" where
  "elements (JArray js) = js"
| "elements (JObject kvs) = map snd kvs"
| "elements JNull = []"
| "elements j = [j]"

definition parse_threads :: "json \<Rightarrow> dag_config \<Rightarrow> cfg_error + dag_config" where
  "parse_threads j c = (case jfind j ''Worker Threads'' of
     None \<Rightarrow> Inr c
   | Some threads_config \<Rightarrow> foldR (\<lambda>r. override threads_config (dres_names ! dres_num r) get_uint
        (\<lambda>n c. c\<lparr>dc_resource_array := (dc_resource_array c)[dres_num (the (dres_map (dres_names ! dres_num r))) := n]\<rparr>)) all_dres c)"

definition parse_features :: "json \<Rightarrow> dag_config \<Rightarrow> cfg_error + dag_config" where
  "parse_features j c = (case jfind j ''Features'' of
     None \<Rightarrow> Inr c
   | Some features_config \<Rightarrow>
       bindR (override features_config ''Cache Schedules'' get_bool (\<lambda>b c. c\<lparr>dc_cache_schedules := b\<rparr>) c) (\<lambda>c.
       bindR (override features_config ''Enable Queueing'' get_bool (\<lambda>b c. c\<lparr>dc_enable_queueing := b\<rparr>) c) (\<lambda>c.
       bindR (override features_config ''Use PAPI'' get_bool (\<lambda>b c. c\<lparr>dc_use_papi := b\<rparr>) c) (\<lambda>c.
       bindR (override features_config ''Loosen Thread Permissions'' get_bool
                (\<lambda>b c. c\<lparr>dc_loosen_thread_permissions := b\<rparr>) c) (\<lambda>c.
       bindR (override features_config ''Fixed Periodic Injection'' get_bool
                (\<lambda>b c. c\<lparr>dc_fixed_periodic_injection := b\<rparr>) c) (\<lambda>c.
       override features_config ''Exit When Idle'' get_bool (\<lambda>b c. c\<lparr>dc_exit_when_idle := b\<rparr>) c))))))"

definition parse_counters :: "json \<Rightarrow> dag_config \<Rightarrow> cfg_error + dag_config" where
  "parse_counters j c = (case jfind j ''PAPI Counters'' of
     None \<Rightarrow> Inr c
   | Some papi_counters \<Rightarrow> foldR (\<lambda>counter c. map_sum id (\<lambda>x. c\<lparr>dc_PAPI_Counters := dc_PAPI_Counters c @ [x]\<rparr>)
        (get_string counter)) (elements papi_counters) c)"

definition parseConfig :: "cfg_file \<Rightarrow> dag_config \<Rightarrow> cfg_error + dag_config" where
  "parseConfig f c = (case f of
     NotOpened \<Rightarrow> Inr c
   | Malformed \<Rightarrow> Inl ParseError
   | Parsed j \<Rightarrow>
       bindR (parse_threads j c) (\<lambda>c.
       bindR (parse_features j c) (\<lambda>c.
       bindR (parse_counters j c) (\<lambda>c.
       bindR (override j ''Max Parallel Jobs'' get_ulong (\<lambda>n c. c\<lparr>dc_max_parallel_jobs := n\<rparr>) c) (\<lambda>c.
       bindR (override j ''Scheduler'' get_string (\<lambda>s c. c\<lparr>dc_scheduler := s\<rparr>) c) (\<lambda>c.
       override j ''Random Seed'' get_ulong (\<lambda>n c. c\<lparr>dc_random_seed := n\<rparr>) c))))))"

section \<open>Facts\<close>

lemma getTotalResources_eq: "getTotalResources c = sum_list (dc_resource_array c)"
proof -
  have "fold (\<lambda>num sum. sum + num) xs (a :: u32) = a + sum_list xs" for xs a
    by (induction xs arbitrary: a) (simp_all add: ac_simps)
  then show ?thesis by (simp add: getTotalResources_def)
qed

end
