(* ===== verification/Dag_Parse.thy ===== *)
theory Dag_Parse
  imports Dag_Config Complex_Main
begin

text \<open>
  Reading an application, \<^verbatim>\<open>parse_dag_and_binary\<close> of \<^verbatim>\<open>src/src-dag/dag_parse.cpp\<close>, on the path
  that reads a file (the other one needs the LIEF library and is disabled).

  The members of an object are visited in the order of their keys, the order of the list.
  The dynamic loader is the environment: \<^verbatim>\<open>dlopen\<close> and \<^verbatim>\<open>dlsym\<close> fail with \<open>None\<close>. The cost of
  a node is a float that is multiplied by 1000 and truncated; this conversion is the
  parameter \<open>node_cost\<close>. Messages are left out.
\<close>

record dag_env =
  dcfg :: dag_config
  dlopen :: "string \<rightharpoonup> addr"
  dlsym :: "addr \<Rightarrow> string \<rightharpoonup> addr"
  dag_file :: "string \<Rightarrow> cfg_file"
  node_cost :: "json \<Rightarrow> cfg_error + int"
  pq_top :: "(addr \<Rightarrow> u64) \<Rightarrow> addr list \<Rightarrow> addr"
  random_period :: "nat \<Rightarrow> u64 \<Rightarrow> u64"
  std_sort :: "(task_ptr \<Rightarrow> int) \<Rightarrow> task_ptr list \<Rightarrow> task_ptr list"
  std_shuffle :: "u64 \<Rightarrow> task_ptr list \<Rightarrow> task_ptr list"
  nn_run :: "int list \<Rightarrow> real list"
  nn_predict :: "int list \<Rightarrow> int"

section \<open>Access to JSON values\<close>

abbreviation thrown :: "cfg_error + 'a \<Rightarrow> dag_error + 'a" where
  "thrown \<equiv> map_sum Thrown id"

text \<open>\<^verbatim>\<open>operator[]\<close> makes a missing member null, and turns a null value into an object first.\<close>

definition member :: "json \<Rightarrow> string \<Rightarrow> cfg_error + json" where
  "member j k = (case j of
     JObject kvs \<Rightarrow> Inr (case map_of kvs k of Some v \<Rightarrow> v | None \<Rightarrow> JNull)
   | JNull \<Rightarrow> Inr JNull
   | _ \<Rightarrow> Inl TypeError)"

definition member_as :: "(json \<Rightarrow> cfg_error + 'a) \<Rightarrow> json \<Rightarrow> string \<Rightarrow> cfg_error + 'a" where
  "member_as conv j k = bindR (member j k) conv"

text \<open>Iteration with keys.\<close>

fun items :: "json \<Rightarrow> cfg_error + (string \<times> json) list" where
  "items (JObject kvs) = Inr kvs"
| "items JNull = Inr []"
| "items (JArray []) = Inr []"
| "items _ = Inl TypeError"

definition jsize :: "json \<Rightarrow> nat" where
  "jsize j = length (elements j)"

definition get_sint :: "json \<Rightarrow> cfg_error + int" where
  "get_sint j = map_sum id (\<lambda>n. sint (word_of_int n :: u32)) (get_int j)"

fun get_bytes :: "json \<Rightarrow> cfg_error + u8 list" where
  "get_bytes (JArray js) = mapR (\<lambda>j. map_sum id word_of_int (get_int j)) js"
| "get_bytes _ = Inl TypeError"

section \<open>Shared objects\<close>

definition openHandle :: "dag_env \<Rightarrow> string \<Rightarrow> string \<Rightarrow> drt \<Rightarrow> dag_error + (addr \<times> drt)" where
  "openHandle V path name s = (case dlopen V path of
     None \<Rightarrow> Inl (ProcExit 1)
   | Some h \<Rightarrow> Inr (h, s\<lparr>sharedObjectMap := (sharedObjectMap s)(name \<mapsto> h)\<rparr>))"

definition find_handle :: "dag_env \<Rightarrow> string \<Rightarrow> string \<Rightarrow> drt \<Rightarrow> dag_error + (addr \<times> drt)" where
  "find_handle V basepath name s = (case sharedObjectMap s name of
     Some h \<Rightarrow> Inr (h, s)
   | None \<Rightarrow> openHandle V (basepath @ ''/'' @ name) name s)"

section \<open>Variables\<close>

text \<open>
  Each variable has a block of zero bytes, overwritten by its initial value when that has the
  right length. A pointer variable of eight bytes points to a block of the requested size.
\<close>

definition initial_value :: "json \<Rightarrow> u32 \<Rightarrow> addr \<Rightarrow> drt \<Rightarrow> cfg_error + drt" where
  "initial_value v n h s = (case jfind v ''val'' of
     None \<Rightarrow> Inr s
   | Some j \<Rightarrow> bindR (get_bytes j) (\<lambda>bytes.
       Inr (if bytes \<noteq> [] \<and> length bytes = unat n then s\<lparr>blocks := (blocks s)(h \<mapsto> Bytes bytes)\<rparr> else s)))"

definition pointer_value :: "json \<Rightarrow> variable \<Rightarrow> drt \<Rightarrow> cfg_error + (variable \<times> drt)" where
  "pointer_value v var s = (case jfind v ''is_ptr'' of
     None \<Rightarrow> Inr (var, s)
   | Some j \<Rightarrow> bindR (get_bool j) (\<lambda>isPtr.
       if \<not> isPtr then Inr (var, s)
       else
         let var = var\<lparr>is_ptr_var := True\<rparr>
         in case jfind v ''ptr_alloc_bytes'' of
              None \<Rightarrow> Inr (var, s)
            | Some j \<Rightarrow> bindR (get_ulong j) (\<lambda>ptrBytes.
                if num_bytes var \<noteq> 8 then Inr (var, s)
                else let (p, s) = alloc_block (zero_block (unat ptrBytes)) s
                     in Inr (var, s\<lparr>blocks := (blocks s)(heap_ptr var \<mapsto> Pointer p)\<rparr>))))"

definition parse_variable :: "string \<times> json \<Rightarrow> (string \<times> variable) list \<times> drt \<Rightarrow>
    cfg_error + ((string \<times> variable) list \<times> drt)" where
  "parse_variable = (\<lambda>(name, v) (vars, s).
     bindR (member_as get_uint v ''bytes'') (\<lambda>n.
       let (h, s) = alloc_block (zero_block (unat n)) s;
           var = \<lparr>var_name = name, num_bytes = n, heap_ptr = h, is_ptr_var = False, ptr_alloc_bytes = 0\<rparr>
       in bindR (initial_value v n h s) (\<lambda>s.
          bindR (pointer_value v var s) (\<lambda>(var, s). Inr (AList.update name var vars, s)))))"

section \<open>First pass: the nodes\<close>

record pass =
  node_list :: "dag_task list"
  cur_id :: nat
  custom_ids :: bool
  node_to_idx :: "string \<rightharpoonup> nat"
  headnode_indices :: "nat list"
  tailnode_indices :: "nat list"

text \<open>An unknown argument is reported and skipped.\<close>

definition parse_args :: "(string \<times> variable) list \<Rightarrow> json \<Rightarrow> cfg_error + variable list" where
  "parse_args vars arguments = map_sum id (\<lambda>names. List.map_filter (map_of vars) names)
     (mapR get_string (elements arguments))"

definition custom_id :: "json \<Rightarrow> pass \<Rightarrow> cfg_error + nat" where
  "custom_id e st = (if custom_ids st then map_sum id unat (member_as get_uint e ''task_id'') else Inr (cur_id st))"

text \<open>A custom number in the first element decides for all of them.\<close>

definition first_pass :: "string \<Rightarrow> addr \<Rightarrow> (string \<times> variable) list \<Rightarrow> nat \<times> string \<times> json \<Rightarrow> pass \<Rightarrow>
    dag_error + pass" where
  "first_pass appName a vars = (\<lambda>(pos, key, e) st.
     bindR (thrown (member e ''arguments'')) (\<lambda>arguments.
     bindR (thrown (member e ''predecessors'')) (\<lambda>pred_list.
     bindR (thrown (member e ''successors'')) (\<lambda>succ_list.
     let st = (if pos = 0 \<and> jfind e ''task_id'' \<noteq> None then st\<lparr>custom_ids := True\<rparr> else st)
     in bindR (thrown (custom_id e st)) (\<lambda>taskid.
     bindR (if taskid < length (node_list st) then Inr () else Inl Undefined) (\<lambda>_.
     bindR (thrown (parse_args vars arguments)) (\<lambda>as.
       let node = (node_list st ! taskid)\<lparr>
             args := as,
             task_id := int taskid,
             app_pnt := a,
             task_name := appName @ ''_'' @ key,
             is_head := (if jsize pred_list = 0 then True else is_head (node_list st ! taskid)),
             pred := replicate (jsize pred_list) None,
             is_tail := (if jsize succ_list = 0 then True else is_tail (node_list st ! taskid)),
             succ := replicate (jsize succ_list) None,
             supported_resources := {},
             actual_resource_cluster_idx := - 1,
             assigned_resource_name := ''unassigned''\<rparr>
       in Inr (st\<lparr>
            node_list := (node_list st)[taskid := node],
            node_to_idx := (if node_to_idx st key = None then (node_to_idx st)(key \<mapsto> taskid) else node_to_idx st),
            headnode_indices := (if jsize pred_list = 0 then headnode_indices st @ [taskid] else headnode_indices st),
            tailnode_indices := (if jsize succ_list = 0 then tailnode_indices st @ [taskid] else tailnode_indices st),
            cur_id := (if custom_ids st then taskid else taskid + 1)\<rparr>))))))))"

section \<open>Second pass: the links\<close>

text \<open>An unknown name is entered into the map with index 0, and the link goes to node 0.\<close>

definition node_index :: "(string \<rightharpoonup> nat) \<Rightarrow> string \<Rightarrow> nat \<times> (string \<rightharpoonup> nat)" where
  "node_index m name = (case m name of Some i \<Rightarrow> (i, m) | None \<Rightarrow> (0, m(name \<mapsto> 0)))"

fun link_names :: "json list \<Rightarrow> nat \<Rightarrow> nat option list \<times> (string \<rightharpoonup> nat) \<Rightarrow>
    dag_error + (nat option list \<times> (string \<rightharpoonup> nat))" where
  "link_names [] idx (links, m) = Inr (links, m)"
| "link_names (e # es) idx (links, m) = bindR (thrown (member_as get_string e ''name'')) (\<lambda>name.
     let (i, m) = node_index m name
     in case wr links idx (Some i) of
          None \<Rightarrow> Inl Undefined
        | Some links \<Rightarrow> link_names es (idx + 1) (links, m))"

text \<open>
  One platform of a node: its cost, and its function from the application's object or from
  one of its own. A function that is not found is reported and left null.
\<close>

definition parse_platform :: "dag_env \<Rightarrow> string \<Rightarrow> addr \<Rightarrow> json \<Rightarrow> dag_task \<times> drt \<Rightarrow> dag_error + (dag_task \<times> drt)" where
  "parse_platform V basepath dl_handle p = (\<lambda>(t, s).
     bindR (thrown (member_as get_string p ''name'')) (\<lambda>platform.
     bindR (thrown (member_as get_string p ''runfunc'')) (\<lambda>runfunc.
     case dres_map platform of
       None \<Rightarrow> Inl (Thrown OutOfRange)
     | Some r \<Rightarrow>
         bindR (thrown (member_as (node_cost V) p ''nodecost'')) (\<lambda>cost.
           let t = t\<lparr>supported_resources := insert r (supported_resources t),
                     estimated_execution := (estimated_execution t)[dres_num r := cost]\<rparr>
           in bindR (case jfind p ''shared_object'' of
                None \<Rightarrow> Inr (dl_handle, s)
              | Some j \<Rightarrow> bindR (thrown (get_string j)) (\<lambda>name. find_handle V basepath name s))
              (\<lambda>(h, s). Inr (case dlsym V h runfunc of
                 None \<Rightarrow> (t, s)
               | Some f \<Rightarrow> (t\<lparr>run_funcs := (run_funcs t)[dres_num r := f]\<rparr>, s)))))))"

definition second_pass :: "dag_env \<Rightarrow> string \<Rightarrow> addr \<Rightarrow> stream_mode \<Rightarrow> string \<times> json \<Rightarrow> pass \<times> drt \<Rightarrow>
    dag_error + (pass \<times> drt)" where
  "second_pass V basepath dl_handle mode = (\<lambda>(key, e) (st, s).
     bindR (thrown (member e ''predecessors'')) (\<lambda>pred_list.
     bindR (thrown (member e ''successors'')) (\<lambda>succ_list.
     bindR (thrown (member e ''platforms'')) (\<lambda>plat_list.
     bindR (thrown (custom_id e st)) (\<lambda>taskid.
     case rd (node_list st) taskid of None \<Rightarrow> Inl Undefined | Some t \<Rightarrow>
     bindR (if mode = sequential \<and> is_head t then Inr (map Some (tailnode_indices st), node_to_idx st)
            else link_names (elements pred_list) 0 (pred t, node_to_idx st)) (\<lambda>(preds, m).
     bindR (if mode = sequential \<and> is_tail t then Inr (map Some (headnode_indices st), m)
            else link_names (elements succ_list) 0 (succ t, m)) (\<lambda>(succs, m).
     bindR (foldR (parse_platform V basepath dl_handle) (elements plat_list) (t\<lparr>pred := preds, succ := succs\<rparr>, s)) (\<lambda>(t, s).
       Inr (st\<lparr>node_list := (node_list st)[taskid := t], node_to_idx := m,
              cur_id := (if custom_ids st then taskid else taskid + 1)\<rparr>, s)))))))))"

section \<open>The application\<close>

definition parse_stream :: "json \<Rightarrow> cfg_error + (stream_mode \<times> int)" where
  "parse_stream j =
     bindR (case jfind j ''Stream_enable'' of
       None \<Rightarrow> Inr non_streaming
     | Some v \<Rightarrow> bindR (get_string v) (\<lambda>name. Inr (case stream_mode_map name of Some m \<Rightarrow> m | None \<Rightarrow> non_streaming)))
     (\<lambda>mode. bindR (case jfind j ''Max_stream_frame_count'' of None \<Rightarrow> Inr 0 | Some v \<Rightarrow> get_sint v) (\<lambda>n. Inr (mode, n)))"

definition parse_nodes :: "dag_env \<Rightarrow> string \<Rightarrow> string \<Rightarrow> addr \<Rightarrow> addr \<Rightarrow> stream_mode \<Rightarrow> (string \<times> variable) list \<Rightarrow>
    (string \<times> json) list \<Rightarrow> drt \<Rightarrow> dag_error + (pass \<times> drt)" where
  "parse_nodes V basepath appName a dl_handle mode vars kvs s =
     bindR (foldR (first_pass appName a vars) (zip [0..<length kvs] kvs)
       \<lparr>node_list = replicate (length kvs) null_node, cur_id = 0, custom_ids = False, node_to_idx = Map.empty,
        headnode_indices = [], tailnode_indices = []\<rparr>) (\<lambda>st.
     foldR (second_pass V basepath dl_handle mode) kvs (st\<lparr>cur_id := 0\<rparr>, s))"

text \<open>The result is the address of the new application; a file that does not open gives a null pointer.\<close>

definition parse_dag_and_binary :: "dag_env \<Rightarrow> string \<Rightarrow> drt \<Rightarrow> dag_error + (addr \<times> drt)" where
  "parse_dag_and_binary V filename s = (case dag_file V filename of
     NotOpened \<Rightarrow> Inr (0, s)
   | Malformed \<Rightarrow> Inl (Thrown ParseError)
   | Parsed j \<Rightarrow>
       let basepath = before_last (CHR ''/'') filename
       in bindR (thrown (member_as get_string j ''AppName'')) (\<lambda>appName.
       bindR (thrown (member_as get_string j ''SharedObject'')) (\<lambda>shared_object_name.
       bindR (thrown (member j ''Variables'')) (\<lambda>vars_json.
       bindR (thrown (parse_stream j)) (\<lambda>(mode, frames).
       bindR (find_handle V basepath shared_object_name s) (\<lambda>(dl_handle, s).
       bindR (thrown (member j ''DAG'')) (\<lambda>dag.
       let a = next_addr s;
           s = s\<lparr>next_addr := a + 1\<rparr>
       in bindR (thrown (items vars_json)) (\<lambda>vs.
       bindR (thrown (foldR parse_variable vs ([], s))) (\<lambda>(vars, s).
       bindR (thrown (items dag)) (\<lambda>kvs.
       bindR (parse_nodes V basepath appName a dl_handle mode vars kvs s) (\<lambda>(st, s).
         Inr (a, set_app a (null_dag\<lparr>
           variables := vars,
           head_nodes := node_list st,
           task_count := int (length kvs),
           stream_enable := mode,
           max_stream_frame_count := frames,
           app_name := take 49 appName,
           dlhandle := dl_handle\<rparr>) s))))))))))))"

end
