(* ===== verification/Dag_Predict.thy ===== *)
theory Dag_Predict
  imports Dag_Parse
begin

text \<open>
  The feature vectors of the learned schedulers, \<^verbatim>\<open>src/src-dag/IL.cpp\<close>. The network and the
  decision tree themselves are generated code: the environment's \<open>nn_run\<close> gives the output
  layer and \<open>nn_predict\<close> the tree's answer for the 19 inputs. The inputs are integers that the
  code converts to the network's number type; the cells a call does not write keep the values
  of earlier calls. \<^verbatim>\<open>feature_data\<close> is fresh memory, every cell of which is written before
  it is read. The clock is read once for the features and twice around the prediction.
\<close>

abbreviation (input) ML_SCHED_INPUT_DIM_0 :: nat where "ML_SCHED_INPUT_DIM_0 \<equiv> 19"
abbreviation (input) ML_SCHED_OUTPUT_DIM_0 :: nat where "ML_SCHED_OUTPUT_DIM_0 \<equiv> 6"

text \<open>The index of the largest positive value; the copy it makes has six cells.\<close>

definition nn_max_ml_sched :: "nat \<Rightarrow> real list \<Rightarrow> int option" where
  "nn_max_ml_sched dim_0 array = map_option snd (foreach [0..<dim_0] (\<lambda>i (tmp_max, ret). do {
     x \<leftarrow> rd array i;
     if ML_SCHED_OUTPUT_DIM_0 \<le> i then None
     else Some (if tmp_max < x then (x, int i) else (tmp_max, ret)) }) (0, 0))"

text \<open>The vectors of the features: \<^verbatim>\<open>feature_data\<close> and the inputs of the network.\<close>

type_synonym features = "int list \<times> int list"

definition set_feature :: "nat \<Rightarrow> int \<Rightarrow> features \<Rightarrow> features option" where
  "set_feature k v = (\<lambda>(ft, inputs). do { ft \<leftarrow> wr ft k v; inputs \<leftarrow> wr inputs k v; Some (ft, inputs) })"

definition pred_node :: "drt \<Rightarrow> task_ptr \<Rightarrow> nat option \<Rightarrow> dag_task option" where
  "pred_node s p l = Option.bind l (\<lambda>j. node_at s (fst p, j))"

definition getPredecessor_ID :: "drt \<Rightarrow> task_ptr \<Rightarrow> nat \<Rightarrow> features \<Rightarrow> features option" where
  "getPredecessor_ID s p feature_index fs = do {
     t \<leftarrow> node_at s p;
     fs \<leftarrow> foreach [0..<length (pred t)] (\<lambda>i fs. do {
         u \<leftarrow> pred_node s p (pred t ! i);
         set_feature (feature_index + i) (task_id u) fs }) fs;
     if pred t = [] then set_feature feature_index 50 fs else Some fs }"

definition pe_code :: "string \<Rightarrow> int option" where
  "pe_code name = map_of [(''Core 1'', 0), (''Core 2'', 1), (''Core 3'', 2), (''MMULT 1'', 5), (''FFT 1'', 3),
     (''FFT 2'', 4)] name"

definition getPredecessor_PE_ID :: "drt \<Rightarrow> task_ptr \<Rightarrow> nat \<Rightarrow> features \<Rightarrow> features option" where
  "getPredecessor_PE_ID s p feature_index fs = do {
     t \<leftarrow> node_at s p;
     fs \<leftarrow> foreach [0..<length (pred t)] (\<lambda>i fs. do {
         u \<leftarrow> pred_node s p (pred t ! i);
         v \<leftarrow> (case pe_code (assigned_resource_name u) of Some c \<Rightarrow> Some c | None \<Rightarrow> rd (fst fs) (feature_index + i));
         set_feature (feature_index + i) v fs }) fs;
     if pred t = [] then set_feature feature_index 10 fs else Some fs }"

text \<open>
  How long a worker is still busy: the difference is cut to 32 bits, and multiplying it by
  ten overflows for more than 214 ms.
\<close>

definition avail_feature :: "int \<Rightarrow> int \<Rightarrow> int option" where
  "avail_feature tmp avail =
     (if avail < tmp then Some 0
      else do {
        d \<leftarrow> ll_add avail (- tmp);
        let v = sint (word_of_int d :: u32) * 10;
        if - (2 ^ 31) \<le> v \<and> v < 2 ^ 31 then Some v else None })"

definition exec_features :: "dag_resource set \<Rightarrow> int list" where
  "exec_features supp = (if card supp = 1 then [0, 10, 10] else if Fft \<in> supp then [1, 0, 10] else [1, 10, 0])"

text \<open>
  All features of a task, in the cells of the two vectors. Both predecessor routines start at
  the same cell, so the second overwrites what the first wrote.
\<close>

definition build_features :: "dag_config \<Rightarrow> task_ptr \<Rightarrow> int \<Rightarrow> drt \<Rightarrow> features option" where
  "build_features c p tmp s = do {
     t \<leftarrow> node_at s p;
     let n = unat (dc_resource_array c ! dres_num Cpu + dc_resource_array c ! dres_num Fft + dc_resource_array c ! dres_num Mmult);
     fs \<leftarrow> foreach [0..<n] (\<lambda>i fs. do {
         th \<leftarrow> worker_at s (int i);
         v \<leftarrow> avail_feature tmp (thread_avail_time th);
         set_feature i v fs }) (replicate ML_SCHED_INPUT_DIM_0 0, nn_inputs s);
     inputs \<leftarrow> foreach [0..<3] (\<lambda>i inputs. wr inputs (n + i) (exec_features (supported_resources t) ! i)) (snd fs);
     fs \<leftarrow> getPredecessor_ID s p (n + 3) (fst fs, inputs);
     getPredecessor_PE_ID s p (n + 3) fs }"

definition getPrediction :: "dag_env \<Rightarrow> task_ptr \<Rightarrow> nat \<Rightarrow> drt \<Rightarrow> (int \<times> drt) option" where
  "getPrediction V p model s = do {
     let (tmp, s) = tick s;
     fs \<leftarrow> build_features (dcfg V) p tmp s;
     let s = s\<lparr>nn_inputs := snd fs, rt_ticks := rt_ticks s + 2\<rparr>;
     ret \<leftarrow> (if model = 0 then nn_max_ml_sched ML_SCHED_OUTPUT_DIM_0 (nn_run V (snd fs))
            else Some (nn_predict V (snd fs)));
     Some (ret, s) }"

end
