(* ===== verification/Dag_Scheduler.thy ===== *)
theory Dag_Scheduler
  imports Dag_Predict Queue_Walk
begin

text \<open>
  The scheduler of the task-graph runtime, \<^verbatim>\<open>src/src-dag/scheduler.cpp\<close>: the assignment of
  one task to one processing element and the policies SIMPLE, RANDOM, MET, HEFT_RT, DNN, RT,
  EFT and ETF, with the cached decisions served first. The ready queue holds pointers to nodes,
  and an assignment writes the node it points to. \<open>None\<close> is undefined behaviour.
\<close>

section \<open>Assigning one task\<close>

definition total_resources :: "dag_env \<Rightarrow> nat" where
  "total_resources V = unat (getTotalResources (dcfg V))"

definition cache_key :: "drt \<Rightarrow> dag_task \<Rightarrow> string option" where
  "cache_key s t = map_option (\<lambda>app. app_name app @ ''+'' @ task_name t) (dapps s (app_pnt t))"

definition cacheScheduleDecision :: "dag_task \<Rightarrow> int \<Rightarrow> drt \<Rightarrow> drt option" where
  "cacheScheduleDecision t resource_id s =
     map_option (\<lambda>key. s\<lparr>schedule_cache := (schedule_cache s)(key \<mapsto> resource_id)\<rparr>) (cache_key s t)"

definition supports :: "dag_task \<Rightarrow> dag_worker \<Rightarrow> bool" where
  "supports t th \<longleftrightarrow> thread_resource_type th \<in> supported_resources t"

definition pe_busy :: "dag_worker \<Rightarrow> bool" where
  "pe_busy th \<longleftrightarrow> resource_state th \<noteq> 0 \<or> todo_task_dequeue th \<noteq> [] \<or> completed_task_dequeue th \<noteq> []"

definition assigned :: "dag_worker \<Rightarrow> dag_task \<Rightarrow> dag_task" where
  "assigned th t = t\<lparr>
     running_flag := True,
     assigned_resource_type := thread_resource_type th,
     assigned_resource_name := resource_name th,
     actual_resource_cluster_idx := resource_cluster_idx th,
     actual_run_func := run_funcs t ! dres_num (thread_resource_type th)\<rparr>"

definition exec_time :: "dag_task \<Rightarrow> dag_worker \<Rightarrow> int" where
  "exec_time t th = estimated_execution t ! dres_num (thread_resource_type th)"

text \<open>The time a PE finishes a task it starts after the work already given to it.\<close>

definition finish_time :: "int \<Rightarrow> dag_task \<Rightarrow> dag_worker \<Rightarrow> int option" where
  "finish_time curr_time t th = ll_add (if thread_avail_time th \<le> curr_time then curr_time else thread_avail_time th) (exec_time t th)"

definition push_task :: "task_ptr \<Rightarrow> int \<Rightarrow> dag_worker \<Rightarrow> dag_worker" where
  "push_task p avail th = th\<lparr>todo_task_dequeue := todo_task_dequeue th @ [p], thread_avail_time := avail\<rparr>"

definition attemptToAssignTaskToPE :: "dag_env \<Rightarrow> task_ptr \<Rightarrow> int \<Rightarrow> drt \<Rightarrow> (bool \<times> drt) option" where
  "attemptToAssignTaskToPE V p idx s = do {
     t \<leftarrow> node_at s p;
     th \<leftarrow> worker_at s idx;
     if \<not> supports t th then Some (False, s)
     else if \<not> dc_enable_queueing (dcfg V) \<and> pe_busy th then Some (False, s)
     else do {
       let s = set_node p (assigned th) s;
       let (curr_time, s) = tick s;
       avail \<leftarrow> finish_time curr_time t th;
       let s = set_worker idx (push_task p avail) s;
       s \<leftarrow> (if dc_cache_schedules (dcfg V) then cacheScheduleDecision t idx s else Some s);
       Some (True, s) } }"

type_synonym dag_policy = "dag_env \<Rightarrow> task_ptr list \<Rightarrow> drt \<Rightarrow> (nat \<times> task_ptr list \<times> drt) option"

definition cached_body :: "dag_env \<Rightarrow> task_ptr \<Rightarrow> drt \<Rightarrow> (bool \<times> drt) option" where
  "cached_body V p s = do {
     t \<leftarrow> node_at s p;
     key \<leftarrow> cache_key s t;
     case schedule_cache s key of
       Some val \<Rightarrow> attemptToAssignTaskToPE V p val s
     | None \<Rightarrow> Some (False, s) }"

definition scheduleCached :: dag_policy where
  "scheduleCached V q s = walk (cached_body V) (\<lambda>ok s. False) [] q 0 s"

section \<open>SIMPLE and RANDOM\<close>

definition release_count :: "dag_env \<Rightarrow> drt \<Rightarrow> drt" where
  "release_count V s =
     (if dc_enable_queueing (dcfg V) then s else s\<lparr>free_resource_count := free_resource_count s - 1\<rparr>)"

definition none_free :: "dag_env \<Rightarrow> drt \<Rightarrow> bool" where
  "none_free V s \<longleftrightarrow> \<not> dc_enable_queueing (dcfg V) \<and> free_resource_count s = 0"

text \<open>
  The round-robin search of SIMPLE for one task; \<^verbatim>\<open>task_allocated\<close> is uninitialised when there
  is no resource to try.
\<close>

definition simple_try :: "dag_env \<Rightarrow> task_ptr \<Rightarrow> drt \<Rightarrow> (bool \<times> drt) option" where
  "simple_try V p s = do {
     (task_allocated, s) \<leftarrow> attemptToAssignTaskToPE V p (uint (rand_resource s)) s;
     let s = s\<lparr>rand_resource := (rand_resource s + 1) mod getTotalResources (dcfg V)\<rparr>;
     Some (task_allocated, if task_allocated then release_count V s else s) }"

definition simple_body :: "dag_env \<Rightarrow> task_ptr \<Rightarrow> drt \<Rightarrow> (bool \<times> drt) option" where
  "simple_body V p s =
     (if total_resources V = 0 then if none_free V s then Some (False, s) else None
      else first_success (total_resources V) (simple_try V p) s)"

definition scheduleSimple :: dag_policy where
  "scheduleSimple V q s = walk (simple_body V) (\<lambda>ok s. none_free V s) [] q 0 s"

definition scheduleRandom :: dag_policy where
  "scheduleRandom V q s = scheduleSimple V (std_shuffle V (dc_random_seed (dcfg V)) q) s"

section \<open>MET\<close>

text \<open>The configured resource type with the least execution time, in the order of the enumeration.\<close>

definition met_resource :: "dag_config \<Rightarrow> dag_task \<Rightarrow> dag_resource \<times> int" where
  "met_resource c t = fold (\<lambda>r min_resource.
       if estimated_execution t ! dres_num r < snd min_resource \<and> 0 < dc_resource_array c ! dres_num r
       then (r, estimated_execution t ! dres_num r) else min_resource)
     (filter (\<lambda>r. r \<in> supported_resources t) all_dres) (Cpu, LLONG_MAX)"

definition met_try :: "dag_env \<Rightarrow> task_ptr \<Rightarrow> dag_resource \<Rightarrow> drt \<Rightarrow> (bool \<times> drt) option" where
  "met_try V p min_type s = do {
     th \<leftarrow> worker_at s (uint (met_resource_idx s));
     (task_allocated, s) \<leftarrow> (if min_type = thread_resource_type th
        then attemptToAssignTaskToPE V p (uint (met_resource_idx s)) s else Some (False, s));
     Some (task_allocated, s\<lparr>met_resource_idx := (met_resource_idx s + 1) mod getTotalResources (dcfg V)\<rparr>) }"

definition met_body :: "dag_env \<Rightarrow> task_ptr \<Rightarrow> drt \<Rightarrow> (bool \<times> drt) option" where
  "met_body V p s = do {
     t \<leftarrow> node_at s p;
     (task_allocated, s) \<leftarrow> first_success (total_resources V) (met_try V p (fst (met_resource (dcfg V) t))) s;
     Some (task_allocated, if task_allocated then release_count V s else s) }"

definition scheduleMET :: dag_policy where
  "scheduleMET V q s = walk (met_body V) (\<lambda>ok s. ok \<and> none_free V s) [] q 0 s"

section \<open>HEFT_RT\<close>

text \<open>
  The average execution time over the supported resource types, in unsigned arithmetic; it is
  a division by zero for a task that supports none. Sorting evaluates it on every task as soon
  as there are two.
\<close>

definition avg_execution :: "dag_task \<Rightarrow> int" where
  "avg_execution t =
     (\<Sum>r\<leftarrow>filter (\<lambda>r. r \<in> supported_resources t) all_dres. to_ull (estimated_execution t ! dres_num r)) mod 2 ^ 64
       div int (card (supported_resources t))"

definition heft_sort :: "dag_env \<Rightarrow> drt \<Rightarrow> task_ptr list \<Rightarrow> task_ptr list option" where
  "heft_sort V s q =
     (if length q < 2 then Some q
      else if \<exists>p\<in>set q. node_at s p = None \<or> supported_resources (the (node_at s p)) = {} then None
      else Some (std_sort V (\<lambda>p. avg_execution (the (node_at s p))) q))"

definition heft_resource :: "dag_env \<Rightarrow> int \<Rightarrow> dag_task \<Rightarrow> drt \<Rightarrow> (int \<times> int) option" where
  "heft_resource V curr_time t s = foreach [0..<total_resources V] (\<lambda>i selected_resource. do {
     th \<leftarrow> worker_at s (int i);
     if \<not> supports t th then Some selected_resource
     else do {
       eft \<leftarrow> finish_time curr_time t th;
       Some (if eft < snd selected_resource then (int i, eft) else selected_resource) } }) (- 1, LLONG_MAX)"

definition heft_body :: "dag_env \<Rightarrow> int \<Rightarrow> task_ptr \<Rightarrow> drt \<Rightarrow> (bool \<times> drt) option" where
  "heft_body V curr_time p s = do {
     t \<leftarrow> node_at s p;
     selected_resource \<leftarrow> heft_resource V curr_time t s;
     attemptToAssignTaskToPE V p (fst selected_resource) s }"

definition scheduleHEFT_RT :: dag_policy where
  "scheduleHEFT_RT V q s = do {
     q \<leftarrow> heft_sort V s q;
     let (curr_time, s) = tick s;
     walk (heft_body V curr_time) (\<lambda>ok s. False) [] q 0 s }"

section \<open>The learned policies\<close>

text \<open>
  \<^verbatim>\<open>task_allocated\<close> is declared outside the loop and keeps its value when the predicted index
  is no processing element. RT reduces the prediction modulo the number of elements first.
\<close>

definition predicted_body :: "dag_env \<Rightarrow> task_ptr \<Rightarrow> u32 \<Rightarrow> bool \<times> drt \<Rightarrow> (bool \<times> bool \<times> drt) option" where
  "predicted_body V p pe_idx = (\<lambda>(task_allocated, s). do {
     (task_allocated, s) \<leftarrow> (if pe_idx < getTotalResources (dcfg V)
        then attemptToAssignTaskToPE V p (sint pe_idx) s else Some (task_allocated, s));
     Some (task_allocated, task_allocated, s) })"

definition dnn_body :: "dag_env \<Rightarrow> task_ptr \<Rightarrow> bool \<times> drt \<Rightarrow> (bool \<times> bool \<times> drt) option" where
  "dnn_body V p = (\<lambda>(task_allocated, s). do {
     (pe_idx, s) \<leftarrow> getPrediction V p 0 s;
     predicted_body V p (word_of_int pe_idx) (task_allocated, s) })"

definition rt_body :: "dag_env \<Rightarrow> task_ptr \<Rightarrow> bool \<times> drt \<Rightarrow> (bool \<times> bool \<times> drt) option" where
  "rt_body V p = (\<lambda>(task_allocated, s). do {
     (pe_idx, s) \<leftarrow> getPrediction V p 1 s;
     if getTotalResources (dcfg V) = 0 then None
     else predicted_body V p (word_of_int pe_idx mod getTotalResources (dcfg V)) (task_allocated, s) })"

definition scheduleDNN :: dag_policy where
  "scheduleDNN V q s =
     map_option (\<lambda>(n, q, _, s). (n, q, s)) (walk (dnn_body V) (\<lambda>ok s. False) [] q 0 (False, s))"

definition scheduleRT :: dag_policy where
  "scheduleRT V q s =
     map_option (\<lambda>(n, q, _, s). (n, q, s)) (walk (rt_body V) (\<lambda>ok s. False) [] q 0 (False, s))"

section \<open>EFT\<close>

text \<open>
  The finish time here is the availability time plus the execution time, whatever the current
  time; it is converted to unsigned for the comparison. \<^verbatim>\<open>eft_resource\<close> is declared outside the
  task loop: a task that supports no worker is tried on the resource of the task before it.
\<close>

definition eft_search :: "dag_env \<Rightarrow> dag_task \<Rightarrow> drt \<Rightarrow> int \<Rightarrow> (int \<times> int) option" where
  "eft_search V t s eft_resource = foreach (rev [0..<total_resources V])
     (\<lambda>i (eft_resource, earliest_estimated_availtime). do {
       th \<leftarrow> worker_at s (int i);
       finishTime \<leftarrow> ll_add (thread_avail_time th) (exec_time t th);
       Some (if supports t th \<and> to_ull finishTime < earliest_estimated_availtime
             then (int i, to_ull finishTime) else (eft_resource, earliest_estimated_availtime)) })
     (eft_resource, ULLONG_MAX)"

definition eft_body :: "dag_env \<Rightarrow> task_ptr \<Rightarrow> int \<times> drt \<Rightarrow> (bool \<times> int \<times> drt) option" where
  "eft_body V p = (\<lambda>(eft_resource, s). do {
     t \<leftarrow> node_at s p;
     (eft_resource, _) \<leftarrow> eft_search V t s eft_resource;
     (task_allocated, s) \<leftarrow> attemptToAssignTaskToPE V p eft_resource s;
     Some (task_allocated, eft_resource, if task_allocated then release_count V s else s) })"

definition scheduleEFT :: dag_policy where
  "scheduleEFT V q s =
     map_option (\<lambda>(n, q, _, s). (n, q, s))
       (walk (eft_body V) (\<lambda>ok (_, s). ok \<and> none_free V s) [] q 0 (0, s\<lparr>rt_ticks := rt_ticks s + 1\<rparr>))"

section \<open>ETF\<close>

text \<open>
  One round looks at every task and every worker for the least finish time; \<^verbatim>\<open>minTask\<close>, a
  position in the queue, and \<^verbatim>\<open>etf_resource\<close> keep their values over rounds that find nothing.
\<close>

definition etf_search :: "dag_env \<Rightarrow> task_ptr list \<Rightarrow> drt \<Rightarrow> nat \<times> int \<Rightarrow> (nat \<times> int \<times> int) option" where
  "etf_search V q s = (\<lambda>(minTask, etf_resource).
     foreach (List.product [0..<length q] [0..<total_resources V])
       (\<lambda>(k, i) (minTask, etf_resource, earliest_estimated_availtime). do {
         th \<leftarrow> worker_at s (int i);
         t \<leftarrow> node_at s (q ! k);
         finishTime \<leftarrow> ll_add (thread_avail_time th) (exec_time t th);
         Some (if supports t th \<and> to_ull finishTime < earliest_estimated_availtime
               then (k, int i, to_ull finishTime)
               else (minTask, etf_resource, earliest_estimated_availtime)) })
       (minTask, etf_resource, ULLONG_MAX))"

primrec etf_rounds :: "dag_env \<Rightarrow> nat \<Rightarrow> nat \<Rightarrow> task_ptr list \<Rightarrow> nat \<times> int \<Rightarrow> drt \<Rightarrow> (nat \<times> task_ptr list \<times> drt) option" where
  "etf_rounds V 0 n q m s = Some (n, q, s)"
| "etf_rounds V (Suc r) n q m s = do {
     (minTask, etf_resource, _) \<leftarrow> etf_search V q s m;
     p \<leftarrow> rd q minTask;
     (task_allocated, s) \<leftarrow> attemptToAssignTaskToPE V p etf_resource s;
     if task_allocated then do {
       let q = take minTask q @ drop (Suc minTask) q;
       let s = release_count V s;
       if none_free V s then Some (n + 1, q, s)
       else etf_rounds V r (n + 1) q (minTask, etf_resource) s }
     else etf_rounds V r n q (minTask, etf_resource) s }"

definition scheduleETF :: dag_policy where
  "scheduleETF V q s = etf_rounds V (length q) 0 q (0, 0) s"

section \<open>The entry point\<close>

definition run_policy :: "string \<Rightarrow> dag_policy option" where
  "run_policy sched_policy =
     (if sched_policy = ''SIMPLE'' then Some scheduleSimple
      else if sched_policy = ''RANDOM'' then Some scheduleRandom
      else if sched_policy = ''MET'' then Some scheduleMET
      else if sched_policy = ''HEFT_RT'' then Some scheduleHEFT_RT
      else if sched_policy = ''DNN'' then Some scheduleDNN
      else if sched_policy = ''RT'' then Some scheduleRT
      else if sched_policy = ''EFT'' then Some scheduleEFT
      else if sched_policy = ''ETF'' then Some scheduleETF
      else None)"

definition performScheduling :: "dag_env \<Rightarrow> drt \<Rightarrow> dag_error + drt" where
  "performScheduling V s =
     (if ready_queue s = [] then Inr s
      else case (if dc_cache_schedules (dcfg V) then scheduleCached V (ready_queue s) s
                 else Some (0, ready_queue s, s)) of
        None \<Rightarrow> Inl Undefined
      | Some (tasks_scheduled, q, s) \<Rightarrow> (case run_policy (dc_scheduler (dcfg V)) of
          None \<Rightarrow> Inl (ProcExit 1)
        | Some policy \<Rightarrow> (case policy V q s of
            None \<Rightarrow> Inl Undefined
          | Some (n, q, s) \<Rightarrow> Inr (s\<lparr>ready_queue := q\<rparr>))))"

end
