(* ===== verification/Dag_Workers.thy ===== *)
theory Dag_Workers
  imports Dag_Scheduler
begin

text \<open>
  The worker threads of the task-graph runtime, \<^verbatim>\<open>src/src-dag/threads.cpp\<close>: what
  \<^verbatim>\<open>initializeThreads\<close> sets up, and the loop of \<^verbatim>\<open>hardware_thread\<close> as a state machine.

  The loop is cut where the thread takes and releases its lock and between its accesses to
  what the threads share: \<open>dag_pop\<close> under the lock, \<open>dag_label\<close>, which writes the task's number
  into a variable of the application's library, \<open>dag_run\<close>, which calls the task's function,
  and \<open>dag_finish\<close> under the lock again; \<open>dag_idle\<close> is the empty-queue branch. A call is
  recorded with its address, its arguments and the number it finds in the library. Affinity,
  priorities, performance counters and messages are left out; creating a thread succeeds.
\<close>

abbreviation (input) MAX_ARGS :: nat where "MAX_ARGS \<equiv> 79"

section \<open>Spawning\<close>

definition init_worker :: "dag_resource \<Rightarrow> string \<Rightarrow> nat \<Rightarrow> dag_hw \<Rightarrow> dag_hw" where
  "init_worker r name i h = h\<lparr>dwt := (dwt h)\<lparr>
       resource_state := 0,
       resource_name := name @ '' '' @ to_string (i + 1),
       thread_resource_type := r,
       resource_cluster_idx := of_nat i,
       thread_avail_time := 0\<rparr>,
     dpc := DTop,
     last_avail := 0\<rparr>"

definition init_cluster :: "dag_resource \<Rightarrow> string \<Rightarrow> u32 \<Rightarrow> u32 \<Rightarrow> dag_hw list \<Rightarrow> dag_hw list option" where
  "init_cluster r name offset resource_count hs = foreach [0..<unat resource_count] (\<lambda>i hs. do {
     let i_offset = unat (offset + of_nat i);
     h \<leftarrow> rd hs i_offset;
     wr hs i_offset (init_worker r name i h) }) hs"

definition initializeCPUs :: "dag_config \<Rightarrow> dag_hw list \<Rightarrow> dag_hw list option" where
  "initializeCPUs c = init_cluster Cpu ''Core'' 0 (dc_resource_array c ! dres_num Cpu)"

definition initializeFFTs :: "dag_config \<Rightarrow> dag_hw list \<Rightarrow> dag_hw list option" where
  "initializeFFTs c = init_cluster Fft ''FFT'' (dc_resource_array c ! dres_num Cpu) (dc_resource_array c ! dres_num Fft)"

definition initializeMMULTs :: "dag_config \<Rightarrow> dag_hw list \<Rightarrow> dag_hw list option" where
  "initializeMMULTs c = init_cluster Mmult ''MMULT''
     (dc_resource_array c ! dres_num Cpu + dc_resource_array c ! dres_num Fft) (dc_resource_array c ! dres_num Mmult)"

definition initializeGPUs :: "dag_config \<Rightarrow> dag_hw list \<Rightarrow> dag_hw list option" where
  "initializeGPUs c = init_cluster Gpu ''GPU''
     (dc_resource_array c ! dres_num Cpu + dc_resource_array c ! dres_num Fft + dc_resource_array c ! dres_num Mmult)
     (dc_resource_array c ! dres_num Gpu)"

definition initializeThreads :: "dag_config \<Rightarrow> dag_hw list \<Rightarrow> dag_hw list option" where
  "initializeThreads c hs = do {
     hs \<leftarrow> initializeCPUs c hs;
     hs \<leftarrow> initializeFFTs c hs;
     hs \<leftarrow> initializeMMULTs c hs;
     initializeGPUs c hs }"

section \<open>The loop of a worker\<close>

definition stamp :: "int \<Rightarrow> timespec" where
  "stamp t = \<lparr>tv_sec = t div SEC2NANOSEC, tv_nsec = t mod SEC2NANOSEC\<rparr>"

definition set_hw :: "nat \<Rightarrow> dag_hw \<Rightarrow> drt \<Rightarrow> drt" where
  "set_hw i h s = s\<lparr>dpes := (dpes s)[i := h]\<rparr>"

definition dag_pop :: "nat \<Rightarrow> drt \<Rightarrow> dag_error + drt" where
  "dag_pop i s = (case todo_task_dequeue (dwt (dpes s ! i)) of
     [] \<Rightarrow> Inl Undefined
   | task # rest \<Rightarrow> bindR (the_node s task) (\<lambda>t.
       let h = dpes s ! i
       in Inr (set_hw i (h\<lparr>dwt := (dwt h)\<lparr>todo_task_dequeue := rest, resource_state := 1\<rparr>,
                          dpc := DLoaded task (actual_run_func t)\<rparr>) s)))"

text \<open>The variables of the library that tell the task its number and its accelerator.\<close>

definition write_global :: "addr option \<Rightarrow> u32 \<Rightarrow> drt \<Rightarrow> drt" where
  "write_global symbol v s = (case symbol of None \<Rightarrow> s | Some a \<Rightarrow> s\<lparr>lib_globals := (lib_globals s)(a := v)\<rparr>)"

definition dag_label :: "dag_env \<Rightarrow> nat \<Rightarrow> drt \<Rightarrow> dag_error + drt" where
  "dag_label V i s = (case dpc (dpes s ! i) of
     DLoaded p f \<Rightarrow>
       bindR (the_node s p) (\<lambda>t.
       bindR (the_app s (app_pnt t)) (\<lambda>app.
         let h = dpes s ! i;
             s = write_global (dlsym V (dlhandle app) ''__CEDR_TASK_ID__'') (word_of_int (task_id t)) s;
             s = (if thread_resource_type (dwt h) \<noteq> Cpu
                  then write_global (dlsym V (dlhandle app) ''__CEDR_CLUSTER_IDX__'') (resource_cluster_idx (dwt h)) s
                  else s)
         in Inr (set_hw i (h\<lparr>dpc := DLabelled p f\<rparr>) s)))
   | _ \<Rightarrow> Inl Undefined)"

text \<open>Arguments behind the declared ones are the null pointer of \<^verbatim>\<open>dummy_var\<close>.\<close>

definition run_arguments :: "variable list \<Rightarrow> addr list" where
  "run_arguments as = map (\<lambda>idx. if idx < length as then heap_ptr (as ! idx) else 0) [0..<MAX_ARGS]"

definition seen_task_id :: "dag_env \<Rightarrow> dag_app \<Rightarrow> drt \<Rightarrow> u32" where
  "seen_task_id V app s = (case dlsym V (dlhandle app) ''__CEDR_TASK_ID__'' of None \<Rightarrow> 0 | Some a \<Rightarrow> lib_globals s a)"

definition dag_run :: "dag_env \<Rightarrow> nat \<Rightarrow> drt \<Rightarrow> dag_error + drt" where
  "dag_run V i s = (case dpc (dpes s ! i) of
     DLabelled p f \<Rightarrow>
       bindR (the_node s p) (\<lambda>t.
       bindR (the_app s (app_pnt t)) (\<lambda>app.
         let h = dpes s ! i
         in if MAX_ARGS < length (args t) then Inr (set_hw i (h\<lparr>dpc := DExecuted p\<rparr>) s)
            else if f = 0 then Inl Undefined
            else
              let (t1, s) = tick s;
                  last_busy = word_of_int t1;
                  idle = (if last_avail h \<noteq> 0 then last_busy - last_avail h else 0);
                  s = s\<lparr>calls := calls s @ [(f, run_arguments (args t), seen_task_id V app s)]\<rparr>;
                  (t2, s) = tick s;
                  s = set_node p (\<lambda>t. t\<lparr>start_ts := stamp t1, prev_idle_time := idle, end_ts := stamp t2\<rparr>) s
              in Inr (set_hw i (h\<lparr>dpc := DExecuted p, last_avail := word_of_int t2\<rparr>) s)))
   | _ \<Rightarrow> Inl Undefined)"

definition dag_finish :: "nat \<Rightarrow> drt \<Rightarrow> dag_error + drt" where
  "dag_finish i s = (case dpc (dpes s ! i) of
     DExecuted p \<Rightarrow>
       let h = dpes s ! i
       in Inr (set_hw i (h\<lparr>dwt := (dwt h)\<lparr>completed_task_dequeue := completed_task_dequeue (dwt h) @ [p],
            resource_state := 0\<rparr>, dpc := DTop\<rparr>) s)
   | _ \<Rightarrow> Inl Undefined)"

definition dag_idle :: "nat \<Rightarrow> drt \<Rightarrow> drt" where
  "dag_idle i s =
     (let h = dpes s ! i
      in if resource_state (dwt h) = 3 then set_hw i (h\<lparr>dpc := DTerminated\<rparr>) s
         else set_hw i (h\<lparr>last_avail := 0\<rparr>) s)"

text \<open>One step of worker \<open>i\<close>; \<open>None\<close> when the thread has ended.\<close>

definition dag_worker_step :: "dag_env \<Rightarrow> nat \<Rightarrow> drt \<Rightarrow> (dag_error + drt) option" where
  "dag_worker_step V i s = (case dpc (dpes s ! i) of
     DTop \<Rightarrow> Some (if todo_task_dequeue (dwt (dpes s ! i)) \<noteq> [] then dag_pop i s else Inr (dag_idle i s))
   | DLoaded p f \<Rightarrow> Some (dag_label V i s)
   | DLabelled p f \<Rightarrow> Some (dag_run V i s)
   | DExecuted p \<Rightarrow> Some (dag_finish i s)
   | DTerminated \<Rightarrow> None)"

end
