(* ===== verification/Dag_Refine.thy ===== *)
theory Dag_Refine
  imports Dag_Scheduler
begin

text \<open>
  What a scheduling round of the task-graph runtime does, abstractly: \<open>hand_out\<close> takes one task
  out of the ready queue, marks its node and appends it to the queue of a worker that supports
  it, and otherwise only touches the policies' own statics (\<open>core\<close> hides them). The locale
  \<open>dag_dispatcher\<close> is the contract of a policy, and every policy but DNN is an instance.
\<close>

section \<open>The abstract machine\<close>

definition core :: "drt \<Rightarrow> drt" where
  "core s = s\<lparr>schedule_cache := Map.empty, rand_resource := 0, met_resource_idx := 0, free_resource_count := 0,
     nn_inputs := [], rt_ticks := 0\<rparr>"

definition accepts :: "dag_env \<Rightarrow> dag_task \<Rightarrow> dag_worker \<Rightarrow> bool" where
  "accepts V t th \<longleftrightarrow> supports t th \<and> (dc_enable_queueing (dcfg V) \<or> \<not> pe_busy th)"

inductive hand_out :: "dag_env \<Rightarrow> task_ptr multiset \<times> drt \<Rightarrow> task_ptr multiset \<times> drt \<Rightarrow> bool" for V where
  give: "p \<in># M \<Longrightarrow> node_at s p = Some t \<Longrightarrow> worker_at s i = Some th \<Longrightarrow> accepts V t th \<Longrightarrow>
    core s' = core (set_worker i (push_task p a) (set_node p (assigned th) s)) \<Longrightarrow>
    hand_out V (M, s) (M - {#p#}, s')"
| skip: "core s' = core s \<Longrightarrow> hand_out V (M, s) (M, s')"

abbreviation hand_outs :: "dag_env \<Rightarrow> task_ptr multiset \<times> drt \<Rightarrow> task_ptr multiset \<times> drt \<Rightarrow> bool" where
  "hand_outs V \<equiv> (hand_out V)\<^sup>*\<^sup>*"

text \<open>What the standard library promises of the environment.\<close>

definition dag_env_ok :: "dag_env \<Rightarrow> bool" where
  "dag_env_ok V \<longleftrightarrow>
     (\<forall>key q. mset (std_sort V key q) = mset q \<and> sorted_wrt (\<lambda>a b. key b \<le> key a) (std_sort V key q)) \<and>
     (\<forall>seed q. mset (std_shuffle V seed q) = mset q) \<and>
     (\<forall>f q. q \<noteq> [] \<longrightarrow> pq_top V f q \<in> set q \<and> (\<forall>a \<in> set q. f (pq_top V f q) \<le> f a))"

lemma core_statics [simp]:
  "core (s\<lparr>schedule_cache := a\<rparr>) = core s" "core (s\<lparr>rand_resource := b\<rparr>) = core s"
  "core (s\<lparr>met_resource_idx := b\<rparr>) = core s" "core (s\<lparr>free_resource_count := b\<rparr>) = core s"
  "core (s\<lparr>nn_inputs := l\<rparr>) = core s" "core (s\<lparr>rt_ticks := n\<rparr>) = core s"
  by (simp_all add: core_def)

lemma core_set_worker: "core (set_worker i f s) = set_worker i f (core s)"
  by (simp add: core_def set_worker_def)

lemma core_set_node: "core (set_node p f s) = set_node p f (core s)"
  by (simp add: core_def set_node_def set_app_def split: option.splits)

lemma core_sel:
  "dapps (core s) = dapps s" "dpes (core s) = dpes s" "ready_queue (core s) = ready_queue s"
  "completed_apps (core s) = completed_apps s" "unarrived_apps (core s) = unarrived_apps s"
  "arrived_streaming (core s) = arrived_streaming s" "arrived_nonstreaming (core s) = arrived_nonstreaming s"
  "blocks (core s) = blocks s" "next_addr (core s) = next_addr s" "applicationMap (core s) = applicationMap s"
  "sharedObjectMap (core s) = sharedObjectMap s" "appNum (core s) = appNum s" "calls (core s) = calls s"
  "stream_timing_log (core s) = stream_timing_log s"
  by (simp_all add: core_def)

lemma core_eqD:
  assumes "core s' = core s"
  shows "dapps s' = dapps s" "dpes s' = dpes s" "ready_queue s' = ready_queue s" "completed_apps s' = completed_apps s"
    "unarrived_apps s' = unarrived_apps s" "arrived_streaming s' = arrived_streaming s"
    "arrived_nonstreaming s' = arrived_nonstreaming s" "blocks s' = blocks s" "next_addr s' = next_addr s"
    "applicationMap s' = applicationMap s" "sharedObjectMap s' = sharedObjectMap s" "appNum s' = appNum s"
    "calls s' = calls s" "stream_timing_log s' = stream_timing_log s"
  using assms by (metis core_sel)+

lemma skips: "core s' = core s \<Longrightarrow> hand_outs V (M, s) (M, s')"
  by (rule r_into_rtranclp) (rule skip)

lemma hand_outs_skip: "hand_outs V x (M, s) \<Longrightarrow> core s' = core s \<Longrightarrow> hand_outs V x (M, s')"
  by (rule rtranclp_trans[OF _ skips])

section \<open>One assignment\<close>

declare split_paired_All [simp del] split_paired_Ex [simp del]

lemma attempt_refused: "attemptToAssignTaskToPE V p idx s = Some (False, s') \<Longrightarrow> s' = s"
  by (auto simp: attemptToAssignTaskToPE_def Let_def tick_def split: if_splits Option.bind_splits)

lemma attempt_given:
  assumes "attemptToAssignTaskToPE V p idx s = Some (True, s')" and "p \<in># M"
  shows "hand_out V (M, s) (M - {#p#}, s')"
proof -
  from assms(1) obtain t th where t: "node_at s p = Some t" and th: "worker_at s idx = Some th"
    by (auto simp: attemptToAssignTaskToPE_def split: Option.bind_splits)
  with assms(1) have acc: "accepts V t th"
    by (auto simp: attemptToAssignTaskToPE_def accepts_def split: if_splits)
  from assms(1) t th acc obtain a where
    "core s' = core (set_worker idx (push_task p a) (set_node p (assigned th) s))"
    by (auto simp: attemptToAssignTaskToPE_def accepts_def Let_def tick_def cacheScheduleDecision_def
        core_set_worker core_set_node split: if_splits Option.bind_splits)
  with assms(2) t th acc show ?thesis by (rule give)
qed

lemma attempt_hand_out:
  assumes "attemptToAssignTaskToPE V p idx s = Some (ok, s')" and "p \<in># M"
  shows "hand_outs V (M, s) (if ok then M - {#p#} else M, s')"
proof (cases ok)
  case True
  with assms(1) have "attemptToAssignTaskToPE V p idx s = Some (True, s')" by simp
  from attempt_given[OF this assms(2)] have "hand_outs V (M, s) (M - {#p#}, s')" ..
  with True show ?thesis by simp
next
  case False
  with attempt_refused assms(1) have "s' = s" by simp
  with False show ?thesis by simp
qed

text \<open>A body over any loop state whose runtime part is \<open>pr\<close> of it.\<close>

definition hands_out :: "dag_env \<Rightarrow> ('x \<Rightarrow> drt) \<Rightarrow> (task_ptr \<Rightarrow> 'x \<Rightarrow> (bool \<times> 'x) option) \<Rightarrow> bool" where
  "hands_out V pr f \<longleftrightarrow> (\<forall>p M x ok x'. p \<in># M \<longrightarrow> f p x = Some (ok, x') \<longrightarrow>
     hand_outs V (M, pr x) (if ok then M - {#p#} else M, pr x'))"

lemma hands_outI:
  "(\<And>p M x ok x'. p \<in># M \<Longrightarrow> f p x = Some (ok, x') \<Longrightarrow> hand_outs V (M, pr x) (if ok then M - {#p#} else M, pr x')) \<Longrightarrow>
   hands_out V pr f"
  unfolding hands_out_def by blast

lemma hands_outD:
  "hands_out V pr f \<Longrightarrow> f p x = Some (ok, x') \<Longrightarrow> p \<in># M \<Longrightarrow>
   hand_outs V (M, pr x) (if ok then M - {#p#} else M, pr x')"
  unfolding hands_out_def by blast

lemma walk_hand_outs:
  assumes "walk f stop [] q n x = Some (n', q', x')" and "hands_out V pr f"
  shows "hand_outs V (mset q, pr x) (mset q', pr x')"
  using walk_rel[OF assms(1), where R = "\<lambda>a b. hand_outs V (fst a, pr (snd a)) (fst b, pr (snd b))"]
    hands_outD[OF assms(2)] by auto

lemma hands_out_search:
  assumes "hands_out V pr f"
  shows "hands_out V pr (\<lambda>p. first_success n (f p))"
proof (rule hands_outI)
  fix p M x ok x'
  assume p: "p \<in># M" and run: "first_success n (f p) x = Some (ok, x')"
  have step: "hand_outs V (M, pr x) (M, pr y) \<Longrightarrow> f p y = Some (b, y') \<Longrightarrow>
      hand_outs V (M, pr x) (if b then M - {#p#} else M, pr y')" for y b y'
    by (rule rtranclp_trans[OF _ hands_outD[OF assms _ p]])
  have "if ok then hand_outs V (M, pr x) (M - {#p#}, pr x') else hand_outs V (M, pr x) (M, pr x')"
  proof (rule first_success_inv[OF run, where I = "\<lambda>y. hand_outs V (M, pr x) (M, pr y)"
        and J = "\<lambda>y. hand_outs V (M, pr x) (M - {#p#}, pr y)"])
    show "hand_outs V (M, pr x) (M, pr y')" if "hand_outs V (M, pr x) (M, pr y)" "f p y = Some (False, y')" for y y'
      using step[OF that] by simp
    show "hand_outs V (M, pr x) (M - {#p#}, pr y')" if "hand_outs V (M, pr x) (M, pr y)" "f p y = Some (True, y')" for y y'
      using step[OF that] by simp
  qed simp
  then show "hand_outs V (M, pr x) (if ok then M - {#p#} else M, pr x')" by (cases ok) simp_all
qed

lemma hands_out_attempt: "hands_out V id (\<lambda>p. attemptToAssignTaskToPE V p idx)"
  by (rule hands_outI) (simp add: attempt_hand_out)

section \<open>The contract of a policy\<close>

text \<open>The tasks in the queues of the workers.\<close>

definition queued :: "drt \<Rightarrow> task_ptr multiset" where
  "queued s = (\<Sum>h\<leftarrow>dpes s. mset (todo_task_dequeue (dwt h)))"

lemma queued_core: "core s' = core s \<Longrightarrow> queued s' = queued s"
  by (simp add: queued_def core_eqD(2)[of s' s])

lemma dpes_set_node [simp]: "dpes (set_node p f s) = dpes s"
  by (simp add: set_node_def set_app_def split: option.splits)

lemma queued_push:
  assumes "worker_at s i = Some th"
  shows "queued (set_worker i (push_task p a) s) = add_mset p (queued s)"
proof -
  from assms have i: "nat i < length (dpes s)" by (auto simp: worker_at_def rd_def split: if_splits)
  define h where "h = dpes s ! nat i"
  from i have eq: "dpes s = take (nat i) (dpes s) @ h # drop (Suc (nat i)) (dpes s)"
    by (simp add: h_def id_take_nth_drop)
  have upd: "(dpes s)[nat i := x] = take (nat i) (dpes s) @ x # drop (Suc (nat i)) (dpes s)" for x
    using i by (simp add: upd_conv_take_nth_drop)
  show ?thesis
    by (simp add: queued_def set_worker_def push_task_def h_def[symmetric] upd) (subst eq, simp)
qed

lemma hand_out_queued: "hand_out V x x' \<Longrightarrow> fst x' + queued (snd x') = fst x + queued (snd x)"
proof (induction rule: hand_out.induct)
  case (give p M s t i th s' a)
  have "worker_at (set_node p (assigned th) s) i = Some th"
    using give(3) by (simp add: worker_at_def split: if_splits)
  with give(5) have "queued s' = add_mset p (queued (set_node p (assigned th) s))"
    using queued_core[OF give(5)] queued_push by simp
  then show ?case using give(1) by (simp add: queued_def)
next
  case (skip s' s M)
  then show ?case using queued_core[OF skip] by simp
qed

lemma hand_outs_queued: "hand_outs V x x' \<Longrightarrow> fst x' + queued (snd x') = fst x + queued (snd x)"
  by (induction rule: rtranclp_induct) (simp_all add: hand_out_queued)

text \<open>What no assignment touches.\<close>

definition rest_of :: "drt \<Rightarrow> drt" where
  "rest_of s = (core s)\<lparr>dapps := Map.empty, dpes := []\<rparr>"

lemma hand_out_rest: "hand_out V x x' \<Longrightarrow> rest_of (snd x') = rest_of (snd x)"
proof (induction rule: hand_out.induct)
  case (give p M s t i th s' a)
  then show ?case
    by (simp add: rest_of_def) (simp add: core_def set_worker_def set_node_def set_app_def split: option.splits)
next
  case (skip s' s M)
  then show ?case by (simp add: rest_of_def)
qed

lemma hand_outs_rest: "hand_outs V x x' \<Longrightarrow> rest_of (snd x') = rest_of (snd x)"
  by (induction rule: rtranclp_induct) (simp_all add: hand_out_rest)

locale dag_dispatcher =
  fixes pol :: dag_policy
  assumes refines: "dag_env_ok V \<Longrightarrow> pol V q s = Some (n, q', s') \<Longrightarrow> hand_outs V (mset q, s) (mset q', s')"
begin

lemma conserves: "dag_env_ok V \<Longrightarrow> pol V q s = Some (n, q', s') \<Longrightarrow> mset q' + queued s' = mset q + queued s"
  using hand_outs_queued[OF refines] by simp

lemma frame: "dag_env_ok V \<Longrightarrow> pol V q s = Some (n, q', s') \<Longrightarrow> rest_of s' = rest_of s"
  using hand_outs_rest[OF refines] by simp

end

section \<open>The policies\<close>

lemma release_core [simp]: "core (release_count V s) = core s"
  by (simp add: release_count_def)

lemma core_ticks: "tick s = (t, s') \<Longrightarrow> core s' = core s"
  by (auto simp: tick_def)

lemma hands_out_cached: "hands_out V id (cached_body V)"
proof (rule hands_outI)
  fix p M s ok s'
  assume p: "p \<in># M" and run: "cached_body V p s = Some (ok, s')"
  then obtain t key where key: "node_at s p = Some t" "cache_key s t = Some key"
    by (auto simp: cached_body_def split: Option.bind_splits)
  consider "\<not> ok" "s' = s" | val where "attemptToAssignTaskToPE V p val s = Some (ok, s')"
  proof (cases "schedule_cache s key")
    case None
    with run key that(1) show ?thesis by (simp add: cached_body_def)
  next
    case (Some val)
    with run key that(2)[of val] show ?thesis by (simp add: cached_body_def)
  qed
  then show "hand_outs V (M, id s) (if ok then M - {#p#} else M, id s')"
  proof cases
    case 1
    then show ?thesis by simp
  next
    case 2
    from attempt_hand_out[OF this p] show ?thesis by simp
  qed
qed

interpretation cached: dag_dispatcher scheduleCached
  by unfold_locales (unfold scheduleCached_def, drule walk_hand_outs[OF _ hands_out_cached], simp)

lemma hands_out_simple_try: "hands_out V id (simple_try V)"
proof (rule hands_outI)
  fix p M s ok s'
  assume p: "p \<in># M" and run: "simple_try V p s = Some (ok, s')"
  then obtain s1 where att: "attemptToAssignTaskToPE V p (uint (rand_resource s)) s = Some (ok, s1)" and "core s' = core s1"
    by (auto simp: simple_try_def Let_def split: Option.bind_splits)
  from hand_outs_skip[OF attempt_hand_out[OF att p] this(2)]
  show "hand_outs V (M, id s) (if ok then M - {#p#} else M, id s')" by simp
qed

lemma hands_out_simple: "hands_out V id (simple_body V)"
proof (rule hands_outI)
  fix p M s ok s'
  assume p: "p \<in># M" and "simple_body V p s = Some (ok, s')"
  then consider "\<not> ok" "s' = s" | "first_success (total_resources V) (simple_try V p) s = Some (ok, s')"
    by (auto simp: simple_body_def split: if_splits)
  then show "hand_outs V (M, id s) (if ok then M - {#p#} else M, id s')"
  proof cases
    case 1
    then show ?thesis by simp
  next
    case 2
    from hands_outD[OF hands_out_search[OF hands_out_simple_try] this p] show ?thesis by simp
  qed
qed

interpretation simple: dag_dispatcher scheduleSimple
  by unfold_locales (unfold scheduleSimple_def, drule walk_hand_outs[OF _ hands_out_simple], simp)

interpretation random: dag_dispatcher scheduleRandom
proof unfold_locales
  fix V q s n q' s'
  assume V: "dag_env_ok V" and "scheduleRandom V q s = Some (n, q', s')"
  then have "hand_outs V (mset (std_shuffle V (dc_random_seed (dcfg V)) q), s) (mset q', s')"
    by (intro simple.refines[OF V]) (simp add: scheduleRandom_def)
  then show "hand_outs V (mset q, s) (mset q', s')" using V by (simp add: dag_env_ok_def)
qed

lemma hands_out_met_try: "hands_out V id (\<lambda>p. met_try V p ty)"
proof (rule hands_outI)
  fix p M s ok s'
  assume p: "p \<in># M" and run: "met_try V p ty s = Some (ok, s')"
  from run obtain th where th: "worker_at s (uint (met_resource_idx s)) = Some th"
    by (auto simp: met_try_def split: Option.bind_splits)
  define att1 where "att1 = (if ty = thread_resource_type th
      then attemptToAssignTaskToPE V p (uint (met_resource_idx s)) s else Some (False, s))"
  from run th obtain s1 where "att1 = Some (ok, s1)" and core: "core s' = core s1"
    by (auto simp: met_try_def att1_def[symmetric] split: Option.bind_splits)
  note att = this(1)[unfolded att1_def]
  have "hand_outs V (M, s) (if ok then M - {#p#} else M, s1)"
  proof (cases "ty = thread_resource_type th")
    case True
    with att attempt_hand_out[OF _ p, of V "uint (met_resource_idx s)" s ok s1] show ?thesis by simp
  next
    case False
    with att show ?thesis by simp
  qed
  from hand_outs_skip[OF this core] show "hand_outs V (M, id s) (if ok then M - {#p#} else M, id s')" by simp
qed

lemma hands_out_met: "hands_out V id (met_body V)"
proof (rule hands_outI)
  fix p M s ok s'
  assume p: "p \<in># M" and "met_body V p s = Some (ok, s')"
  then obtain t s1 where run: "first_success (total_resources V) (met_try V p (fst (met_resource (dcfg V) t))) s = Some (ok, s1)"
    and core: "core s' = core s1"
    by (auto simp: met_body_def split: Option.bind_splits)
  from hand_outs_skip[OF hands_outD[OF hands_out_search[OF hands_out_met_try] run p, unfolded id_apply] core]
  show "hand_outs V (M, id s) (if ok then M - {#p#} else M, id s')" by simp
qed

interpretation met: dag_dispatcher scheduleMET
  by unfold_locales (unfold scheduleMET_def, drule walk_hand_outs[OF _ hands_out_met], simp)

lemma hands_out_heft: "hands_out V id (heft_body V now)"
proof (rule hands_outI)
  fix p M s ok s'
  assume p: "p \<in># M" and "heft_body V now p s = Some (ok, s')"
  then obtain r where "attemptToAssignTaskToPE V p r s = Some (ok, s')"
    by (auto simp: heft_body_def split: Option.bind_splits)
  from attempt_hand_out[OF this p] show "hand_outs V (M, id s) (if ok then M - {#p#} else M, id s')" by simp
qed

interpretation heft_rt: dag_dispatcher scheduleHEFT_RT
proof unfold_locales
  fix V q s n q' s'
  assume V: "dag_env_ok V" and "scheduleHEFT_RT V q s = Some (n, q', s')"
  then obtain q0 where q0: "heft_sort V s q = Some q0"
    and run: "walk (heft_body V (fst (tick s))) (\<lambda>ok s. False) [] q0 0 (snd (tick s)) = Some (n, q', s')"
    by (auto simp: scheduleHEFT_RT_def split_beta split: Option.bind_splits)
  from q0 V have "mset q0 = mset q" by (auto simp: heft_sort_def dag_env_ok_def split: if_splits)
  moreover have "core (snd (tick s)) = core s" by (simp add: tick_def)
  ultimately show "hand_outs V (mset q, s) (mset q', s')"
    using rtranclp_trans[OF skips walk_hand_outs[OF run hands_out_heft]] by simp
qed

text \<open>RT always has an index in range, so its flag is always fresh.\<close>

lemma core_getPrediction:
  assumes "getPrediction V p m s = Some (i, s')"
  shows "core s' = core s"
  using assms by (auto simp: getPrediction_def tick_def Let_def split: Option.bind_splits)

lemma hands_out_rt: "hands_out V snd (rt_body V)"
proof (rule hands_outI)
  fix p M x ok x'
  assume p: "p \<in># M" and run: "rt_body V p x = Some (ok, x')"
  obtain b s where x: "x = (b, s)" by (cases x)
  from run x obtain i s1 where pred: "getPrediction V p 1 s = Some (i, s1)" and total: "getTotalResources (dcfg V) \<noteq> 0"
    and body: "predicted_body V p (word_of_int i mod getTotalResources (dcfg V)) (b, s1) = Some (ok, x')"
    by (auto simp: rt_body_def split: Option.bind_splits if_splits)
  have "word_of_int i mod getTotalResources (dcfg V) < getTotalResources (dcfg V)"
    using total by (simp add: word_mod_less_divisor word_gt_0)
  with body obtain idx where "attemptToAssignTaskToPE V p idx s1 = Some (ok, snd x')"
    by (auto simp: predicted_body_def split: Option.bind_splits)
  from rtranclp_trans[OF skips[OF core_getPrediction[OF pred]] attempt_hand_out[OF this p]]
  show "hand_outs V (M, snd x) (if ok then M - {#p#} else M, snd x')" by (simp add: x)
qed

interpretation rt_tree: dag_dispatcher scheduleRT
proof unfold_locales
  fix V q s n q' s'
  assume "scheduleRT V q s = Some (n, q', s')"
  then obtain b where "walk (rt_body V) (\<lambda>ok s. False) [] q 0 (False, s) = Some (n, q', b, s')"
    by (auto simp: scheduleRT_def)
  from walk_hand_outs[OF this hands_out_rt] show "hand_outs V (mset q, s) (mset q', s')" by simp
qed

lemma hands_out_eft: "hands_out V snd (eft_body V)"
proof (rule hands_outI)
  fix p M x ok x'
  assume p: "p \<in># M" and run: "eft_body V p x = Some (ok, x')"
  obtain r s where x: "x = (r, s)" by (cases x)
  from run x obtain i s1 where att: "attemptToAssignTaskToPE V p i s = Some (ok, s1)" and core: "core (snd x') = core s1"
    by (auto simp: eft_body_def split: Option.bind_splits)
  from hand_outs_skip[OF attempt_hand_out[OF att p] core]
  show "hand_outs V (M, snd x) (if ok then M - {#p#} else M, snd x')" by (simp add: x)
qed

interpretation eft: dag_dispatcher scheduleEFT
proof unfold_locales
  fix V q s n q' s'
  assume "scheduleEFT V q s = Some (n, q', s')"
  then obtain r where "walk (eft_body V) (\<lambda>ok (_, s). ok \<and> none_free V s) [] q 0 (0, s\<lparr>rt_ticks := rt_ticks s + 1\<rparr>) = Some (n, q', r, s')"
    by (auto simp: scheduleEFT_def)
  from rtranclp_trans[OF skips walk_hand_outs[OF this hands_out_eft]] show "hand_outs V (mset q, s) (mset q', s')" by simp
qed

lemma etf_hand_outs:
  assumes "etf_rounds V r n q m s = Some (n', q', s')"
  shows "hand_outs V (mset q, s) (mset q', s')"
  using assms
proof (induction r arbitrary: n q m s)
  case 0
  then show ?case by simp
next
  case (Suc r)
  from Suc.prems obtain k e x where search: "etf_search V q s m = Some (k, e, x)"
    by (auto split: Option.bind_splits)
  from Suc.prems search obtain p where p: "rd q k = Some p" by (auto split: Option.bind_splits)
  from Suc.prems search p obtain ok s1 where att: "attemptToAssignTaskToPE V p e s = Some (ok, s1)"
    by (auto split: Option.bind_splits)
  from p have k: "k < length q" "p = q ! k" by (auto simp: rd_def split: if_splits)
  then have mem: "p \<in># mset q" by simp
  note step = attempt_hand_out[OF att mem]
  show ?case
  proof (cases ok)
    case True
    let ?q = "take k q @ drop (Suc k) q"
    have ms: "mset ?q = mset q - {#p#}"
      using k by (subst (3) id_take_nth_drop[OF k(1)]) (simp add: add_mset_commute)
    have "hand_outs V (mset ?q, release_count V s1) (mset q', s')"
      using Suc.prems search p att True Suc.IH[of "n + 1" ?q "(k, e)" "release_count V s1"]
      by (auto simp: Let_def split: if_splits)
    with hand_outs_skip[OF step, of "release_count V s1"] True ms show ?thesis by (auto elim: rtranclp_trans)
  next
    case False
    have "hand_outs V (mset q, s1) (mset q', s')"
      using Suc.prems search p att False Suc.IH[of n q "(k, e)" s1] by simp
    with step False show ?thesis by (auto elim: rtranclp_trans)
  qed
qed

interpretation etf: dag_dispatcher scheduleETF
  by unfold_locales (unfold scheduleETF_def, drule etf_hand_outs, simp)

section \<open>A scheduling round\<close>

lemma run_policy_dispatcher:
  "run_policy name = Some policy \<Longrightarrow> name \<noteq> ''DNN'' \<Longrightarrow> dag_dispatcher policy"
  using simple.dag_dispatcher_axioms random.dag_dispatcher_axioms met.dag_dispatcher_axioms heft_rt.dag_dispatcher_axioms
    rt_tree.dag_dispatcher_axioms eft.dag_dispatcher_axioms etf.dag_dispatcher_axioms
  by (auto simp: run_policy_def split: if_splits)

lemma performScheduling_hand_outs:
  assumes V: "dag_env_ok V" and policy: "dc_scheduler (dcfg V) \<noteq> ''DNN''" and run: "performScheduling V s = Inr s'"
  obtains s1 where "hand_outs V (mset (ready_queue s), s) (mset (ready_queue s'), s1)" and "s' = s1\<lparr>ready_queue := ready_queue s'\<rparr>"
proof (cases "ready_queue s = []")
  case True
  with run have "s' = s" by (simp add: performScheduling_def)
  with that[of s] show ?thesis by simp
next
  case False
  define first where "first = (if dc_cache_schedules (dcfg V) then scheduleCached V (ready_queue s) s else Some (0, ready_queue s, s))"
  from run False obtain n0 q0 s0 where f: "first = Some (n0, q0, s0)"
    by (auto simp: performScheduling_def first_def[symmetric] split: option.splits)
  with run False obtain pol where pol: "run_policy (dc_scheduler (dcfg V)) = Some pol"
    by (auto simp: performScheduling_def first_def[symmetric] split: option.splits)
  from run False f pol obtain n q s1 where run1: "pol V q0 s0 = Some (n, q, s1)" and s': "s' = s1\<lparr>ready_queue := q\<rparr>"
    by (auto simp: performScheduling_def first_def[symmetric] split: option.splits)
  have "hand_outs V (mset (ready_queue s), s) (mset q0, s0)"
    using f cached.refines[OF V, of "ready_queue s" s n0 q0 s0] by (auto simp: first_def split: if_splits)
  also have "hand_outs V (mset q0, s0) (mset q, s1)"
    by (rule dag_dispatcher.refines[OF run_policy_dispatcher[OF pol policy] V run1])
  finally show ?thesis using that[of s1] s' by simp
qed

end
