(* ===== verification/Dag_Runtime.thy ===== *)
theory Dag_Runtime
  imports Dag_Workers Dag_Refine Ipc
begin

text \<open>
  The process of the task-graph runtime, \<^verbatim>\<open>src/src-dag/runtime.cpp\<close>: the two dependency tests,
  and the phases of the loop of \<^verbatim>\<open>launchDaemonRuntime\<close>, each a function on the process state
  \<open>drt\<close>. Its channel, \<^verbatim>\<open>ipc.cpp\<close>, is the text of the other runtime with \<^verbatim>\<open>DAG_OBJ\<close> for
  \<^verbatim>\<open>SH_OBJ\<close>, so the messages are those of \<open>Ipc\<close>. Frame counters of applications are unbounded
  integers here; creating the log directory and printing are left out.
\<close>

section \<open>Dependency tests\<close>

text \<open>The loop over a link array with its early return.\<close>

primrec all_links :: "drt \<Rightarrow> addr \<Rightarrow> (dag_task \<Rightarrow> bool) \<Rightarrow> nat option list \<Rightarrow> dag_error + bool" where
  "all_links s a P [] = Inr True"
| "all_links s a P (l # ls) = (case l of
     None \<Rightarrow> Inl Undefined
   | Some j \<Rightarrow> bindR (the_node s (a, j)) (\<lambda>u. if P u then all_links s a P ls else Inr False))"

definition pred_test :: "stream_mode \<Rightarrow> dag_task \<Rightarrow> dag_task \<Rightarrow> bool" where
  "pred_test mode t u = (case mode of
     non_streaming \<Rightarrow> iter u = iter t + 1
   | single_buffer \<Rightarrow> iter u = iter t + 1
   | double_buffer \<Rightarrow> iter u \<noteq> iter t
   | sequential \<Rightarrow> if is_head t then iter u = iter t else iter u \<noteq> iter t)"

definition check_pred_comp :: "drt \<Rightarrow> task_ptr \<Rightarrow> stream_mode \<Rightarrow> dag_error + bool" where
  "check_pred_comp s p mode = bindR (the_node s p) (\<lambda>t. all_links s (fst p) (pred_test mode t) (pred t))"

definition succ_test :: "stream_mode \<Rightarrow> dag_task \<Rightarrow> dag_task \<Rightarrow> bool" where
  "succ_test mode t u = (case mode of
     non_streaming \<Rightarrow> iter u = iter t
   | single_buffer \<Rightarrow> iter u = iter t
   | double_buffer \<Rightarrow> \<not> sint (iter u) < sint (iter t - 1)
   | sequential \<Rightarrow> if is_tail t then iter u = iter t + 1 else iter u = iter t)"

definition check_succ_comp :: "drt \<Rightarrow> task_ptr \<Rightarrow> stream_mode \<Rightarrow> dag_error + bool" where
  "check_succ_comp s p mode = bindR (the_node s p) (\<lambda>t. all_links s (fst p) (succ_test mode t) (succ t))"

section \<open>Injection of applications\<close>

definition US2NANOSEC :: int where "US2NANOSEC = SEC2NANOSEC div 1000 div 1000"

definition reset_node :: "int \<Rightarrow> dag_task \<Rightarrow> dag_task" where
  "reset_node n t = t\<lparr>task_app_id := n, iter := 0, complete_flag := False, in_ready_queue := False, running_flag := False\<rparr>"

text \<open>One instance of a prototype: a fresh structure, due one period later than the last.\<close>

definition inject_one :: "dag_env \<Rightarrow> addr \<Rightarrow> u64 \<Rightarrow> u64 \<Rightarrow> drt \<Rightarrow> dag_error + (u64 \<times> drt)" where
  "inject_one V prototype period accum_period s =
     (let (emul_time, s) = tick s;
          a = next_addr s;
          s = s\<lparr>next_addr := a + 1\<rparr>
      in bindR (the_app s prototype) (\<lambda>other.
         bindR (app_assign a other s) (\<lambda>(new_app, s).
         let new_app = new_app\<lparr>
               app_id := appNum s,
               completed_task_count := 0,
               arrival_time := word_of_int emul_time + accum_period * word_of_int US2NANOSEC,
               head_nodes := map (reset_node (appNum s)) (head_nodes new_app)\<rparr>;
             accum_period = (if dc_fixed_periodic_injection (dcfg V) then accum_period + period
                             else random_period V (rt_ticks s) accum_period)
         in Inr (accum_period, (set_app a new_app s)\<lparr>
              appNum := appNum s + 1, unarrived_apps := unarrived_apps s @ [a]\<rparr>))))"

primrec inject_many :: "dag_env \<Rightarrow> addr \<Rightarrow> u64 \<Rightarrow> nat \<Rightarrow> u64 \<Rightarrow> drt \<Rightarrow> dag_error + drt" where
  "inject_many V prototype period 0 accum_period s = Inr s"
| "inject_many V prototype period (Suc n) accum_period s =
     bindR (inject_one V prototype period accum_period s) (\<lambda>(accum_period, s).
       inject_many V prototype period n accum_period s)"

text \<open>
  One slot of the message. The result of the parser is cached and used even when it is a null
  pointer.
\<close>

definition inject_slot :: "dag_env \<Rightarrow> string \<times> u64 \<times> u64 \<Rightarrow> drt \<Rightarrow> dag_error + drt" where
  "inject_slot V = (\<lambda>(pathToDag, num_inst, period) s.
     if num_inst = 0 then Inr s
     else
       let dagName = after_last (CHR ''/'') pathToDag
       in bindR (case applicationMap s dagName of
            Some a \<Rightarrow> Inr (a, s)
          | None \<Rightarrow> bindR (parse_dag_and_binary V pathToDag s) (\<lambda>(a, s).
              Inr (a, s\<lparr>applicationMap := (applicationMap s)(dagName \<mapsto> a)\<rparr>)))
          (\<lambda>(prototype, s). inject_many V prototype period (unat num_inst) period s))"

definition inject_message :: "dag_env \<Rightarrow> ipc_message \<Rightarrow> drt \<Rightarrow> dag_error + drt" where
  "inject_message V m = foldR (inject_slot V) (read_slots m [0..<IPC_MAX_APPS])"

definition instantiate_app :: "string \<Rightarrow> drt \<Rightarrow> dag_error + (addr \<times> drt)" where
  "instantiate_app name s = (case applicationMap s name of
     None \<Rightarrow> Inr (0, s)
   | Some prototype \<Rightarrow>
       let a = next_addr s
       in bindR (the_app s prototype) (\<lambda>other.
          bindR (app_assign a other (s\<lparr>next_addr := a + 1\<rparr>)) (\<lambda>(new_app, s). Inr (a, set_app a new_app s))))"

section \<open>Harvesting completed tasks\<close>

definition enqueue :: "task_ptr \<Rightarrow> drt \<Rightarrow> drt" where
  "enqueue p s = (set_node p (\<lambda>t. t\<lparr>in_ready_queue := True\<rparr>) s)\<lparr>ready_queue := ready_queue s @ [p]\<rparr>"

definition release_succ :: "addr \<Rightarrow> nat option \<Rightarrow> drt \<Rightarrow> dag_error + drt" where
  "release_succ a l s = (case l of
     None \<Rightarrow> Inl Undefined
   | Some j \<Rightarrow> bindR (check_pred_comp s (a, j) non_streaming) (\<lambda>ready. bindR (the_node s (a, j)) (\<lambda>u.
       Inr (if ready \<and> \<not> in_ready_queue u then enqueue (a, j) s else s))))"

definition finished :: "dag_task \<Rightarrow> dag_task" where
  "finished t = t\<lparr>complete_flag := True, iter := iter t + 1, in_ready_queue := False, running_flag := False\<rparr>"

definition log_record :: "dag_app \<Rightarrow> dag_task \<Rightarrow> dag_logging" where
  "log_record app t = \<lparr>log_frame_id = sint (ucast (iter t - 1) :: u32), log_app_name = app_name app,
     log_app_id = task_app_id t, log_task_id = task_id t, log_task_name = task_name t,
     log_resource_name = assigned_resource_name t, log_start = start_ts t, log_end = end_ts t,
     log_prev_idle_time = prev_idle_time t\<rparr>"

definition app_finished :: "dag_app \<Rightarrow> bool" where
  "app_finished app \<longleftrightarrow> completed_task_count app =
     (if stream_enable app = non_streaming then task_count app else task_count app * max_stream_frame_count app)"

definition complete_app :: "addr \<Rightarrow> dag_app \<Rightarrow> drt \<Rightarrow> drt" where
  "complete_app a app s =
     (if stream_enable app = non_streaming
      then s\<lparr>completed_apps := completed_apps s @ [a], arrived_nonstreaming := filter (\<lambda>b. b \<noteq> a) (arrived_nonstreaming s)\<rparr>
      else s\<lparr>completed_apps := completed_apps s @ [a], arrived_streaming := filter (\<lambda>b. b \<noteq> a) (arrived_streaming s)\<rparr>)"

text \<open>
  One completed task of worker \<open>i\<close>: its node and its application's counter, its log record
  (copying a task name of 50 or more characters overruns the record), the successors it
  releases, and the end of the application.
\<close>

definition harvest_one :: "nat \<Rightarrow> drt \<Rightarrow> dag_error + drt" where
  "harvest_one i s = (if length (dpes s) \<le> i then Inl Undefined else
     case completed_task_dequeue (dwt (dpes s ! i)) of
       [] \<Rightarrow> Inl Undefined
     | p # rest \<Rightarrow>
         let h = dpes s ! i;
             s = set_hw i (h\<lparr>dwt := (dwt h)\<lparr>completed_task_dequeue := rest\<rparr>\<rparr>) s
         in bindR (the_node s p) (\<lambda>t.
            let a = app_pnt t;
                s = set_node p finished s
            in bindR (the_app s a) (\<lambda>app.
               let s = set_app a (app\<lparr>completed_task_count := completed_task_count app + 1\<rparr>) s
               in bindR (the_app s a) (\<lambda>app. bindR (the_node s p) (\<lambda>t.
                  if 50 \<le> length (task_name t) \<or> 25 \<le> length (assigned_resource_name t) then Inl Undefined
                  else
                    let s = s\<lparr>stream_timing_log := stream_timing_log s @ [log_record app t]\<rparr>
                    in bindR (if stream_enable app = non_streaming then foldR (release_succ (fst p)) (succ t) s else Inr s) (\<lambda>s.
                       bindR (the_app s a) (\<lambda>app. Inr (if app_finished app then complete_app a app s else s))))))))"

primrec harvest_times :: "nat \<Rightarrow> nat \<Rightarrow> drt \<Rightarrow> dag_error + drt" where
  "harvest_times i 0 s = Inr s"
| "harvest_times i (Suc n) s = bindR (harvest_one i s) (harvest_times i n)"

definition harvest_pe :: "dag_env \<Rightarrow> nat \<Rightarrow> drt \<Rightarrow> dag_error + drt" where
  "harvest_pe V i s = (if length (dpes s) \<le> i then Inl Undefined
     else
       let n = length (completed_task_dequeue (dwt (dpes s ! i)));
           s = (if \<not> dc_enable_queueing (dcfg V) \<and> 0 < n then s\<lparr>free_resource_count := free_resource_count s + 1\<rparr> else s)
       in harvest_times i n s)"

definition harvest_phase :: "dag_env \<Rightarrow> drt \<Rightarrow> dag_error + drt" where
  "harvest_phase V = foldR (harvest_pe V) [0..<total_resources V]"

section \<open>Arrival\<close>

text \<open>The nodes of an arrived application whose predecessors are complete go to the ready queue.\<close>

definition arrive_node :: "addr \<Rightarrow> stream_mode \<Rightarrow> nat \<Rightarrow> drt \<Rightarrow> dag_error + drt" where
  "arrive_node a mode i s = bindR (check_pred_comp s (a, i) mode) (\<lambda>predecessors_complete. bindR (the_node s (a, i)) (\<lambda>t.
     Inr (if \<not> complete_flag t \<and> predecessors_complete \<and> \<not> running_flag t then enqueue (a, i) s else s)))"

definition arrival_of :: "drt \<Rightarrow> addr \<Rightarrow> u64" where
  "arrival_of s a = (case dapps s a of Some app \<Rightarrow> arrival_time app | None \<Rightarrow> 0)"

text \<open>One due application; the loop removes one waiting application in each round.\<close>

definition arrive_app :: "addr \<Rightarrow> dag_app \<Rightarrow> drt \<Rightarrow> dag_error + drt" where
  "arrive_app a app s =
     bindR (foldR (arrive_node a (stream_enable app)) [0..<nat (task_count app)] s) (\<lambda>s.
       let s = s\<lparr>unarrived_apps := remove1 a (unarrived_apps s)\<rparr>
       in Inr (if 0 < stream_num (stream_enable app) then s\<lparr>arrived_streaming := arrived_streaming s @ [a]\<rparr>
               else s\<lparr>arrived_nonstreaming := arrived_nonstreaming s @ [a]\<rparr>))"

primrec arrive_due :: "nat \<Rightarrow> dag_env \<Rightarrow> int \<Rightarrow> drt \<Rightarrow> dag_error + drt" where
  "arrive_due 0 V emul_time s = Inr s"
| "arrive_due (Suc n) V emul_time s =
     (if unarrived_apps s = [] then Inr s
      else
        let a = pq_top V (arrival_of s) (unarrived_apps s)
        in bindR (the_app s a) (\<lambda>app.
             if arrival_time app \<le> word_of_int emul_time then bindR (arrive_app a app s) (arrive_due n V emul_time)
             else Inr s))"

definition arrivals :: "dag_env \<Rightarrow> drt \<Rightarrow> dag_error + drt" where
  "arrivals V s = (case tick s of (emul_time, s) \<Rightarrow> arrive_due (length (unarrived_apps s)) V emul_time s)"

section \<open>Streaming\<close>

text \<open>The frame counter is compared with a signed bound, which is converted to unsigned.\<close>

definition stream_node :: "addr \<Rightarrow> nat \<Rightarrow> drt \<Rightarrow> dag_error + drt" where
  "stream_node a j s = bindR (the_app s a) (\<lambda>app. bindR (the_node s (a, j)) (\<lambda>t.
     if \<not> in_ready_queue t \<and> iter t < word_of_int (max_stream_frame_count app) then
       bindR (check_pred_comp s (a, j) (stream_enable app)) (\<lambda>preds.
         if \<not> preds then Inr s
         else bindR (check_succ_comp s (a, j) (stream_enable app)) (\<lambda>succs. Inr (if succs then enqueue (a, j) s else s)))
     else Inr s))"

definition stream_app :: "addr \<Rightarrow> drt \<Rightarrow> dag_error + drt" where
  "stream_app a s = bindR (the_app s a) (\<lambda>app. foldR (stream_node a) [0..<nat (task_count app)] s)"

definition streaming_phase :: "drt \<Rightarrow> dag_error + drt" where
  "streaming_phase s = foldR stream_app (arrived_streaming s) s"

section \<open>Freeing completed applications\<close>

text \<open>
  Freeing twice, or what is not allocated, is undefined. Only the structure itself is given
  back; the model also drops the nodes, so that a later access through them is undefined.
\<close>

definition free_app :: "addr \<Rightarrow> drt \<Rightarrow> dag_error + drt" where
  "free_app a s = (if dapps s a = None then Inl Undefined else Inr (s\<lparr>dapps := (dapps s)(a := None)\<rparr>))"

definition free_completed :: "drt \<Rightarrow> dag_error + drt" where
  "free_completed s = map_sum id (\<lambda>s. s\<lparr>completed_apps := []\<rparr>) (foldR free_app (completed_apps s) s)"

section \<open>Shutdown\<close>

text \<open>Every worker is told to terminate, whether or not it is executing a task.\<close>

definition stop_worker :: "nat \<Rightarrow> drt \<Rightarrow> dag_error + drt" where
  "stop_worker i s = (if length (dpes s) \<le> i then Inl Undefined
     else Inr (set_hw i ((dpes s ! i)\<lparr>dwt := (dwt (dpes s ! i))\<lparr>resource_state := 3\<rparr>\<rparr>) s))"

definition stop_workers :: "dag_env \<Rightarrow> drt \<Rightarrow> dag_error + drt" where
  "stop_workers V = foldR stop_worker [0..<total_resources V]"

definition should_exit_early :: "dag_env \<Rightarrow> bool \<Rightarrow> drt \<Rightarrow> bool" where
  "should_exit_early V receivedFirstSubDag s \<longleftrightarrow> dc_exit_when_idle (dcfg V) \<and> receivedFirstSubDag \<and>
     unarrived_apps s = [] \<and> arrived_streaming s = [] \<and> arrived_nonstreaming s = [] \<and> completed_apps s = []"

section \<open>One round of the loop\<close>

definition dag_round :: "dag_env \<Rightarrow> process_ipc \<Rightarrow> bool \<Rightarrow> drt \<Rightarrow> dag_error + (bool \<times> bool \<times> drt)" where
  "dag_round V ipc_cmd got s =
     (if cmd_type ipc_cmd \<noteq> SH_OBJ \<and> (cmd_type ipc_cmd = SERVER_EXIT \<or> should_exit_early V got s) then
        map_sum id (\<lambda>s. (True, got, s)) (stop_workers V s)
      else
        bindR (if cmd_type ipc_cmd = SH_OBJ then map_sum id (\<lambda>s. (True, s)) (inject_message V (message ipc_cmd) s)
               else Inr (got, s)) (\<lambda>(got, s).
        bindR (harvest_phase V s) (\<lambda>s. bindR (arrivals V s) (\<lambda>s. bindR (streaming_phase s) (\<lambda>s.
        bindR (performScheduling V s) (\<lambda>s. map_sum id (\<lambda>s. (False, got, s)) (free_completed s)))))))"

section \<open>The trace\<close>

text \<open>
  The timing trace is the log sorted by start time, each line with its duration, together with
  the earliest start and the latest end, from which the makespan is computed.
\<close>

definition timing_trace :: "dag_logging list \<Rightarrow> (dag_logging \<times> int \<times> int \<times> int) list \<times> int \<times> int" where
  "timing_trace tlog = fold (\<lambda>task (lines, earliestStart, latestFinish).
     let s0 = nanos (log_start task); e0 = nanos (log_end task)
     in (lines @ [(task, s0, e0, e0 - s0)], min earliestStart s0, max latestFinish e0))
     (sort_key (\<lambda>r. nanos (log_start r)) tlog) ([], LLONG_MAX, 0)"

section \<open>All threads together\<close>

text \<open>
  The steps of the process: a worker makes a step, and the runtime thread performs one of its
  operations, each worker's queues being touched under the worker's lock.
\<close>

inductive dag_step :: "dag_env \<Rightarrow> drt \<Rightarrow> drt \<Rightarrow> bool" for V where
  worker: "i < length (dpes s) \<Longrightarrow> dag_worker_step V i s = Some (Inr s') \<Longrightarrow> dag_step V s s'"
| inject: "inject_message V m s = Inr s' \<Longrightarrow> dag_step V s s'"
| harvest: "harvest_one i s = Inr s' \<Longrightarrow> dag_step V s s'"
| arrive: "arrivals V s = Inr s' \<Longrightarrow> dag_step V s s'"
| stream: "streaming_phase s = Inr s' \<Longrightarrow> dag_step V s s'"
| schedule: "performScheduling V s = Inr s' \<Longrightarrow> dag_step V s s'"
| free: "free_completed s = Inr s' \<Longrightarrow> dag_step V s s'"
| count: "dag_step V s (s\<lparr>free_resource_count := c\<rparr>)"

inductive_cases dag_stepE: "dag_step V s s'"

end
