(* ===== verification/Marked_Graph.thy ===== *)
theory Marked_Graph
  imports Main
begin

text \<open>
  The abstract machine behind the dependency tests of the task-graph runtime: a marked graph
  with bounded edges. Node \<open>i\<close> has fired \<open>f i\<close> times and fires at most \<open>K\<close> times; the edge from
  \<open>i\<close> to \<open>j\<close> holds \<open>f i - f j\<close> frames, at most \<open>B\<close>. A node may start when every incoming edge
  holds a frame and every outgoing one has room; \<open>F\<close> are the nodes that have started and not
  yet finished. Frames move when a node finishes.
\<close>

locale marked_graph =
  fixes n :: nat and E :: "(nat \<times> nat) set" and K :: nat and B :: nat
  assumes edges: "E \<subseteq> {..<n} \<times> {..<n}" and room: "0 < B"
begin

definition may_start :: "(nat \<Rightarrow> nat) \<Rightarrow> nat \<Rightarrow> bool" where
  "may_start f i \<longleftrightarrow> i < n \<and> f i < K \<and> (\<forall>j. (j, i) \<in> E \<longrightarrow> f i < f j) \<and> (\<forall>j. (i, j) \<in> E \<longrightarrow> f i < f j + B)"

definition bounded :: "(nat \<Rightarrow> nat) \<Rightarrow> bool" where
  "bounded f \<longleftrightarrow> (\<forall>i<n. f i \<le> K) \<and> (\<forall>i j. (i, j) \<in> E \<longrightarrow> f j \<le> f i \<and> f i \<le> f j + B)"

definition flow :: "(nat \<Rightarrow> nat) \<Rightarrow> nat set \<Rightarrow> bool" where
  "flow f F \<longleftrightarrow> bounded f \<and> (\<forall>i \<in> F. may_start f i)"

inductive move :: "(nat \<Rightarrow> nat) \<times> nat set \<Rightarrow> (nat \<Rightarrow> nat) \<times> nat set \<Rightarrow> bool" where
  start: "may_start f i \<Longrightarrow> i \<notin> F \<Longrightarrow> move (f, F) (f, insert i F)"
| finish: "i \<in> F \<Longrightarrow> move (f, F) (f(i := f i + 1), F - {i})"

lemma flowD: "flow f F \<Longrightarrow> i \<in> F \<Longrightarrow> may_start f i"
  by (simp add: flow_def)

lemma may_start_cong:
  assumes "\<And>k. k < n \<Longrightarrow> f k = g k"
  shows "may_start f i \<longleftrightarrow> may_start g i"
proof -
  have "f j = g j \<and> f i = g i" if "(i, j) \<in> E \<or> (j, i) \<in> E" for i j using that assms edges by blast
  then show ?thesis using assms unfolding may_start_def by metis
qed

lemma flow_cong:
  assumes "\<And>k. k < n \<Longrightarrow> f k = g k"
  shows "flow f F \<longleftrightarrow> flow g F"
proof -
  have "f j = g j \<and> f i = g i" if "(i, j) \<in> E" for i j using that assms edges by blast
  then have "bounded f \<longleftrightarrow> bounded g" using assms unfolding bounded_def by metis
  with may_start_cong[OF assms] show ?thesis by (simp add: flow_def)
qed

lemma flow_start: "flow f F \<Longrightarrow> may_start f i \<Longrightarrow> flow f (insert i F)"
  by (simp add: flow_def)

lemma may_start_other:
  assumes "may_start f i" and "may_start f k" and "k \<noteq> i" and "bounded f"
  shows "may_start (f(i := f i + 1)) k"
  using assms by (fastforce simp: may_start_def bounded_def)

lemma bounded_finish:
  assumes "bounded f" and "may_start f i"
  shows "bounded (f(i := f i + 1))"
  unfolding bounded_def
proof (intro conjI allI impI)
  fix k assume "k < n"
  then show "(f(i := f i + 1)) k \<le> K" using assms by (auto simp: bounded_def may_start_def)
next
  fix k j assume kj: "(k, j) \<in> E"
  have le: "f j \<le> f k" "f k \<le> f j + B" using assms(1) kj by (auto simp: bounded_def)
  have pre: "j = i \<Longrightarrow> f i < f k" and post: "k = i \<Longrightarrow> f i < f j + B" using assms(2) kj by (auto simp: may_start_def)
  show "(f(i := f i + 1)) j \<le> (f(i := f i + 1)) k" using le pre by (auto simp: Suc_le_eq)
  show "(f(i := f i + 1)) k \<le> (f(i := f i + 1)) j + B" using le post by (auto simp: Suc_le_eq)
qed

lemma flow_finish:
  assumes "flow f F" and "i \<in> F"
  shows "flow (f(i := f i + 1)) (F - {i})"
  using assms bounded_finish may_start_other unfolding flow_def by blast

lemma flow_move: "move x y \<Longrightarrow> flow (fst x) (snd x) \<Longrightarrow> flow (fst y) (snd y)"
  by (induction rule: move.induct) (use flow_start flow_finish in auto)

lemma flow_moves: "move\<^sup>*\<^sup>* x y \<Longrightarrow> flow (fst x) (snd x) \<Longrightarrow> flow (fst y) (snd y)"
  by (induction rule: rtranclp_induct) (use flow_move in auto)

lemma flow_initial: "(\<And>i. i < n \<Longrightarrow> f i = 0) \<Longrightarrow> flow f {}"
  using edges by (fastforce simp: flow_def bounded_def)

text \<open>A graph without cycles never gets stuck: among the slowest nodes an initial one may start.\<close>

lemma not_stuck:
  assumes "acyclic E" and "bounded f" and "i < n" and "f i < K"
  obtains k where "k < n" and "may_start f k"
proof -
  define m where "m = Min (f ` {..<n})"
  define S where "S = {k. k < n \<and> f k = m}"
  have fin: "finite (f ` {..<n})" "f ` {..<n} \<noteq> {}" using assms(3) by auto
  have "m \<in> f ` {..<n}" using Min_in[OF fin] by (simp add: m_def)
  then obtain k0 where k0: "k0 \<in> S" by (auto simp: S_def)
  have least: "m \<le> f k" if "k < n" for k using Min_le[OF fin(1)] that by (simp add: m_def)
  have "finite E" using edges by (rule finite_subset) simp
  with assms(1) have "wf E" by (simp add: finite_acyclic_wf)
  then obtain k where k: "k \<in> S" and first: "\<And>j. (j, k) \<in> E \<Longrightarrow> j \<notin> S"
    using k0 by (metis wfE_min)
  have "m < K" using least[OF assms(3)] assms(4) by simp
  moreover have "f k < f j" if e: "(j, k) \<in> E" for j
  proof -
    have "j < n" using e edges by auto
    moreover from first[OF e] this have "f j \<noteq> m" by (simp add: S_def)
    ultimately show ?thesis using least[of j] k by (simp add: S_def)
  qed
  moreover have "f k < f j + B" if e: "(k, j) \<in> E" for j
  proof -
    have "j < n" using e edges by auto
    with least[of j] k room show ?thesis by (simp add: S_def)
  qed
  ultimately have "may_start f k" using k by (simp add: may_start_def S_def)
  with that[of k] k show thesis by (simp add: S_def)
qed

text \<open>All nodes have fired \<open>K\<close> times exactly when they have fired \<open>n * K\<close> times together.\<close>

lemma done_iff:
  assumes "bounded f"
  shows "(\<Sum>i<n. f i) = n * K \<longleftrightarrow> (\<forall>i<n. f i = K)"
proof
  assume sum: "(\<Sum>i<n. f i) = n * K"
  show "\<forall>i<n. f i = K"
  proof (rule ccontr)
    assume "\<not> (\<forall>i<n. f i = K)"
    then obtain i where "i < n" "f i < K" using assms by (auto simp: bounded_def le_less)
    then have "(\<Sum>i<n. f i) < (\<Sum>i<n. K)"
      using assms by (intro sum_strict_mono_ex1) (auto simp: bounded_def)
    with sum show False by simp
  qed
qed simp

lemma done_idle: "flow f F \<Longrightarrow> (\<Sum>i<n. f i) = n * K \<Longrightarrow> F = {}"
  using done_iff[of f] by (fastforce simp: flow_def may_start_def)

end

end
