(* ===== verification/Dag_App.thy ===== *)
theory Dag_App
  imports Dag_Runtime Marked_Graph
begin

text \<open>
  One application of the task-graph runtime as a marked graph: the frame counters of its nodes,
  the edges its successor arrays describe, the frame limit and the buffers of its streaming
  mode. The dependency tests of the code decide whether a node may start, and the writes to an
  application (enqueueing, assigning, timing, finishing) are moves of the graph or leave it
  alone. Modes are all but \<^verbatim>\<open>sequential\<close>, whose links form a cycle.
\<close>

section \<open>Applications as graphs\<close>

abbreviation nodes :: "dag_app \<Rightarrow> dag_task list" where "nodes \<equiv> head_nodes"

definition frames :: "dag_task \<Rightarrow> nat" where
  "frames t = unat (iter t)"

definition frames_at :: "dag_app \<Rightarrow> nat \<Rightarrow> nat" where
  "frames_at app i = frames (nodes app ! i)"

definition edges_of :: "dag_app \<Rightarrow> (nat \<times> nat) set" where
  "edges_of app = {(i, j). i < length (nodes app) \<and> j < length (nodes app) \<and> Some j \<in> set (succ (nodes app ! i))}"

definition frame_limit :: "dag_app \<Rightarrow> nat" where
  "frame_limit app = (if stream_enable app = non_streaming then 1 else nat (max_stream_frame_count app))"

definition buffers :: "dag_app \<Rightarrow> nat" where
  "buffers app = (if stream_enable app = double_buffer then 2 else 1)"

interpretation mg: marked_graph "length (nodes app)" "edges_of app" "frame_limit app" "buffers app" for app
  by unfold_locales (auto simp: edges_of_def buffers_def)

text \<open>
  A well-formed application: its arrays have the declared size, its links stay inside them and
  agree with each other, and its names fit into the log record.
\<close>

definition node_ok :: "addr \<Rightarrow> nat \<Rightarrow> dag_task \<Rightarrow> bool" where
  "node_ok a n t \<longleftrightarrow> app_pnt t = a \<and> length (task_name t) < 50 \<and> length (assigned_resource_name t) < 25 \<and>
     (\<forall>l \<in> set (pred t) \<union> set (succ t). \<exists>j<n. l = Some j)"

definition linked :: "dag_task list \<Rightarrow> bool" where
  "linked ns \<longleftrightarrow> (\<forall>i<length ns. \<forall>j<length ns. Some j \<in> set (succ (ns ! i)) \<longleftrightarrow> Some i \<in> set (pred (ns ! j)))"

definition mode_ok :: "dag_app \<Rightarrow> bool" where
  "mode_ok app \<longleftrightarrow> stream_enable app \<noteq> sequential \<and>
     (stream_enable app = non_streaming \<or> 1 \<le> max_stream_frame_count app \<and> max_stream_frame_count app < 2 ^ 31)"

definition wf_app :: "addr \<Rightarrow> dag_app \<Rightarrow> bool" where
  "wf_app a app \<longleftrightarrow> task_count app = int (length (nodes app)) \<and> mode_ok app \<and> linked (nodes app) \<and>
     (\<forall>t \<in> set (nodes app). node_ok a (length (nodes app)) t)"

text \<open>The state of an application whose started nodes are \<open>F\<close>.\<close>

definition app_state :: "dag_app \<Rightarrow> nat set \<Rightarrow> bool" where
  "app_state app F \<longleftrightarrow> mg.flow app (frames_at app) F \<and>
     (\<forall>i<length (nodes app). (in_ready_queue (nodes app ! i) \<longleftrightarrow> i \<in> F) \<and>
        (complete_flag (nodes app ! i) \<longleftrightarrow> 0 < frames_at app i)) \<and>
     completed_task_count app = int (\<Sum>i<length (nodes app). frames_at app i)"

definition fresh_node :: "dag_task \<Rightarrow> bool" where
  "fresh_node t \<longleftrightarrow> iter t = 0 \<and> \<not> complete_flag t \<and> \<not> in_ready_queue t \<and> \<not> running_flag t"

definition fresh_app :: "dag_app \<Rightarrow> bool" where
  "fresh_app app \<longleftrightarrow> completed_task_count app = 0 \<and> (\<forall>t \<in> set (nodes app). fresh_node t)"

lemma fresh_app_state: "fresh_app app \<Longrightarrow> app_state app {}"
  by (auto simp: app_state_def fresh_app_def fresh_node_def frames_at_def frames_def intro!: mg.flow_initial)

lemma frame_limit_bounds:
  "mode_ok app \<Longrightarrow> 0 < frame_limit app" "mode_ok app \<Longrightarrow> frame_limit app < 2 ^ 31"
  by (auto simp: mode_ok_def frame_limit_def nat_less_iff)

section \<open>The dependency tests\<close>

lemma iter_eq: "frames t = n \<Longrightarrow> n < 2 ^ 64 \<Longrightarrow> iter t = of_nat n"
  by (auto simp: frames_def)

lemma iter_add_eq:
  assumes "frames t < 2 ^ 63"
  shows "iter u = iter t + 1 \<longleftrightarrow> frames u = frames t + 1"
proof -
  have "unat (iter t + 1) = unat (iter t) + 1"
    using assms by (simp add: frames_def unat_word_ariths)
  then show ?thesis by (simp add: frames_def word_unat_eq_iff)
qed

lemma iter_eq_iff: "iter u = iter t \<longleftrightarrow> frames u = frames t"
  by (simp add: frames_def word_unat_eq_iff)

lemma sint_small:
  assumes "unat (w :: u64) < 2 ^ 63"
  shows "sint w = int (unat w)"
proof -
  have "int (unat w) < 2 ^ 63" using assms by (metis of_nat_less_iff of_nat_numeral of_nat_power)
  then have "uint w < 2 ^ 63" by (simp only: uint_nat)
  then have "signed_take_bit 63 (uint w) = uint w" using uint_ge_0[of w] by (intro signed_take_bit_int_eq_self) linarith+
  then show ?thesis by (simp add: sint_uint)
qed

lemma pred_test_iff:
  assumes "mode \<noteq> sequential" and "frames t < 2 ^ 63" and "frames t \<le> frames u"
    and "frames u \<le> frames t + (if mode = double_buffer then 2 else 1)"
  shows "pred_test mode t u \<longleftrightarrow> frames t < frames u"
  using assms by (cases mode) (auto simp: pred_test_def iter_add_eq iter_eq_iff)

lemma succ_test_iff:
  assumes "mode \<noteq> sequential" and "frames t < 2 ^ 62" and "frames u \<le> frames t"
    and "frames t \<le> frames u + (if mode = double_buffer then 2 else 1)"
  shows "succ_test mode t u \<longleftrightarrow> frames t < frames u + (if mode = double_buffer then 2 else 1)"
proof (cases "mode = double_buffer")
  case True
  have u: "sint (iter u) = int (frames u)"
    using assms(2,3) sint_small[of "iter u"] by (simp add: frames_def)
  have t: "sint (iter t - 1) = int (frames t) - 1"
  proof (cases "iter t = 0")
    case True
    then show ?thesis by (simp add: frames_def)
  next
    case False
    then have "unat (iter t - 1) = frames t - 1" "0 < frames t"
      by (simp_all add: frames_def unat_minus_one unat_gt_0)
    with assms(2) sint_small[of "iter t - 1"] show ?thesis by simp
  qed
  from True show ?thesis by (simp add: succ_test_def u t) linarith
next
  case False
  with assms show ?thesis by (cases mode) (auto simp: succ_test_def iter_eq_iff)
qed

text \<open>The loop over a link array, when its links are valid.\<close>

lemma all_links_eq:
  assumes "dapps s a = Some app" and "\<forall>l \<in> set ls. \<exists>j<length (nodes app). l = Some j"
  shows "all_links s a P ls = Inr (\<forall>j. Some j \<in> set ls \<longrightarrow> P (nodes app ! j))"
  using assms(2)
proof (induction ls)
  case (Cons l ls)
  then obtain j where j: "j < length (nodes app)" "l = Some j" by auto
  with assms(1) have "the_node s (a, j) = Inr (nodes app ! j)"
    by (simp add: the_node_def node_at_def rd_def)
  with Cons j show ?case by auto
qed simp

lemma the_node_eq [simp]:
  "dapps s a = Some app \<Longrightarrow> i < length (nodes app) \<Longrightarrow> the_node s (a, i) = Inr (nodes app ! i)"
  by (simp add: the_node_def node_at_def rd_def)

definition inputs_ready :: "dag_app \<Rightarrow> nat \<Rightarrow> bool" where
  "inputs_ready app i \<longleftrightarrow> (\<forall>j. (j, i) \<in> edges_of app \<longrightarrow> frames_at app i < frames_at app j)"

definition outputs_free :: "dag_app \<Rightarrow> nat \<Rightarrow> bool" where
  "outputs_free app i \<longleftrightarrow> (\<forall>j. (i, j) \<in> edges_of app \<longrightarrow> frames_at app i < frames_at app j + buffers app)"

lemma may_start_iff:
  "mg.may_start app (frames_at app) i \<longleftrightarrow> i < length (nodes app) \<and> frames_at app i < frame_limit app \<and>
     inputs_ready app i \<and> outputs_free app i"
  by (auto simp: mg.may_start_def inputs_ready_def outputs_free_def)

lemma wf_links:
  assumes "wf_app a app" and "i < length (nodes app)"
  shows "\<forall>l \<in> set (pred (nodes app ! i)). \<exists>j<length (nodes app). l = Some j"
    and "\<forall>l \<in> set (succ (nodes app ! i)). \<exists>j<length (nodes app). l = Some j"
    and "Some j \<in> set (pred (nodes app ! i)) \<longleftrightarrow> (j, i) \<in> edges_of app"
    and "Some j \<in> set (succ (nodes app ! i)) \<longleftrightarrow> (i, j) \<in> edges_of app"
proof -
  have ok: "node_ok a (length (nodes app)) (nodes app ! i)" and linked: "linked (nodes app)"
    using assms nth_mem[OF assms(2)] by (auto simp: wf_app_def)
  from ok show p: "\<forall>l \<in> set (pred (nodes app ! i)). \<exists>j<length (nodes app). l = Some j"
    and s: "\<forall>l \<in> set (succ (nodes app ! i)). \<exists>j<length (nodes app). l = Some j"
    by (simp_all add: node_ok_def)
  show "Some j \<in> set (pred (nodes app ! i)) \<longleftrightarrow> (j, i) \<in> edges_of app"
    using p linked assms(2) unfolding linked_def edges_of_def by blast
  show "Some j \<in> set (succ (nodes app ! i)) \<longleftrightarrow> (i, j) \<in> edges_of app"
    using s assms(2) unfolding edges_of_def by blast
qed

lemma frames_small:
  assumes "mode_ok app" and "mg.bounded app (frames_at app)" and "i < length (nodes app)"
  shows "frames (nodes app ! i) < 2 ^ 62"
proof -
  have "frames (nodes app ! i) \<le> frame_limit app" using assms(2,3) by (simp add: mg.bounded_def frames_at_def)
  also have "\<dots> < 2 ^ 31" using assms(1) by (rule frame_limit_bounds(2))
  finally show ?thesis by simp
qed

lemma check_pred_comp_eq:
  assumes "dapps s a = Some app" and "wf_app a app" and "mg.bounded app (frames_at app)" and "i < length (nodes app)"
  shows "check_pred_comp s (a, i) (stream_enable app) = Inr (inputs_ready app i)"
proof -
  have mode: "mode_ok app" using assms(2) by (simp add: wf_app_def)
  have test: "pred_test (stream_enable app) (nodes app ! i) (nodes app ! j) \<longleftrightarrow> frames_at app i < frames_at app j"
    if "(j, i) \<in> edges_of app" for j
  proof -
    have "frames_at app i \<le> frames_at app j" "frames_at app j \<le> frames_at app i + buffers app"
      using assms(3) that by (auto simp: mg.bounded_def)
    with pred_test_iff[of "stream_enable app" "nodes app ! i" "nodes app ! j"] frames_small[OF mode assms(3,4)] mode
    show ?thesis by (simp add: frames_at_def buffers_def mode_ok_def)
  qed
  show ?thesis
    using assms(1,4) all_links_eq[OF assms(1) wf_links(1)[OF assms(2,4)]] wf_links(3)[OF assms(2,4)] test
    by (auto simp: check_pred_comp_def inputs_ready_def)
qed

lemma check_succ_comp_eq:
  assumes "dapps s a = Some app" and "wf_app a app" and "mg.bounded app (frames_at app)" and "i < length (nodes app)"
  shows "check_succ_comp s (a, i) (stream_enable app) = Inr (outputs_free app i)"
proof -
  have mode: "mode_ok app" using assms(2) by (simp add: wf_app_def)
  have test: "succ_test (stream_enable app) (nodes app ! i) (nodes app ! j) \<longleftrightarrow> frames_at app i < frames_at app j + buffers app"
    if "(i, j) \<in> edges_of app" for j
  proof -
    have "frames_at app j \<le> frames_at app i" "frames_at app i \<le> frames_at app j + buffers app"
      using assms(3) that by (auto simp: mg.bounded_def)
    with succ_test_iff[of "stream_enable app" "nodes app ! i" "nodes app ! j"] frames_small[OF mode assms(3,4)] mode
    show ?thesis by (simp add: frames_at_def buffers_def mode_ok_def)
  qed
  show ?thesis
    using assms(1,4) all_links_eq[OF assms(1) wf_links(2)[OF assms(2,4)]] wf_links(4)[OF assms(2,4)] test
    by (auto simp: check_succ_comp_def outputs_free_def)
qed

section \<open>Writes to an application\<close>

definition set_at :: "dag_app \<Rightarrow> nat \<Rightarrow> (dag_task \<Rightarrow> dag_task) \<Rightarrow> dag_app" where
  "set_at app i f = app\<lparr>head_nodes := (nodes app)[i := f (nodes app ! i)]\<rparr>"

lemma set_node_eq: "dapps s a = Some app \<Longrightarrow> set_node (a, i) f s = set_app a (set_at app i f) s"
  by (simp add: set_node_def set_at_def)

text \<open>A write keeps the description of a node when it keeps its links, names and owner.\<close>

definition keeps :: "(dag_task \<Rightarrow> dag_task) \<Rightarrow> bool" where
  "keeps f \<longleftrightarrow> (\<forall>t. pred (f t) = pred t \<and> succ (f t) = succ t \<and> app_pnt (f t) = app_pnt t \<and>
     task_name (f t) = task_name t \<and>
     (length (assigned_resource_name t) < 25 \<longrightarrow> length (assigned_resource_name (f t)) < 25))"

definition silent :: "(dag_task \<Rightarrow> dag_task) \<Rightarrow> bool" where
  "silent f \<longleftrightarrow> keeps f \<and> (\<forall>t. iter (f t) = iter t \<and> in_ready_queue (f t) = in_ready_queue t \<and>
     complete_flag (f t) = complete_flag t)"

lemma set_at_sel [simp]:
  "length (nodes (set_at app i f)) = length (nodes app)" "task_count (set_at app i f) = task_count app"
  "stream_enable (set_at app i f) = stream_enable app" "max_stream_frame_count (set_at app i f) = max_stream_frame_count app"
  "completed_task_count (set_at app i f) = completed_task_count app" "app_name (set_at app i f) = app_name app"
  "arrival_time (set_at app i f) = arrival_time app" "mode_ok (set_at app i f) = mode_ok app"
  "frame_limit (set_at app i f) = frame_limit app" "buffers (set_at app i f) = buffers app"
  by (simp_all add: set_at_def mode_ok_def frame_limit_def buffers_def)

lemma set_at_nth: "k < length (nodes app) \<Longrightarrow> nodes (set_at app i f) ! k = (if k = i then f (nodes app ! i) else nodes app ! k)"
  by (simp add: set_at_def nth_list_update)

lemma frames_set_at: "k < length (nodes app) \<Longrightarrow>
    frames_at (set_at app i f) k = (if k = i then frames (f (nodes app ! i)) else frames_at app k)"
  by (simp add: frames_at_def set_at_nth)

lemma linked_set_at:
  assumes "keeps f"
  shows "linked (nodes (set_at app i f)) \<longleftrightarrow> linked (nodes app)" and "edges_of (set_at app i f) = edges_of app"
proof -
  have same: "succ (nodes (set_at app i f) ! k) = succ (nodes app ! k)" "pred (nodes (set_at app i f) ! k) = pred (nodes app ! k)"
    if "k < length (nodes app)" for k
    using assms that by (auto simp: set_at_nth keeps_def)
  then show "linked (nodes (set_at app i f)) \<longleftrightarrow> linked (nodes app)" by (simp add: linked_def)
  show "edges_of (set_at app i f) = edges_of app" using same by (auto simp: edges_of_def)
qed

lemma wf_set_at:
  assumes "wf_app a app" and "keeps f"
  shows "wf_app a (set_at app i f)"
proof -
  have "node_ok a (length (nodes app)) t" if "t \<in> set (nodes (set_at app i f))" for t
  proof -
    from that obtain k where k: "k < length (nodes app)" "t = nodes (set_at app i f) ! k" by (auto simp: in_set_conv_nth)
    then have "node_ok a (length (nodes app)) (nodes app ! k)" using assms(1) by (simp add: wf_app_def)
    with assms(2) k show ?thesis by (auto simp: set_at_nth node_ok_def keeps_def)
  qed
  with assms linked_set_at(1)[OF assms(2)] show ?thesis by (simp add: wf_app_def)
qed

lemma app_state_silent:
  assumes "silent f"
  shows "app_state (set_at app i f) F \<longleftrightarrow> app_state app F"
proof -
  have keeps: "keeps f" using assms by (simp add: silent_def)
  have same: "frames_at (set_at app i f) k = frames_at app k" if "k < length (nodes app)" for k
    using assms that by (simp add: frames_set_at silent_def) (simp add: frames_def frames_at_def)
  have "in_ready_queue (nodes (set_at app i f) ! k) = in_ready_queue (nodes app ! k)"
    "complete_flag (nodes (set_at app i f) ! k) = complete_flag (nodes app ! k)" if "k < length (nodes app)" for k
    using assms that by (simp_all add: set_at_nth silent_def)
  moreover have "(\<Sum>k<length (nodes app). frames_at (set_at app i f) k) = (\<Sum>k<length (nodes app). frames_at app k)"
    using same by simp
  moreover have "mg.flow (set_at app i f) (frames_at (set_at app i f)) F \<longleftrightarrow> mg.flow app (frames_at app) F"
    using mg.flow_cong[of app, OF same] by (simp add: linked_set_at(2)[OF keeps])
  ultimately show ?thesis using same by (simp add: app_state_def)
qed

text \<open>Entering the ready queue is a start, finishing an execution a finish of the graph.\<close>

abbreviation queue_node :: "dag_task \<Rightarrow> dag_task" where
  "queue_node \<equiv> (\<lambda>t. t\<lparr>in_ready_queue := True\<rparr>)"

lemma keeps_queue [simp]: "keeps queue_node" and keeps_finished [simp]: "keeps finished"
  by (simp_all add: keeps_def finished_def)

lemma app_state_queue:
  assumes "app_state app F" and "mg.may_start app (frames_at app) i"
  shows "app_state (set_at app i queue_node) (insert i F)"
proof -
  have i: "i < length (nodes app)" using assms(2) by (simp add: may_start_iff)
  have same: "frames_at (set_at app i queue_node) k = frames_at app k" if "k < length (nodes app)" for k
    using that by (simp add: frames_set_at) (simp add: frames_def frames_at_def)
  have sum: "(\<Sum>k<length (nodes app). frames_at (set_at app i queue_node) k) = (\<Sum>k<length (nodes app). frames_at app k)"
    using same by simp
  have flow: "mg.flow (set_at app i queue_node) (frames_at (set_at app i queue_node)) (insert i F)"
    using mg.flow_cong[of app, OF same] mg.flow_start[OF _ assms(2)] assms(1)
    by (simp add: linked_set_at(2) app_state_def)
  have flags: "(in_ready_queue (nodes (set_at app i queue_node) ! k) \<longleftrightarrow> k \<in> insert i F) \<and>
      complete_flag (nodes (set_at app i queue_node) ! k) = complete_flag (nodes app ! k)" if "k < length (nodes app)" for k
    using that assms(1) by (simp add: set_at_nth app_state_def)
  show ?thesis using flow flags sum same assms(1) by (simp add: app_state_def)
qed

definition count_task :: "dag_app \<Rightarrow> dag_app" where
  "count_task app = app\<lparr>completed_task_count := completed_task_count app + 1\<rparr>"

lemma count_task_sel [simp]:
  "nodes (count_task app) = nodes app" "task_count (count_task app) = task_count app"
  "stream_enable (count_task app) = stream_enable app" "max_stream_frame_count (count_task app) = max_stream_frame_count app"
  "completed_task_count (count_task app) = completed_task_count app + 1" "app_name (count_task app) = app_name app"
  "wf_app a (count_task app) = wf_app a app" "frames_at (count_task app) = frames_at app" "edges_of (count_task app) = edges_of app"
  "frame_limit (count_task app) = frame_limit app" "buffers (count_task app) = buffers app"
  by (simp_all add: count_task_def wf_app_def mode_ok_def fun_eq_iff frames_at_def edges_of_def frame_limit_def buffers_def)

lemma sum_bump: "i < (n :: nat) \<Longrightarrow> (\<Sum>k<n. (f(i := f i + 1)) k) = (\<Sum>k<n. f k) + (1 :: nat)"
proof -
  assume "i < n"
  have "(\<Sum>k<n. (f(i := f i + 1)) k) = (\<Sum>k<n. f k + (if k = i then 1 else 0))"
    by (rule sum.cong) auto
  also have "\<dots> = (\<Sum>k<n. f k) + (\<Sum>k<n. if k = i then 1 else 0)" by (rule sum.distrib)
  also have "(\<Sum>k<n. if k = i then 1 else 0) = (1 :: nat)" using \<open>i < n\<close> by (subst sum.delta) auto
  finally show ?thesis .
qed

lemma app_state_finish:
  assumes "app_state app F" and "mode_ok app" and "i \<in> F"
  shows "app_state (count_task (set_at app i finished)) (F - {i})"
proof -
  have flow: "mg.flow app (frames_at app) F" using assms(1) by (simp add: app_state_def)
  have i: "i < length (nodes app)"
    using mg.flowD[OF flow assms(3)] by (simp add: may_start_iff)
  have "frames (nodes app ! i) < 2 ^ 62"
    using frames_small[OF assms(2) _ i] flow by (simp add: mg.flow_def)
  then have up: "frames (finished (nodes app ! i)) = frames_at app i + 1"
    by (simp add: frames_def frames_at_def finished_def unat_word_ariths)
  have fr: "frames_at (set_at app i finished) k = ((frames_at app)(i := frames_at app i + 1)) k"
    if "k < length (nodes app)" for k
    using that by (simp add: frames_set_at up)
  have moved: "mg.flow (set_at app i finished) (frames_at (set_at app i finished)) (F - {i})"
    using mg.flow_cong[of app "frames_at (set_at app i finished)" "(frames_at app)(i := frames_at app i + 1)"]
      fr mg.flow_finish[OF flow assms(3)] by (simp add: linked_set_at(2) del: fun_upd_apply)
  have flags: "(in_ready_queue (nodes (set_at app i finished) ! k) \<longleftrightarrow> k \<in> F - {i}) \<and>
      (complete_flag (nodes (set_at app i finished) ! k) \<longleftrightarrow> 0 < frames_at (set_at app i finished) k)"
    if "k < length (nodes app)" for k
    using that assms(1) fr[OF that] by (simp add: set_at_nth app_state_def finished_def)
  have "(\<Sum>k<length (nodes app). frames_at (set_at app i finished) k) = (\<Sum>k<length (nodes app). ((frames_at app)(i := frames_at app i + 1)) k)"
    using fr by simp
  also have "\<dots> = (\<Sum>k<length (nodes app). frames_at app k) + 1"
    using sum_bump[OF i] by simp
  finally show ?thesis using moved flags assms(1) by (simp add: app_state_def)
qed

text \<open>An application is finished when every node has fired as often as the mode asks.\<close>

lemma app_finished_iff:
  assumes "app_state app F" and "wf_app a app"
  shows "app_finished app \<longleftrightarrow> (\<forall>i<length (nodes app). frames_at app i = frame_limit app)"
proof -
  have count: "completed_task_count app = int (\<Sum>i<length (nodes app). frames_at app i)"
    and bounded: "mg.bounded app (frames_at app)"
    using assms(1) by (auto simp: app_state_def mg.flow_def)
  have total: "(if stream_enable app = non_streaming then task_count app else task_count app * max_stream_frame_count app)
      = int (length (nodes app) * frame_limit app)"
    using assms(2) by (auto simp: wf_app_def mode_ok_def frame_limit_def)
  have "app_finished app \<longleftrightarrow> (\<Sum>i<length (nodes app). frames_at app i) = length (nodes app) * frame_limit app"
    unfolding app_finished_def count total by (simp only: of_nat_eq_iff)
  then show ?thesis using mg.done_iff[OF bounded] by simp
qed

lemma app_finished_idle: "app_state app F \<Longrightarrow> wf_app a app \<Longrightarrow> app_finished app \<Longrightarrow> F = {}"
  using app_finished_iff[of app F a] by (fastforce simp: app_state_def mg.flow_def mg.may_start_def)

end
