(* ===== verification/Dag_Inv.thy ===== *)
theory Dag_Inv
  imports Dag_App
begin

text \<open>
  The invariant of the task-graph process: every pointer to a node that is in the ready queue
  or with a worker occurs once and belongs to an arrived application, whose state is that of
  its marked graph with exactly these nodes started. Every operation of the runtime thread and
  every step of a worker preserves it, and the operations of the runtime thread on
  applications are defined in it.
\<close>

declare split_paired_All [simp del] split_paired_Ex [simp del]

section \<open>Definitions\<close>

definition in_hand :: "dag_hw \<Rightarrow> task_ptr list" where
  "in_hand h = (case dpc h of DLoaded p f \<Rightarrow> [p] | DLabelled p f \<Rightarrow> [p] | DExecuted p \<Rightarrow> [p] | _ \<Rightarrow> [])"

definition held :: "dag_hw \<Rightarrow> task_ptr list" where
  "held h = completed_task_dequeue (dwt h) @ in_hand h @ todo_task_dequeue (dwt h)"

definition with_workers :: "drt \<Rightarrow> task_ptr multiset" where
  "with_workers s = (\<Sum>h\<leftarrow>dpes s. mset (held h))"

definition flight :: "drt \<Rightarrow> task_ptr multiset" where
  "flight s = mset (ready_queue s) + with_workers s"

definition started :: "task_ptr multiset \<Rightarrow> addr \<Rightarrow> nat set" where
  "started T a = {i. (a, i) \<in># T}"

definition arrived :: "drt \<Rightarrow> addr list" where
  "arrived s = arrived_nonstreaming s @ arrived_streaming s"

definition live :: "drt \<Rightarrow> addr list" where
  "live s = unarrived_apps s @ arrived s @ completed_apps s"

text \<open>
  An arrived application with the started nodes \<open>F\<close>: it is not finished, and without streaming
  every node that may start has started.
\<close>

definition eager :: "dag_app \<Rightarrow> nat set \<Rightarrow> bool" where
  "eager app F \<longleftrightarrow> (\<forall>i. mg.may_start app (frames_at app) i \<longrightarrow> i \<in> F)"

definition active :: "addr \<Rightarrow> dag_app \<Rightarrow> nat set \<Rightarrow> bool" where
  "active a app F \<longleftrightarrow> wf_app a app \<and> app_state app F \<and> (nodes app \<noteq> [] \<longrightarrow> \<not> app_finished app) \<and>
     (stream_enable app = non_streaming \<longrightarrow> eager app F)"

definition all_done :: "addr \<Rightarrow> dag_app \<Rightarrow> bool" where
  "all_done a app \<longleftrightarrow> wf_app a app \<and> (\<forall>i<length (nodes app). frames_at app i = frame_limit app)"

definition proto_ok :: "dag_app \<Rightarrow> bool" where
  "proto_ok app \<longleftrightarrow> task_count app = int (length (nodes app)) \<and> mode_ok app \<and> linked (nodes app) \<and>
     (\<forall>i<length (nodes app). task_id (nodes app ! i) = int i \<and>
        length (task_name (nodes app ! i)) < 50 \<and> length (assigned_resource_name (nodes app ! i)) < 25 \<and>
        (\<forall>l \<in> set (pred (nodes app ! i)) \<union> set (succ (nodes app ! i)). \<exists>j<length (nodes app). l = Some j))"

text \<open>\<open>T\<close> are all tasks in flight. The runtime thread's own bookkeeping is the second part.\<close>

definition tasks_ok :: "task_ptr multiset \<Rightarrow> drt \<Rightarrow> bool" where
  "tasks_ok T s \<longleftrightarrow> (\<forall>p. count T p \<le> 1) \<and> (\<forall>p. p \<in># T \<longrightarrow> fst p \<in> set (arrived s)) \<and>
     (\<forall>a \<in> set (arrived s). \<exists>app. dapps s a = Some app \<and> active a app (started T a))"

definition lists_ok :: "drt \<Rightarrow> bool" where
  "lists_ok s \<longleftrightarrow> distinct (live s) \<and>
     (\<forall>a \<in> set (unarrived_apps s). \<exists>app. dapps s a = Some app \<and> wf_app a app \<and> fresh_app app) \<and>
     (\<forall>a \<in> set (completed_apps s). \<exists>app. dapps s a = Some app \<and> all_done a app) \<and>
     (\<forall>a \<in> set (arrived_nonstreaming s). \<forall>app. dapps s a = Some app \<longrightarrow> stream_enable app = non_streaming) \<and>
     (\<forall>a \<in> set (arrived_streaming s). \<forall>app. dapps s a = Some app \<longrightarrow> stream_enable app \<noteq> non_streaming) \<and>
     (\<forall>a \<in> dom (dapps s). 0 < a \<and> a < next_addr s) \<and> 0 < next_addr s \<and>
     (\<forall>a \<in> ran (applicationMap s). a \<noteq> 0 \<longrightarrow> a \<notin> set (live s) \<and> (\<exists>app. dapps s a = Some app \<and> proto_ok app)) \<and>
     (\<forall>h \<in> set (dpes s). length (resource_name (dwt h)) < 25)"

definition dag_ok :: "drt \<Rightarrow> bool" where
  "dag_ok s \<longleftrightarrow> tasks_ok (flight s) s \<and> lists_ok s"

lemma set_arrived: "set (arrived s) \<subseteq> set (live s)"
  by (auto simp: live_def)

lemma started_diff: "count T p \<le> 1 \<Longrightarrow> started (T - {#p#}) (fst p) = started T (fst p) - {snd p}"
  by (cases p) (auto simp: started_def in_diff_count count_eq_zero_iff split: if_splits)

lemma started_add [simp]: "started (add_mset p T) a = (if fst p = a then insert (snd p) (started T a) else started T a)"
  by (cases p) (auto simp: started_def)

lemma started_other: "fst p \<noteq> a \<Longrightarrow> started (T - {#p#}) a = started T a"
  by (cases p) (auto simp: started_def in_diff_count split: if_splits)

lemma tasks_okD:
  assumes "tasks_ok T s" and "p \<in># T"
  obtains app where "fst p \<in> set (arrived s)" and "dapps s (fst p) = Some app" and "active (fst p) app (started T (fst p))"
    and "snd p \<in> started T (fst p)" and "snd p < length (nodes app)"
proof -
  from assms have a: "fst p \<in> set (arrived s)" by (simp add: tasks_ok_def)
  with assms(1) have "\<exists>app. dapps s (fst p) = Some app \<and> active (fst p) app (started T (fst p))"
    by (simp add: tasks_ok_def)
  then obtain app where app: "dapps s (fst p) = Some app" "active (fst p) app (started T (fst p))" by blast
  have i: "snd p \<in> started T (fst p)" using assms(2) by (simp add: started_def)
  with app(2) have "mg.may_start app (frames_at app) (snd p)" by (auto simp: active_def app_state_def mg.flow_def)
  then have "snd p < length (nodes app)" by (simp add: may_start_iff)
  with a app i that show thesis by blast
qed

section \<open>Writes to one application\<close>

text \<open>A write to one arrived application leaves the others alone.\<close>

lemma tasks_ok_write:
  assumes "tasks_ok T s" and "dapps s' = (dapps s)(a \<mapsto> app)" and "set (arrived s') = set (arrived s)"
    and "active a app (started T' a)" and "\<And>b. b \<noteq> a \<Longrightarrow> started T' b = started T b"
    and "\<And>p. count T' p \<le> 1" and "\<And>p. p \<in># T' \<Longrightarrow> fst p \<in> set (arrived s)"
  shows "tasks_ok T' s'"
  unfolding tasks_ok_def
proof (intro conjI allI ballI impI)
  fix b assume "b \<in> set (arrived s')"
  with assms show "\<exists>app. dapps s' b = Some app \<and> active b app (started T' b)"
    by (cases "b = a") (auto simp: tasks_ok_def)
qed (use assms in auto)

lemma active_silent: "silent f \<Longrightarrow> active a app F \<Longrightarrow> active a (set_at app i f) F"
proof -
  assume f: "silent f" and act: "active a app F"
  have keeps: "keeps f" using f by (simp add: silent_def)
  have same: "frames_at (set_at app i f) k = frames_at app k" if "k < length (nodes app)" for k
    using f that by (simp add: frames_set_at silent_def) (simp add: frames_def frames_at_def)
  have start: "mg.may_start (set_at app i f) (frames_at (set_at app i f)) k = mg.may_start app (frames_at app) k" for k
    using mg.may_start_cong[of app "frames_at (set_at app i f)" "frames_at app", OF same] by (simp add: linked_set_at(2)[OF keeps])
  have "app_finished (set_at app i f) = app_finished app" by (simp add: app_finished_def)
  moreover have "(nodes (set_at app i f) = []) = (nodes app = [])" by (simp add: set_at_def)
  ultimately show ?thesis using act wf_set_at[OF _ keeps] app_state_silent[OF f] start by (simp add: active_def eager_def)
qed

lemma dapps_set_node: "dapps s (fst p) = Some app \<Longrightarrow> dapps (set_node p f s) = (dapps s)(fst p \<mapsto> set_at app (snd p) f)"
  by (cases p) (simp add: set_node_eq set_app_def)

lemma set_node_sel [simp]:
  "ready_queue (set_node p f s) = ready_queue s" "arrived_nonstreaming (set_node p f s) = arrived_nonstreaming s"
  "arrived_streaming (set_node p f s) = arrived_streaming s" "unarrived_apps (set_node p f s) = unarrived_apps s"
  "completed_apps (set_node p f s) = completed_apps s" "next_addr (set_node p f s) = next_addr s"
  "applicationMap (set_node p f s) = applicationMap s" "arrived (set_node p f s) = arrived s" "live (set_node p f s) = live s"
  "with_workers (set_node p f s) = with_workers s" "flight (set_node p f s) = flight s"
  by (simp_all add: set_node_def set_app_def arrived_def live_def with_workers_def flight_def split: option.splits)

lemma tasks_ok_silent:
  assumes "tasks_ok T s" and "silent f" and "p \<in># T"
  shows "tasks_ok T (set_node p f s)"
proof -
  from tasks_okD[OF assms(1,3)] obtain app where app: "dapps s (fst p) = Some app" "active (fst p) app (started T (fst p))"
    by metis
  show ?thesis
    by (rule tasks_ok_write[OF assms(1) dapps_set_node[OF app(1)]])
       (use assms(1) active_silent[OF assms(2) app(2)] in \<open>auto simp: tasks_ok_def\<close>)
qed

text \<open>What the second part needs of the applications when one arrived application is rewritten.\<close>

lemma lists_ok_write:
  assumes "lists_ok s" and "dapps s' = (dapps s)(a \<mapsto> app')" and "dapps s a = Some app"
    and "stream_enable app' = stream_enable app" and "a \<in> set (arrived s)"
    and "unarrived_apps s' = unarrived_apps s" "arrived_nonstreaming s' = arrived_nonstreaming s"
      "arrived_streaming s' = arrived_streaming s" "completed_apps s' = completed_apps s" "next_addr s' = next_addr s"
      "applicationMap s' = applicationMap s" "map (resource_name \<circ> dwt) (dpes s') = map (resource_name \<circ> dwt) (dpes s)"
  shows "lists_ok s'"
proof -
  have "a \<notin> set (unarrived_apps s)" "a \<notin> set (completed_apps s)" using assms(1,5) by (auto simp: lists_ok_def live_def)
  moreover have "(\<forall>h \<in> set (dpes s'). length (resource_name (dwt h)) < 25) \<longleftrightarrow>
      (\<forall>x \<in> set (map (resource_name \<circ> dwt) (dpes s')). length x < 25)" by simp
  moreover have "live s' = live s" "arrived s' = arrived s" using assms by (simp_all add: live_def arrived_def)
  moreover have "a \<notin> ran (applicationMap s) \<or> a = 0" using assms(1,5) set_arrived by (fastforce simp: lists_ok_def)
  ultimately show ?thesis using assms unfolding lists_ok_def by (auto simp: dom_def ran_def)
qed

section \<open>Steps of the workers\<close>

lemma sum_list_upd:
  "i < length xs \<Longrightarrow> (\<Sum>x\<leftarrow>xs[i := y]. f x) + f (xs ! i) = (\<Sum>x\<leftarrow>xs. f x) + (f y :: 'm :: comm_monoid_add)"
proof (induction xs arbitrary: i)
  case (Cons x xs)
  then show ?case by (cases i) (simp_all add: ac_simps)
qed simp

lemma with_workers_set_hw:
  "i < length (dpes s) \<Longrightarrow> with_workers (set_hw i h s) + mset (held (dpes s ! i)) = with_workers s + mset (held h)"
  unfolding with_workers_def set_hw_def
  using sum_list_upd[of i "dpes s" "\<lambda>h. mset (held h)" h] by simp

lemma set_hw_sel [simp]:
  "dapps (set_hw i h s) = dapps s" "ready_queue (set_hw i h s) = ready_queue s" "arrived (set_hw i h s) = arrived s"
  "live (set_hw i h s) = live s" "length (dpes (set_hw i h s)) = length (dpes s)" "unarrived_apps (set_hw i h s) = unarrived_apps s"
  "arrived_nonstreaming (set_hw i h s) = arrived_nonstreaming s" "arrived_streaming (set_hw i h s) = arrived_streaming s"
  "completed_apps (set_hw i h s) = completed_apps s" "next_addr (set_hw i h s) = next_addr s"
  "applicationMap (set_hw i h s) = applicationMap s"
  by (simp_all add: set_hw_def arrived_def live_def)

lemma tasks_ok_cong: "dapps s' = dapps s \<Longrightarrow> arrived s' = arrived s \<Longrightarrow> tasks_ok T s' = tasks_ok T s"
  by (simp add: tasks_ok_def)

lemma lists_ok_cong:
  assumes "lists_ok s" and "dapps s' = dapps s" "unarrived_apps s' = unarrived_apps s"
    "arrived_nonstreaming s' = arrived_nonstreaming s" "arrived_streaming s' = arrived_streaming s"
    "completed_apps s' = completed_apps s" "next_addr s' = next_addr s" "applicationMap s' = applicationMap s"
    "\<And>h. h \<in> set (dpes s') \<Longrightarrow> \<exists>h0 \<in> set (dpes s). resource_name (dwt h) = resource_name (dwt h0)"
  shows "lists_ok s'"
proof -
  have "live s' = live s" using assms by (simp add: live_def arrived_def)
  moreover have "length (resource_name (dwt h)) < 25" if "h \<in> set (dpes s')" for h
    using assms(1) assms(9)[OF that] by (auto simp: lists_ok_def)
  ultimately show ?thesis using assms(1-8) by (simp add: lists_ok_def)
qed

lemma lists_ok_set_hw:
  "lists_ok s \<Longrightarrow> i < length (dpes s) \<Longrightarrow> resource_name (dwt h) = resource_name (dwt (dpes s ! i)) \<Longrightarrow> lists_ok (set_hw i h s)"
  by (rule lists_ok_cong[of s]) (auto simp: set_hw_def dest!: set_update_subset_insert[THEN subsetD])

text \<open>A worker that holds the same tasks afterwards.\<close>

lemma dag_ok_set_hw:
  assumes "dag_ok s" and "i < length (dpes s)" and "mset (held h) = mset (held (dpes s ! i))"
    and "resource_name (dwt h) = resource_name (dwt (dpes s ! i))"
  shows "dag_ok (set_hw i h s)"
proof -
  have "flight (set_hw i h s) = flight s"
    using with_workers_set_hw[OF assms(2), of h] assms(3) by (simp add: flight_def)
  then show ?thesis
    using assms lists_ok_set_hw[OF _ assms(2,4)] tasks_ok_cong[of "set_hw i h s" s] by (simp add: dag_ok_def)
qed

lemma dag_ok_silent:
  assumes "dag_ok s" and "silent f" and "p \<in># flight s"
  shows "dag_ok (set_node p f s)"
proof -
  have tasks: "tasks_ok (flight s) s" and lists: "lists_ok s" using assms(1) by (auto simp: dag_ok_def)
  from tasks_okD[OF tasks assms(3)] obtain app where app: "fst p \<in> set (arrived s)" "dapps s (fst p) = Some app" by metis
  have "lists_ok (set_node p f s)"
    by (rule lists_ok_write[OF lists dapps_set_node[OF app(2)] app(2) _ app(1)]) simp_all
  then show ?thesis using tasks_ok_silent[OF tasks assms(2,3)] by (simp add: dag_ok_def)
qed

lemma in_with_workers: "h \<in> set hs \<Longrightarrow> p \<in> set (held h) \<Longrightarrow> p \<in># (\<Sum>h\<leftarrow>hs. mset (held h))"
  by (induction hs) auto

lemma held_flight: "i < length (dpes s) \<Longrightarrow> p \<in> set (held (dpes s ! i)) \<Longrightarrow> p \<in># flight s"
  using in_with_workers[of "dpes s ! i" "dpes s" p] by (simp add: flight_def with_workers_def)

text \<open>Fields no invariant mentions.\<close>

definition plain_change :: "drt \<Rightarrow> drt \<Rightarrow> bool" where
  "plain_change s s' \<longleftrightarrow> dapps s' = dapps s \<and> ready_queue s' = ready_queue s \<and> dpes s' = dpes s \<and>
     unarrived_apps s' = unarrived_apps s \<and> arrived_nonstreaming s' = arrived_nonstreaming s \<and>
     arrived_streaming s' = arrived_streaming s \<and> completed_apps s' = completed_apps s \<and> next_addr s' = next_addr s \<and>
     applicationMap s' = applicationMap s"

lemma dag_ok_plain: "dag_ok s \<Longrightarrow> plain_change s s' \<Longrightarrow> dag_ok s'"
proof -
  assume ok: "dag_ok s" and ch: "plain_change s s'"
  have "flight s' = flight s" "arrived s' = arrived s"
    using ch by (simp_all add: plain_change_def flight_def with_workers_def arrived_def)
  moreover have "lists_ok s'"
    by (rule lists_ok_cong[of s]) (use ok ch in \<open>simp_all add: dag_ok_def plain_change_def, blast\<close>)
  ultimately show ?thesis using ok ch tasks_ok_cong[of s' s] by (simp add: dag_ok_def plain_change_def)
qed

lemma plain_tick: "tick s = (t, s') \<Longrightarrow> plain_change s s'"
  by (auto simp: tick_def plain_change_def)

lemma dpes_plain: "plain_change s s' \<Longrightarrow> dpes s' = dpes s"
  by (simp add: plain_change_def)

lemma dag_ok_pop:
  assumes "dag_ok s" and "i < length (dpes s)" and "dpc (dpes s ! i) = DTop" and "dag_pop i s = Inr s'"
  shows "dag_ok s'"
proof -
  from assms(4) obtain p rest where todo: "todo_task_dequeue (dwt (dpes s ! i)) = p # rest"
    by (auto simp: dag_pop_def split: list.splits)
  with assms(4) obtain t where "the_node s p = Inr t" by (auto simp: dag_pop_def bindR_eq_Inr)
  with todo assms(4) have
    s': "s' = set_hw i ((dpes s ! i)\<lparr>dwt := (dwt (dpes s ! i))\<lparr>todo_task_dequeue := rest, resource_state := 1\<rparr>,
                dpc := DLoaded p (actual_run_func t)\<rparr>) s"
    by (simp add: dag_pop_def bindR_eq_Inr Let_def)
  show ?thesis unfolding s'
    by (rule dag_ok_set_hw[OF assms(1,2)]) (simp_all add: held_def in_hand_def todo assms(3))
qed

lemma plain_write_global: "plain_change s (write_global symbol v s)"
  by (simp add: write_global_def plain_change_def split: option.splits)

lemma plain_trans: "plain_change s s1 \<Longrightarrow> plain_change s1 s2 \<Longrightarrow> plain_change s s2"
  by (simp add: plain_change_def)

lemma dag_ok_label:
  assumes "dag_ok s" and "i < length (dpes s)" and "dpc (dpes s ! i) = DLoaded p f" and "dag_label V i s = Inr s'"
  shows "dag_ok s'"
proof -
  from assms(3,4) obtain s1 where ch: "plain_change s s1" and s': "s' = set_hw i ((dpes s ! i)\<lparr>dpc := DLabelled p f\<rparr>) s1"
    by (auto simp: dag_label_def bindR_eq_Inr Let_def intro: plain_write_global plain_trans split: if_splits)
  have "dpes s1 = dpes s" using ch by (rule dpes_plain)
  then show ?thesis unfolding s'
    by (intro dag_ok_set_hw[OF dag_ok_plain[OF assms(1) ch]]) (use assms(2,3) in \<open>simp_all add: held_def in_hand_def\<close>)
qed

lemma dag_ok_executed:
  assumes "dag_ok s" and "i < length (dpes s)" and "dpc (dpes s ! i) = DLabelled p f" and ch: "plain_change s s1" and "silent g"
  shows "dag_ok (set_hw i ((dpes s ! i)\<lparr>dpc := DExecuted p, last_avail := a\<rparr>) (set_node p g s1))"
proof -
  have p: "p \<in># flight s" using assms(2,3) by (intro held_flight) (auto simp: held_def in_hand_def)
  have "dag_ok (set_node p g s1)"
    by (rule dag_ok_silent[OF dag_ok_plain[OF assms(1) ch] assms(5)])
       (use p ch in \<open>simp add: flight_def with_workers_def plain_change_def\<close>)
  moreover have "dpes (set_node p g s1) = dpes s" using ch by (simp add: dpes_plain)
  ultimately show ?thesis
    by (intro dag_ok_set_hw) (use assms(2,3) in \<open>simp_all add: held_def in_hand_def\<close>)
qed

lemma dag_ok_run:
  assumes "dag_ok s" and "i < length (dpes s)" and "dpc (dpes s ! i) = DLabelled p f" and "dag_run V i s = Inr s'"
  shows "dag_ok s'"
proof -
  from assms(3,4) obtain t app where t: "the_node s p = Inr t" "the_app s (app_pnt t) = Inr app"
    by (auto simp: dag_run_def bindR_eq_Inr split: if_splits)
  show ?thesis
  proof (cases "MAX_ARGS < length (args t)")
    case True
    with assms(3,4) t have s': "s' = set_hw i ((dpes s ! i)\<lparr>dpc := DExecuted p\<rparr>) s" by (simp add: dag_run_def bindR_eq_Inr Let_def)
    show ?thesis unfolding s'
      by (rule dag_ok_set_hw[OF assms(1,2)]) (use assms(3) in \<open>simp_all add: held_def in_hand_def\<close>)
  next
    case False
    with assms(3,4) t show ?thesis
      by (auto simp: dag_run_def bindR_eq_Inr Let_def tick_def plain_change_def silent_def keeps_def
          intro!: dag_ok_executed[OF assms(1,2,3)] split: if_splits)
  qed
qed

lemma dag_ok_finish:
  assumes "dag_ok s" and "i < length (dpes s)" and "dpc (dpes s ! i) = DExecuted p" and "dag_finish i s = Inr s'"
  shows "dag_ok s'"
proof -
  from assms(3,4) have s': "s' = set_hw i ((dpes s ! i)\<lparr>dwt := (dwt (dpes s ! i))\<lparr>
      completed_task_dequeue := completed_task_dequeue (dwt (dpes s ! i)) @ [p], resource_state := 0\<rparr>, dpc := DTop\<rparr>) s"
    by (simp add: dag_finish_def Let_def)
  show ?thesis unfolding s'
    by (rule dag_ok_set_hw[OF assms(1,2)]) (use assms(3) in \<open>simp_all add: held_def in_hand_def\<close>)
qed

lemma dag_ok_idle:
  assumes "dag_ok s" and "i < length (dpes s)" and "dpc (dpes s ! i) = DTop"
  shows "dag_ok (dag_idle i s)"
  unfolding dag_idle_def Let_def
  using dag_ok_set_hw[OF assms(1,2)] assms(3) by (simp add: held_def in_hand_def)

lemma dag_ok_worker:
  assumes "dag_ok s" and "i < length (dpes s)" and "dag_worker_step V i s = Some (Inr s')"
  shows "dag_ok s'"
proof (cases "dpc (dpes s ! i)")
  case DTop
  with assms show ?thesis using dag_ok_pop dag_ok_idle by (auto simp: dag_worker_step_def split: if_splits)
next
  case (DLoaded p f)
  with assms show ?thesis using dag_ok_label by (simp add: dag_worker_step_def)
next
  case (DLabelled p f)
  with assms show ?thesis using dag_ok_run by (simp add: dag_worker_step_def)
next
  case (DExecuted p)
  with assms show ?thesis using dag_ok_finish by (simp add: dag_worker_step_def)
next
  case DTerminated
  with assms show ?thesis by (simp add: dag_worker_step_def)
qed

section \<open>Scheduling\<close>

text \<open>The invariant while the tasks \<open>M\<close> are still to be handed out.\<close>

definition sched_ok :: "task_ptr multiset \<times> drt \<Rightarrow> bool" where
  "sched_ok x \<longleftrightarrow> tasks_ok (fst x + with_workers (snd x)) (snd x) \<and> lists_ok (snd x)"

lemma with_workers_core: "core s' = core s \<Longrightarrow> with_workers s' = with_workers s"
  using core_eqD(2)[of s' s] by (simp add: with_workers_def)

lemma sched_ok_core:
  assumes "sched_ok (M, s)" and "core s' = core s"
  shows "sched_ok (M, s')"
proof -
  note eq = core_eqD[OF assms(2)]
  have "lists_ok s'"
    by (rule lists_ok_cong[of s]) (use assms(1) eq in \<open>auto simp: sched_ok_def\<close>)
  moreover have "arrived s' = arrived s" using eq by (simp add: arrived_def)
  ultimately show ?thesis
    using assms(1) tasks_ok_cong[OF eq(1)] with_workers_core[OF assms(2)] by (simp add: sched_ok_def)
qed

lemma set_worker_eq:
  "set_worker i f s = set_hw (nat i) ((dpes s ! nat i)\<lparr>dwt := f (dwt (dpes s ! nat i))\<rparr>) s"
  by (simp add: set_worker_def set_hw_def)

lemma sched_ok_give:
  assumes ok: "sched_ok (M, s)" and p: "p \<in># M" and th: "worker_at s i = Some th"
  shows "sched_ok (M - {#p#}, set_worker i (push_task p a) (set_node p (assigned th) s))"
proof -
  from th have i: "nat i < length (dpes s)" and th': "th = dwt (dpes s ! nat i)"
    by (auto simp: worker_at_def rd_def split: if_splits)
  have tasks: "tasks_ok (M + with_workers s) s" and lists: "lists_ok s" using ok by (auto simp: sched_ok_def)
  have "length (resource_name th) < 25" using lists i by (simp add: lists_ok_def th')
  then have silent: "silent (assigned th)" by (simp add: silent_def keeps_def assigned_def)
  have mem: "p \<in># M + with_workers s" using p by simp
  let ?s = "set_node p (assigned th) s"
  have tasks1: "tasks_ok (M + with_workers s) ?s" by (rule tasks_ok_silent[OF tasks silent mem])
  from tasks_okD[OF tasks mem] obtain app where app: "fst p \<in> set (arrived s)" "dapps s (fst p) = Some app" by metis
  have lists1: "lists_ok ?s"
    by (rule lists_ok_write[OF lists dapps_set_node[OF app(2)] app(2) _ app(1)]) simp_all
  define h where "h = (dpes ?s ! nat i)\<lparr>dwt := push_task p a (dwt (dpes ?s ! nat i))\<rparr>"
  have sh: "set_worker i (push_task p a) ?s = set_hw (nat i) h ?s" by (simp add: set_worker_eq h_def)
  have i1: "nat i < length (dpes ?s)" using i by simp
  have "mset (held h) = add_mset p (mset (held (dpes ?s ! nat i)))"
    by (simp add: h_def held_def in_hand_def push_task_def)
  with with_workers_set_hw[OF i1, of h] have "with_workers (set_hw (nat i) h ?s) = add_mset p (with_workers s)" by simp
  then have "M - {#p#} + with_workers (set_hw (nat i) h ?s) = M + with_workers s" using p by simp
  moreover have "lists_ok (set_hw (nat i) h ?s)"
    by (rule lists_ok_set_hw[OF lists1 i1]) (simp add: h_def push_task_def)
  ultimately show ?thesis using tasks1 tasks_ok_cong[of "set_hw (nat i) h ?s" ?s] by (simp add: sched_ok_def sh)
qed

lemma sched_ok_hand_out: "hand_out V x x' \<Longrightarrow> sched_ok x \<Longrightarrow> sched_ok x'"
proof (induction rule: hand_out.induct)
  case (give p M s t i th s' a)
  from sched_ok_core[OF sched_ok_give[OF give(6,1,3)] give(5)] show ?case .
next
  case (skip s' s M)
  then show ?case using sched_ok_core by blast
qed

lemma sched_ok_hand_outs: "hand_outs V x x' \<Longrightarrow> sched_ok x \<Longrightarrow> sched_ok x'"
  by (induction rule: rtranclp_induct) (use sched_ok_hand_out in auto)

lemma dag_ok_sched: "dag_ok s \<longleftrightarrow> sched_ok (mset (ready_queue s), s)"
  by (simp add: dag_ok_def sched_ok_def flight_def)

lemma dag_ok_schedule:
  assumes "dag_ok s" and "dag_env_ok V" and "dc_scheduler (dcfg V) \<noteq> ''DNN''" and "performScheduling V s = Inr s'"
  shows "dag_ok s'"
proof -
  from performScheduling_hand_outs[OF assms(2-4)] obtain s1 where
    run: "hand_outs V (mset (ready_queue s), s) (mset (ready_queue s'), s1)" and s': "s' = s1\<lparr>ready_queue := ready_queue s'\<rparr>"
    by metis
  from sched_ok_hand_outs[OF run] assms(1) have ok: "sched_ok (mset (ready_queue s'), s1)" by (simp add: dag_ok_sched)
  have same: "dapps s' = dapps s1" "dpes s' = dpes s1" "arrived s' = arrived s1" "with_workers s' = with_workers s1"
    by (subst s', simp add: arrived_def with_workers_def)+
  have "lists_ok s'"
    by (rule lists_ok_cong[of s1]) (use ok same in \<open>auto simp: sched_ok_def\<close>; subst s', simp)+
  with ok same show ?thesis using tasks_ok_cong[of s' s1] by (simp add: dag_ok_sched sched_ok_def)
qed

section \<open>Entering the ready queue\<close>

lemma enqueue_sel [simp]:
  "arrived (enqueue p s) = arrived s" "live (enqueue p s) = live s" "arrived_streaming (enqueue p s) = arrived_streaming s"
  "arrived_nonstreaming (enqueue p s) = arrived_nonstreaming s" "unarrived_apps (enqueue p s) = unarrived_apps s"
  "completed_apps (enqueue p s) = completed_apps s" "next_addr (enqueue p s) = next_addr s"
  "applicationMap (enqueue p s) = applicationMap s" "dpes (enqueue p s) = dpes s" "ready_queue (enqueue p s) = ready_queue s @ [p]"
  by (simp_all add: enqueue_def arrived_def live_def)

lemma flight_enqueue [simp]: "flight (enqueue p s) = add_mset p (flight s)"
  by (simp add: flight_def with_workers_def)

lemma dapps_enqueue: "dapps s (fst p) = Some app \<Longrightarrow> dapps (enqueue p s) = (dapps s)(fst p \<mapsto> set_at app (snd p) queue_node)"
  by (simp add: enqueue_def dapps_set_node)

lemma frames_queue: "k < length (nodes app) \<Longrightarrow> frames_at (set_at app i queue_node) k = frames_at app k"
  by (simp add: frames_set_at) (simp add: frames_def frames_at_def)

lemma may_start_queue: "mg.may_start (set_at app i queue_node) (frames_at (set_at app i queue_node)) k = mg.may_start app (frames_at app) k"
  using mg.may_start_cong[of app "frames_at (set_at app i queue_node)" "frames_at app", OF frames_queue]
  by (simp add: linked_set_at(2))

lemma active_queue:
  assumes "active a app F" and "mg.may_start app (frames_at app) i"
  shows "active a (set_at app i queue_node) (insert i F)"
proof -
  have "app_finished (set_at app i queue_node) = app_finished app" by (simp add: app_finished_def)
  moreover have "(nodes (set_at app i queue_node) = []) = (nodes app = [])" by (simp add: set_at_def)
  ultimately show ?thesis
    using assms app_state_queue wf_set_at[OF _ keeps_queue] may_start_queue by (simp add: active_def eager_def)
qed

lemma dag_ok_enqueue:
  assumes "dag_ok s" and "a \<in> set (arrived s)" and "dapps s a = Some app" and "mg.may_start app (frames_at app) i"
    and "i \<notin> started (flight s) a"
  shows "dag_ok (enqueue (a, i) s)"
proof -
  have tasks: "tasks_ok (flight s) s" and lists: "lists_ok s" using assms(1) by (auto simp: dag_ok_def)
  have act: "active a app (started (flight s) a)" using tasks assms(2,3) by (auto simp: tasks_ok_def)
  have apps: "dapps (enqueue (a, i) s) = (dapps s)(a \<mapsto> set_at app i queue_node)"
    using dapps_enqueue[of s "(a, i)" app] assms(3) by simp
  have "count (flight s) (a, i) = 0" using assms(5) by (simp add: started_def not_in_iff)
  then have count: "count (add_mset (a, i) (flight s)) p \<le> 1" for p
    using tasks by (auto simp: tasks_ok_def)
  have "tasks_ok (add_mset (a, i) (flight s)) (enqueue (a, i) s)"
    by (rule tasks_ok_write[OF tasks apps]) (use active_queue[OF act assms(4)] assms(2) tasks count in \<open>auto simp: tasks_ok_def\<close>)
  moreover have "lists_ok (enqueue (a, i) s)"
    by (rule lists_ok_write[OF lists apps assms(3) _ assms(2)]) simp_all
  ultimately show ?thesis by (simp add: dag_ok_def)
qed

section \<open>Streaming\<close>

text \<open>
  What the loops over the arrived applications leave in place: the lists, the sizes, and which
  nodes may start. They only start nodes.
\<close>

definition only_starts :: "drt \<Rightarrow> drt \<Rightarrow> bool" where
  "only_starts s s' \<longleftrightarrow> (\<forall>a. started (flight s) a \<subseteq> started (flight s') a) \<and>
     (\<forall>a app'. dapps s' a = Some app' \<longrightarrow> (\<exists>app. dapps s a = Some app \<and>
        (\<forall>k. mg.may_start app' (frames_at app') k = mg.may_start app (frames_at app) k)))"

definition same_lists :: "drt \<Rightarrow> drt \<Rightarrow> bool" where
  "same_lists s s' \<longleftrightarrow> arrived_streaming s' = arrived_streaming s \<and> arrived_nonstreaming s' = arrived_nonstreaming s \<and>
     unarrived_apps s' = unarrived_apps s \<and> completed_apps s' = completed_apps s \<and>
     (\<forall>a. map_option (\<lambda>app. length (nodes app)) (dapps s' a) = map_option (\<lambda>app. length (nodes app)) (dapps s a)) \<and>
     only_starts s s'"

definition settled :: "addr \<Rightarrow> nat \<Rightarrow> drt \<Rightarrow> bool" where
  "settled a k s \<longleftrightarrow> (\<forall>app. dapps s a = Some app \<and> mg.may_start app (frames_at app) k \<longrightarrow> k \<in> started (flight s) a)"

lemma only_starts_trans:
  assumes "only_starts s s1" and "only_starts s1 s2"
  shows "only_starts s s2"
  unfolding only_starts_def
proof (intro conjI allI impI)
  show "started (flight s) a \<subseteq> started (flight s2) a" for a using assms unfolding only_starts_def by blast
next
  fix a app2 assume "dapps s2 a = Some app2"
  with assms(2) obtain app1 where app1: "dapps s1 a = Some app1"
    and eq: "\<And>k. mg.may_start app2 (frames_at app2) k = mg.may_start app1 (frames_at app1) k"
    unfolding only_starts_def by blast
  from app1 assms(1) obtain app where "dapps s a = Some app"
    and "\<And>k. mg.may_start app1 (frames_at app1) k = mg.may_start app (frames_at app) k"
    unfolding only_starts_def by blast
  with eq show "\<exists>app. dapps s a = Some app \<and> (\<forall>k. mg.may_start app2 (frames_at app2) k = mg.may_start app (frames_at app) k)"
    by simp
qed

lemma settled_mono: "same_lists s s' \<Longrightarrow> settled a k s \<Longrightarrow> settled a k s'"
  unfolding same_lists_def only_starts_def settled_def by blast

lemma same_lists_refl [simp]: "same_lists s s"
  by (simp add: same_lists_def only_starts_def)

lemma same_lists_trans: "same_lists s s1 \<Longrightarrow> same_lists s1 s2 \<Longrightarrow> same_lists s s2"
  using only_starts_trans[of s s1 s2] by (simp add: same_lists_def)

lemma same_lists_enqueue:
  assumes "dapps s (fst p) = Some app"
  shows "same_lists s (enqueue p s)"
proof -
  have "only_starts s (enqueue p s)"
    unfolding only_starts_def dapps_enqueue[OF assms] flight_enqueue started_add
    using assms may_start_queue by auto
  then show ?thesis by (simp add: same_lists_def dapps_enqueue[OF assms] assms)
qed

lemma arrived_app:
  assumes "dag_ok s" and "a \<in> set (arrived s)"
  obtains app where "dapps s a = Some app" and "active a app (started (flight s) a)"
  using assms by (auto simp: dag_ok_def tasks_ok_def)

lemma active_bounded: "active a app F \<Longrightarrow> mg.bounded app (frames_at app)"
  by (simp add: active_def app_state_def mg.flow_def)

lemma frames_below_limit:
  assumes "wf_app a app" and "stream_enable app \<noteq> non_streaming"
  shows "iter t < word_of_int (max_stream_frame_count app) \<longleftrightarrow> frames t < frame_limit app"
proof -
  define m where "m = nat (max_stream_frame_count app)"
  have m: "max_stream_frame_count app = int m" "m < 2 ^ 31"
    using assms by (auto simp: wf_app_def mode_ok_def m_def nat_less_iff)
  then have "unat (word_of_int (max_stream_frame_count app) :: u64) = m"
    by (simp add: unat_of_nat take_bit_nat_eq_self)
  then show ?thesis using assms(2) by (simp add: word_less_nat_alt frames_def frame_limit_def m_def)
qed

lemma stream_node_ok:
  assumes ok: "dag_ok s" and a: "a \<in> set (arrived_streaming s)" and app: "dapps s a = Some app" and j: "j < length (nodes app)"
  shows "\<exists>s'. stream_node a j s = Inr s' \<and> dag_ok s' \<and> same_lists s s' \<and> settled a j s'"
proof -
  have arr: "a \<in> set (arrived s)" using a by (simp add: arrived_def)
  with arrived_app[OF ok] app have act: "active a app (started (flight s) a)" by (metis option.inject)
  have mode: "stream_enable app \<noteq> non_streaming" using ok a app by (simp add: dag_ok_def lists_ok_def)
  have wf: "wf_app a app" using act by (simp add: active_def)
  note preds = check_pred_comp_eq[OF app wf active_bounded[OF act] j]
  note succs = check_succ_comp_eq[OF app wf active_bounded[OF act] j]
  have node: "the_app s a = Inr app" "the_node s (a, j) = Inr (nodes app ! j)" using app j by (simp_all add: the_app_def)
  have queued: "in_ready_queue (nodes app ! j) \<longleftrightarrow> j \<in> started (flight s) a"
    using act j by (simp add: active_def app_state_def)
  show ?thesis
  proof (cases "j \<notin> started (flight s) a \<and> mg.may_start app (frames_at app) j")
    case True
    then have "stream_node a j s = Inr (enqueue (a, j) s)"
      using frames_below_limit[OF wf mode, of "nodes app ! j"] queued
      by (simp add: stream_node_def bindR_def node preds succs may_start_iff frames_at_def)
    moreover have "settled a j (enqueue (a, j) s)" by (simp add: settled_def)
    ultimately show ?thesis using dag_ok_enqueue[OF ok arr app] True same_lists_enqueue[of s "(a, j)" app] app by auto
  next
    case False
    then have "stream_node a j s = Inr s"
      using frames_below_limit[OF wf mode, of "nodes app ! j"] queued j
      by (auto simp: stream_node_def bindR_def node preds succs may_start_iff frames_at_def)
    moreover have "settled a j s" using False app unfolding settled_def by auto
    ultimately show ?thesis using ok by simp
  qed
qed

lemma stream_app_ok:
  assumes "dag_ok s" and "a \<in> set (arrived_streaming s)"
  shows "\<exists>s'. stream_app a s = Inr s' \<and> dag_ok s' \<and> same_lists s s' \<and> (\<forall>k. settled a k s')"
proof -
  from assms obtain app where app: "dapps s a = Some app" "active a app (started (flight s) a)"
    using arrived_app[OF assms(1), of a] by (auto simp: arrived_def)
  have count: "nat (task_count app) = length (nodes app)" using app(2) by (simp add: active_def wf_app_def)
  define I where "I k t \<longleftrightarrow> dag_ok t \<and> same_lists s t \<and> (\<forall>i<k. settled a i t)" for k t
  have "I 0 s" using assms(1) by (simp add: I_def)
  then have "\<exists>s'. foldR (stream_node a) [0..<length (nodes app)] s = Inr s' \<and> I (length [0..<length (nodes app)]) s'"
  proof (rule foldR_nth)
    fix k t assume k: "k < length [0..<length (nodes app)]" and t: "I k t"
    then have "map_option (\<lambda>app. length (nodes app)) (dapps t a) = Some (length (nodes app))"
      using app(1) by (simp add: same_lists_def I_def)
    then obtain app' where "dapps t a = Some app'" "k < length (nodes app')" using k by auto
    with stream_node_ok[of t a app' k] t assms(2) obtain t' where
      t': "stream_node a k t = Inr t'" "dag_ok t'" "same_lists t t'" "settled a k t'" by (auto simp: same_lists_def I_def)
    have "I (Suc k) t'"
      using t t' same_lists_trans[of s t t'] settled_mono[OF t'(3)] by (auto simp: I_def less_Suc_eq)
    with t'(1) k show "\<exists>t'. stream_node a ([0..<length (nodes app)] ! k) t = Inr t' \<and> I (Suc k) t'" by simp
  qed
  then obtain s' where run: "foldR (stream_node a) [0..<length (nodes app)] s = Inr s'" and I: "I (length (nodes app)) s'" by auto
  have "settled a k s'" for k
  proof (cases "k < length (nodes app)")
    case False
    have "map_option (\<lambda>app. length (nodes app)) (dapps s' a) = Some (length (nodes app))"
      using I app(1) by (simp add: same_lists_def I_def)
    with False show ?thesis by (auto simp: settled_def may_start_iff)
  qed (use I in \<open>simp add: I_def\<close>)
  with run I show ?thesis using app(1) count by (simp add: stream_app_def the_app_def bindR_def I_def)
qed

lemma streaming_phase_ok:
  assumes "dag_ok s"
  shows "\<exists>s'. streaming_phase s = Inr s' \<and> dag_ok s' \<and> same_lists s s' \<and> (\<forall>a \<in> set (arrived_streaming s). \<forall>k. settled a k s')"
proof -
  let ?as = "arrived_streaming s"
  define I where "I k t \<longleftrightarrow> dag_ok t \<and> same_lists s t \<and> (\<forall>i<k. \<forall>j. settled (?as ! i) j t)" for k t
  have "I 0 s" using assms by (simp add: I_def)
  then have "\<exists>s'. foldR stream_app ?as s = Inr s' \<and> I (length ?as) s'"
  proof (rule foldR_nth)
    fix k t assume k: "k < length ?as" and t: "I k t"
    then have "?as ! k \<in> set (arrived_streaming t)" by (simp add: same_lists_def I_def)
    with stream_app_ok[of t "?as ! k"] t obtain t' where
      t': "stream_app (?as ! k) t = Inr t'" "dag_ok t'" "same_lists t t'" "\<forall>j. settled (?as ! k) j t'" by (auto simp: I_def)
    have "I (Suc k) t'"
      using t t' same_lists_trans[of s t t'] settled_mono[OF t'(3)] by (auto simp: I_def less_Suc_eq)
    with t'(1) show "\<exists>t'. stream_app (?as ! k) t = Inr t' \<and> I (Suc k) t'" by blast
  qed
  then show ?thesis by (auto simp: streaming_phase_def I_def in_set_conv_nth)
qed

section \<open>Harvesting\<close>

text \<open>The invariant without the application \<open>a\<close>, and what is known of \<open>a\<close> while it is updated.\<close>

definition tasks_but :: "addr \<Rightarrow> task_ptr multiset \<Rightarrow> drt \<Rightarrow> bool" where
  "tasks_but a T s \<longleftrightarrow> (\<forall>p. count T p \<le> 1) \<and> (\<forall>p. p \<in># T \<longrightarrow> fst p \<in> set (arrived s)) \<and>
     (\<forall>b \<in> set (arrived s) - {a}. \<exists>app. dapps s b = Some app \<and> active b app (started T b))"

definition updating :: "addr \<Rightarrow> dag_app \<Rightarrow> drt \<Rightarrow> bool" where
  "updating a app s \<longleftrightarrow> tasks_but a (flight s) s \<and> lists_ok s \<and> a \<in> set (arrived s) \<and> dapps s a = Some app \<and>
     wf_app a app \<and> app_state app (started (flight s) a)"

lemma tasks_but_write:
  assumes "tasks_but a T s" and "dapps s' = (dapps s)(a \<mapsto> app)" and "set (arrived s') = set (arrived s)"
    and "\<And>b. b \<noteq> a \<Longrightarrow> started T' b = started T b" and "\<And>p. count T' p \<le> 1" and "\<And>p. p \<in># T' \<Longrightarrow> fst p \<in> set (arrived s)"
  shows "tasks_but a T' s'"
  using assms by (auto simp: tasks_but_def)

lemma updating_enqueue:
  assumes "updating a app s" and "mg.may_start app (frames_at app) j" and "j \<notin> started (flight s) a"
  shows "updating a (set_at app j queue_node) (enqueue (a, j) s)"
proof -
  have up: "tasks_but a (flight s) s" "lists_ok s" "a \<in> set (arrived s)" "dapps s a = Some app" "wf_app a app"
      "app_state app (started (flight s) a)"
    using assms(1) by (auto simp: updating_def)
  have apps: "dapps (enqueue (a, j) s) = (dapps s)(a \<mapsto> set_at app j queue_node)"
    using dapps_enqueue[of s "(a, j)" app] up(4) by simp
  have "count (flight s) (a, j) = 0" using assms(3) by (simp add: started_def not_in_iff)
  then have count: "count (add_mset (a, j) (flight s)) p \<le> 1" for p using up(1) by (auto simp: tasks_but_def)
  have "tasks_but a (add_mset (a, j) (flight s)) (enqueue (a, j) s)"
    by (rule tasks_but_write[OF up(1) apps]) (use count up(1,3) in \<open>auto simp: tasks_but_def\<close>)
  moreover have "lists_ok (enqueue (a, j) s)"
    by (rule lists_ok_write[OF up(2) apps up(4) _ up(3)]) simp_all
  ultimately show ?thesis
    using up(3,5) apps app_state_queue[OF up(6) assms(2)] wf_set_at[OF _ keeps_queue] by (simp add: updating_def)
qed

text \<open>Releasing the successors of a node that has just finished makes an application without streaming eager again.\<close>

lemma release_loop:
  assumes "updating a app s" and "stream_enable app = non_streaming"
    and "\<And>k. mg.may_start app (frames_at app) k \<Longrightarrow> k \<in> started (flight s) a \<or> Some k \<in> set ls"
    and "\<And>l. l \<in> set ls \<Longrightarrow> \<exists>j<length (nodes app). l = Some j \<and> frames_at app j = 0"
  shows "\<exists>app' s'. foldR (release_succ a) ls s = Inr s' \<and> updating a app' s' \<and> eager app' (started (flight s') a) \<and>
     stream_enable app' = non_streaming"
  using assms
proof (induction ls arbitrary: app s)
  case Nil
  then show ?case by (auto simp: eager_def)
next
  case (Cons l ls)
  have up: "dapps s a = Some app" "wf_app a app" "app_state app (started (flight s) a)"
    using Cons.prems(1) by (auto simp: updating_def)
  have bounded: "mg.bounded app (frames_at app)" using up(3) by (simp add: app_state_def mg.flow_def)
  from Cons.prems(4)[of l] obtain j where j: "j < length (nodes app)" "l = Some j" "frames_at app j = 0" by auto
  have limit: "frame_limit app = 1" "0 < buffers app" using Cons.prems(2) by (simp_all add: frame_limit_def buffers_def)
  have preds: "check_pred_comp s (a, j) non_streaming = Inr (inputs_ready app j)"
    using check_pred_comp_eq[OF up(1,2) bounded j(1)] Cons.prems(2) by simp
  have queued: "in_ready_queue (nodes app ! j) \<longleftrightarrow> j \<in> started (flight s) a" using up(3) j(1) by (simp add: app_state_def)
  have start: "mg.may_start app (frames_at app) j \<longleftrightarrow> inputs_ready app j"
    unfolding may_start_iff using j limit by (auto simp: outputs_free_def)
  show ?case
  proof (cases "inputs_ready app j \<and> j \<notin> started (flight s) a")
    case True
    have step: "release_succ a l s = Inr (enqueue (a, j) s)"
      using True preds queued up(1) j by (simp add: release_succ_def bindR_def)
    have "\<exists>app' s'. foldR (release_succ a) ls (enqueue (a, j) s) = Inr s' \<and> updating a app' s' \<and>
        eager app' (started (flight s') a) \<and> stream_enable app' = non_streaming"
    proof (rule Cons.IH)
      show "updating a (set_at app j queue_node) (enqueue (a, j) s)"
        using updating_enqueue[OF Cons.prems(1)] True start by simp
      show "stream_enable (set_at app j queue_node) = non_streaming" using Cons.prems(2) by simp
      show "k \<in> started (flight (enqueue (a, j) s)) a \<or> Some k \<in> set ls"
        if "mg.may_start (set_at app j queue_node) (frames_at (set_at app j queue_node)) k" for k
        using Cons.prems(3)[OF that[unfolded may_start_queue]] j(2) by auto
      show "\<exists>k<length (nodes (set_at app j queue_node)). m = Some k \<and> frames_at (set_at app j queue_node) k = 0"
        if "m \<in> set ls" for m
        using Cons.prems(4)[of m] that frames_queue[of _ app] by auto
    qed
    with step show ?thesis by (simp add: bindR_def)
  next
    case False
    have step: "release_succ a l s = Inr s"
      using False preds queued up(1) j by (auto simp: release_succ_def bindR_def)
    have "\<exists>app' s'. foldR (release_succ a) ls s = Inr s' \<and> updating a app' s' \<and>
        eager app' (started (flight s') a) \<and> stream_enable app' = non_streaming"
    proof (rule Cons.IH[OF Cons.prems(1,2)])
      show "k \<in> started (flight s) a \<or> Some k \<in> set ls" if "mg.may_start app (frames_at app) k" for k
        using Cons.prems(3)[OF that] False start that j(2) by auto
      show "\<exists>k<length (nodes app). m = Some k \<and> frames_at app k = 0" if "m \<in> set ls" for m
        using Cons.prems(4)[of m] that by simp
    qed
    with step show ?thesis by (simp add: bindR_def)
  qed
qed

lemma frames_finished:
  assumes "app_state app F" and "mode_ok app" and "i \<in> F" and "k < length (nodes app)"
  shows "frames_at (set_at app i finished) k = (if k = i then frames_at app i + 1 else frames_at app k)"
proof -
  have flow: "mg.flow app (frames_at app) F" using assms(1) by (simp add: app_state_def)
  from mg.flowD[OF flow assms(3)] have i: "i < length (nodes app)" by (simp add: may_start_iff)
  from flow have "frames (nodes app ! i) < 2 ^ 62"
    using frames_small[OF assms(2) _ i] by (simp add: mg.flow_def)
  then have "frames (finished (nodes app ! i)) = frames_at app i + 1"
    by (simp add: frames_def frames_at_def finished_def unat_word_ariths)
  with assms(4) show ?thesis by (simp add: frames_set_at)
qed

lemma newly_started:
  assumes st: "app_state app F" and mode: "mode_ok app" "stream_enable app = non_streaming" and "eager app F" and i: "i \<in> F"
    and k: "mg.may_start (set_at app i finished) (frames_at (set_at app i finished)) k"
  shows "k \<in> F - {i} \<or> (i, k) \<in> edges_of app"
proof (cases "(i, k) \<in> edges_of app")
  case False
  note fr = frames_finished[OF st mode(1) i]
  from k have kn: "k < length (nodes app)" and small: "frames_at (set_at app i finished) k < 1"
    and inputs: "\<And>j. (j, k) \<in> edges_of app \<Longrightarrow> frames_at (set_at app i finished) k < frames_at (set_at app i finished) j"
    using k[unfolded may_start_iff] mode(2) by (auto simp: inputs_ready_def linked_set_at(2) frame_limit_def)
  from small fr[OF kn] have ki: "k \<noteq> i" "frames_at app k = 0" by (auto split: if_splits)
  have "frames_at app k < frames_at app j" if "(j, k) \<in> edges_of app" for j
    using inputs[OF that] False that fr[OF kn] fr[of j] ki by (auto simp: edges_of_def split: if_splits)
  then have "mg.may_start app (frames_at app) k"
    unfolding may_start_iff using kn ki mode(2) by (auto simp: inputs_ready_def outputs_free_def frame_limit_def buffers_def)
  with assms(4) ki show ?thesis by (simp add: eager_def)
qed simp

text \<open>The end of an update: the application is completed or active again.\<close>

lemma updating_done:
  assumes up: "updating a app s" and "stream_enable app = non_streaming \<longrightarrow> eager app (started (flight s) a)"
  shows "dag_ok (if app_finished app then complete_app a app s else s)"
proof (cases "app_finished app")
  case False
  have "tasks_ok (flight s) s"
    unfolding tasks_ok_def
  proof (intro conjI allI impI ballI)
    fix b assume b: "b \<in> set (arrived s)"
    show "\<exists>app. dapps s b = Some app \<and> active b app (started (flight s) b)"
    proof (cases "b = a")
      case True
      with up False assms(2) show ?thesis by (auto simp: updating_def active_def)
    next
      case False
      with up b show ?thesis by (auto simp: updating_def tasks_but_def)
    qed
  qed (use up in \<open>auto simp: updating_def tasks_but_def\<close>)
  with up False show ?thesis by (simp add: updating_def dag_ok_def)
next
  case True
  let ?s = "complete_app a app s"
  have parts: "tasks_but a (flight s) s" "lists_ok s" "a \<in> set (arrived s)" "dapps s a = Some app" "wf_app a app"
    "app_state app (started (flight s) a)" using up by (auto simp: updating_def)
  have idle: "started (flight s) a = {}" by (rule app_finished_idle[OF parts(6,5) True])
  have "all_done a app" using app_finished_iff[OF parts(6,5)] parts(5) True by (simp add: all_done_def)
  have same: "dapps ?s = dapps s" "flight ?s = flight s" "unarrived_apps ?s = unarrived_apps s" "next_addr ?s = next_addr s"
    "applicationMap ?s = applicationMap s" "dpes ?s = dpes s" "completed_apps ?s = completed_apps s @ [a]"
    by (simp_all add: complete_app_def flight_def with_workers_def)
  have dist: "distinct (live s)" using parts(2) by (simp add: lists_ok_def)
  have lists: "set (arrived_nonstreaming ?s) = set (arrived_nonstreaming s) - {a}"
      "set (arrived_streaming ?s) = set (arrived_streaming s) - {a}"
    using parts(2,3,4) by (auto simp: complete_app_def lists_ok_def arrived_def)
  then have arr: "set (arrived ?s) = set (arrived s) - {a}" by (auto simp: arrived_def)
  have live: "set (live ?s) = set (live s)" using arr parts(3) same by (auto simp: live_def)
  have "distinct (live ?s)"
    using dist parts(2,3,4)
    by (auto simp: complete_app_def live_def arrived_def lists_ok_def)
  with parts(2,4) live same lists \<open>all_done a app\<close> have "lists_ok ?s" unfolding lists_ok_def by auto
  moreover have "tasks_ok (flight ?s) ?s"
    unfolding tasks_ok_def same arr
    using parts(1) idle by (auto simp: tasks_but_def started_def)
  ultimately show ?thesis using True by (simp add: dag_ok_def)
qed

text \<open>Taking the task from the worker and updating its node and application starts an update.\<close>

lemma harvest_updating:
  assumes ok: "dag_ok s" and i: "i < length (dpes s)" and comp: "completed_task_dequeue (dwt (dpes s ! i)) = p # rest"
    and app: "dapps s (fst p) = Some app"
  defines "s0 \<equiv> set_hw i ((dpes s ! i)\<lparr>dwt := (dwt (dpes s ! i))\<lparr>completed_task_dequeue := rest\<rparr>\<rparr>) s"
  defines "app1 \<equiv> count_task (set_at app (snd p) finished)"
  shows "updating (fst p) app1 (set_app (fst p) app1 s0)" and "started (flight (set_app (fst p) app1 s0)) (fst p) = started (flight s) (fst p) - {snd p}"
proof -
  have tasks: "tasks_ok (flight s) s" and lists: "lists_ok s" using ok by (auto simp: dag_ok_def)
  have p: "p \<in># flight s" using i comp by (intro held_flight) (auto simp: held_def)
  from tasks_okD[OF tasks p] app have arr: "fst p \<in> set (arrived s)" and act: "active (fst p) app (started (flight s) (fst p))"
    and mem: "snd p \<in> started (flight s) (fst p)" by (metis option.inject)+
  have "add_mset p (with_workers s0) = with_workers s"
    using with_workers_set_hw[OF i, of "(dpes s ! i)\<lparr>dwt := (dwt (dpes s ! i))\<lparr>completed_task_dequeue := rest\<rparr>\<rparr>"] comp
    by (simp add: s0_def held_def in_hand_def)
  then have "add_mset p (flight s0) = flight s" by (simp add: flight_def s0_def flip: union_mset_add_mset_right)
  then have fl0: "flight s0 = flight s - {#p#}" by (metis add_mset_remove_trivial)
  let ?s = "set_app (fst p) app1 s0"
  have fl: "flight ?s = flight s - {#p#}" by (simp add: fl0[symmetric]) (simp add: flight_def with_workers_def set_app_def)
  have le: "count (flight s) p \<le> 1" using tasks by (simp add: tasks_ok_def)
  show st: "started (flight ?s) (fst p) = started (flight s) (fst p) - {snd p}" using started_diff[OF le] fl by simp
  have apps: "dapps ?s = (dapps s)(fst p \<mapsto> app1)" by (simp add: set_app_def s0_def)
  have same: "arrived ?s = arrived s" "unarrived_apps ?s = unarrived_apps s" "arrived_nonstreaming ?s = arrived_nonstreaming s"
    "arrived_streaming ?s = arrived_streaming s" "completed_apps ?s = completed_apps s" "next_addr ?s = next_addr s"
    "applicationMap ?s = applicationMap s"
    by (simp_all add: set_app_def s0_def arrived_def set_hw_def)
  have names: "map (resource_name \<circ> dwt) (dpes ?s) = map (resource_name \<circ> dwt) (dpes s)"
    using i by (simp add: set_app_def s0_def set_hw_def map_update list_update_same_conv)
  have "tasks_but (fst p) (flight ?s) ?s"
    unfolding tasks_but_def fl same apps
  proof (intro conjI allI impI ballI)
    fix q show "count (flight s - {#p#}) q \<le> 1" using tasks by (auto simp: tasks_ok_def intro: le_trans[OF diff_le_self])
  next
    fix q assume "q \<in># flight s - {#p#}"
    then show "fst q \<in> set (arrived s)" using tasks by (auto simp: tasks_ok_def dest: in_diffD)
  next
    fix b assume b: "b \<in> set (arrived s) - {fst p}"
    then have "started (flight s - {#p#}) b = started (flight s) b" by (intro started_other) auto
    with b tasks show "\<exists>app. ((dapps s)(fst p \<mapsto> app1)) b = Some app \<and> active b app (started (flight s - {#p#}) b)"
      by (auto simp: tasks_ok_def)
  qed
  moreover have "lists_ok ?s"
    by (rule lists_ok_write[OF lists apps app _ arr same(2-7) names]) (simp add: app1_def)
  moreover have "wf_app (fst p) app1" using act wf_set_at[of "fst p" app finished] by (simp add: app1_def active_def)
  moreover have "app_state app1 (started (flight ?s) (fst p))"
    using act app_state_finish[of app "started (flight s) (fst p)" "snd p"] mem st
    by (simp add: app1_def active_def wf_app_def)
  ultimately show "updating (fst p) app1 ?s" using arr apps same by (simp add: updating_def)
qed

lemma updating_plain: "updating a app s \<Longrightarrow> plain_change s s' \<Longrightarrow> updating a app s'"
proof -
  assume up: "updating a app s" and ch: "plain_change s s'"
  then have "flight s' = flight s" "arrived s' = arrived s" "dapps s' = dapps s"
    by (simp_all add: plain_change_def flight_def with_workers_def arrived_def)
  moreover have "lists_ok s'"
    by (rule lists_ok_cong[of s]) (use up ch in \<open>simp_all add: updating_def plain_change_def, blast\<close>)
  ultimately show ?thesis using up by (simp add: updating_def tasks_but_def)
qed

lemma set_app_twice [simp]: "set_app a x (set_app a y s) = set_app a x s"
  by (simp add: set_app_def)

lemma the_app_set [simp]: "the_app (set_app a app s) a = Inr app"
  by (simp add: the_app_def set_app_def)

lemma harvest_one_eq:
  assumes i: "i < length (dpes s)" and comp: "completed_task_dequeue (dwt (dpes s ! i)) = p # rest"
    and app: "dapps s (fst p) = Some app" and k: "snd p < length (nodes app)"
    and owner: "app_pnt (nodes app ! snd p) = fst p"
    and names: "length (task_name (nodes app ! snd p)) < 50" "length (assigned_resource_name (nodes app ! snd p)) < 25"
  defines "s1 \<equiv> set_app (fst p) (count_task (set_at app (snd p) finished))
      (set_hw i ((dpes s ! i)\<lparr>dwt := (dwt (dpes s ! i))\<lparr>completed_task_dequeue := rest\<rparr>\<rparr>) s)"
  shows "\<exists>r. harvest_one i s = bindR (if stream_enable app = non_streaming
       then foldR (release_succ (fst p)) (succ (nodes app ! snd p)) (s1\<lparr>stream_timing_log := stream_timing_log s @ [r]\<rparr>)
       else Inr (s1\<lparr>stream_timing_log := stream_timing_log s @ [r]\<rparr>))
     (\<lambda>s. bindR (the_app s (fst p)) (\<lambda>app. Inr (if app_finished app then complete_app (fst p) app s else s)))"
proof -
  obtain a j where p: "p = (a, j)" by (cases p)
  let ?h = "(dpes s ! i)\<lparr>dwt := (dwt (dpes s ! i))\<lparr>completed_task_dequeue := rest\<rparr>\<rparr>"
  have a0: "dapps (set_hw i ?h s) a = Some app" using app by (simp add: p)
  have log: "stream_timing_log s1 = stream_timing_log s" by (simp add: s1_def set_app_def set_hw_def)
  have node: "the_node s1 (a, j) = Inr (finished (nodes app ! j))"
    using k by (simp add: s1_def p the_node_def node_at_def set_app_def rd_def set_at_nth)
  have fin: "task_name (finished t) = task_name t" "assigned_resource_name (finished t) = assigned_resource_name t"
    "succ (finished t) = succ t" "app_pnt (finished t) = app_pnt t" for t
    by (simp_all add: finished_def)
  show ?thesis
    unfolding p fst_conv snd_conv
    using i comp k[unfolded p fst_conv snd_conv] owner[unfolded p fst_conv snd_conv] names[unfolded p fst_conv snd_conv] a0 node log
    by (intro exI[of _ "log_record (count_task (set_at app j finished)) (finished (nodes app ! j))"])
       (simp add: harvest_one_def Let_def bindR_def p set_node_eq[OF a0] count_task_def[symmetric] s1_def[symmetric, simplified p] fin
         s1_def[symmetric, unfolded p fst_conv snd_conv] cong: sum.case_cong if_cong)
qed

lemma harvest_one_ok:
  assumes ok: "dag_ok s" and i: "i < length (dpes s)" and comp: "completed_task_dequeue (dwt (dpes s ! i)) \<noteq> []"
  shows "\<exists>s'. harvest_one i s = Inr s' \<and> dag_ok s'"
proof -
  obtain p rest where pr: "completed_task_dequeue (dwt (dpes s ! i)) = p # rest" using comp by (cases "completed_task_dequeue (dwt (dpes s ! i))") auto
  have tasks: "tasks_ok (flight s) s" using ok by (simp add: dag_ok_def)
  have p: "p \<in># flight s" using i pr by (intro held_flight) (auto simp: held_def)
  from tasks_okD[OF tasks p] obtain app where app: "dapps s (fst p) = Some app" "active (fst p) app (started (flight s) (fst p))"
    "snd p \<in> started (flight s) (fst p)" "snd p < length (nodes app)" by metis
  have st: "app_state app (started (flight s) (fst p))" and wf: "wf_app (fst p) app" using app(2) by (auto simp: active_def)
  have node: "node_ok (fst p) (length (nodes app)) (nodes app ! snd p)" using wf app(4) by (simp add: wf_app_def)
  let ?app = "count_task (set_at app (snd p) finished)"
  let ?s0 = "set_app (fst p) ?app (set_hw i ((dpes s ! i)\<lparr>dwt := (dwt (dpes s ! i))\<lparr>completed_task_dequeue := rest\<rparr>\<rparr>) s)"
  obtain r where eq: "harvest_one i s = bindR (if stream_enable app = non_streaming
       then foldR (release_succ (fst p)) (succ (nodes app ! snd p)) (?s0\<lparr>stream_timing_log := stream_timing_log s @ [r]\<rparr>)
       else Inr (?s0\<lparr>stream_timing_log := stream_timing_log s @ [r]\<rparr>))
     (\<lambda>s. bindR (the_app s (fst p)) (\<lambda>app. Inr (if app_finished app then complete_app (fst p) app s else s)))"
    using harvest_one_eq[OF i pr app(1,4)] node by (auto simp: node_ok_def)
  let ?s1 = "?s0\<lparr>stream_timing_log := stream_timing_log s @ [r]\<rparr>"
  have up: "updating (fst p) ?app ?s1"
    by (rule updating_plain[OF harvest_updating(1)[OF ok i pr app(1)]]) (simp add: plain_change_def)
  have st1: "started (flight ?s1) (fst p) = started (flight s) (fst p) - {snd p}"
    using harvest_updating(2)[OF ok i pr app(1)] by (simp add: flight_def with_workers_def)
  show ?thesis
  proof (cases "stream_enable app = non_streaming")
    case False
    then have "harvest_one i s = Inr (if app_finished ?app then complete_app (fst p) ?app ?s1 else ?s1)"
      using eq up by (simp add: bindR_def the_app_def updating_def)
    with updating_done[OF up] False show ?thesis by simp
  next
    case True
    have mode: "mode_ok app" using wf by (simp add: wf_app_def)
    have eag: "eager app (started (flight s) (fst p))" using app(2) True by (simp add: active_def)
    have flow: "mg.flow app (frames_at app) (started (flight s) (fst p))" using st by (simp add: app_state_def)
    from mg.flowD[OF flow app(3), unfolded may_start_iff] True have f0: "frames_at app (snd p) = 0"
      and noloop: "(snd p, snd p) \<notin> edges_of app" by (auto simp: frame_limit_def inputs_ready_def)
    have "\<exists>app' s'. foldR (release_succ (fst p)) (succ (nodes app ! snd p)) ?s1 = Inr s' \<and> updating (fst p) app' s' \<and>
        eager app' (started (flight s') (fst p)) \<and> stream_enable app' = non_streaming"
    proof (rule release_loop[OF up])
      show "stream_enable ?app = non_streaming" using True by simp
      show "k \<in> started (flight ?s1) (fst p) \<or> Some k \<in> set (succ (nodes app ! snd p))"
        if "mg.may_start ?app (frames_at ?app) k" for k
      proof -
        have "mg.may_start (set_at app (snd p) finished) (frames_at (set_at app (snd p) finished)) k"
          using that by simp
        from newly_started[OF st mode True eag app(3) this] st1 wf_links(4)[OF wf app(4)] show ?thesis by auto
      qed
      show "\<exists>j<length (nodes ?app). l = Some j \<and> frames_at ?app j = 0" if l: "l \<in> set (succ (nodes app ! snd p))" for l
      proof -
        from wf_links(2)[OF wf app(4)] l obtain j where j: "l = Some j" "j < length (nodes app)" by auto
        with l wf_links(4)[OF wf app(4)] have e: "(snd p, j) \<in> edges_of app" by simp
        with flow have "frames_at app j \<le> frames_at app (snd p)" unfolding mg.flow_def mg.bounded_def by blast
        with f0 have "frames_at app j = 0" by simp
        moreover have "j \<noteq> snd p" using e noloop by auto
        ultimately show ?thesis using j frames_finished[OF st mode app(3) j(2)] by simp
      qed
    qed
    then obtain app' s' where run: "foldR (release_succ (fst p)) (succ (nodes app ! snd p)) ?s1 = Inr s'"
      "updating (fst p) app' s'" "eager app' (started (flight s') (fst p))" by auto
    then have "harvest_one i s = Inr (if app_finished app' then complete_app (fst p) app' s' else s')"
      using eq True by (simp add: bindR_def the_app_def updating_def)
    with updating_done[OF run(2)] run(3) show ?thesis by simp
  qed
qed

section \<open>Arrival\<close>

text \<open>
  An arriving application after its first \<open>m\<close> nodes have been looked at: the nodes \<open>L\<close> are
  queued, and no other of them may start.
\<close>

definition arriving :: "addr \<Rightarrow> dag_app \<Rightarrow> nat \<Rightarrow> nat list \<Rightarrow> bool" where
  "arriving a app m L \<longleftrightarrow> wf_app a app \<and> app_state app (set L) \<and> distinct L \<and> set L \<subseteq> {..<m} \<and>
     (\<forall>i<m. mg.may_start app (frames_at app) i \<longrightarrow> i \<in> set L) \<and>
     (\<forall>i<length (nodes app). frames_at app i = 0 \<and> \<not> complete_flag (nodes app ! i) \<and> \<not> running_flag (nodes app ! i))"

definition with_arriving :: "addr \<Rightarrow> dag_app \<Rightarrow> nat list \<Rightarrow> drt \<Rightarrow> drt" where
  "with_arriving a app L s = s\<lparr>dapps := (dapps s)(a \<mapsto> app), ready_queue := ready_queue s @ map (Pair a) L\<rparr>"

lemma enqueue_with_arriving:
  "enqueue (a, i) (with_arriving a app L s) = with_arriving a (set_at app i queue_node) (L @ [i]) s"
  by (simp add: enqueue_def with_arriving_def set_node_def set_app_def set_at_def)

lemma arriving_may_start:
  assumes "arriving a app m L" and "i < length (nodes app)"
  shows "mg.may_start app (frames_at app) i \<longleftrightarrow> inputs_ready app i"
proof -
  have "mode_ok app" using assms(1) by (simp add: arriving_def wf_app_def)
  then have "frames_at app i < frame_limit app" using frame_limit_bounds(1) assms by (simp add: arriving_def)
  moreover have "outputs_free app i"
    using assms by (auto simp: outputs_free_def arriving_def buffers_def)
  ultimately show ?thesis using assms(2) by (simp add: may_start_iff)
qed

lemma arrive_node_step:
  assumes arr: "arriving a app m L" and m: "m < length (nodes app)"
  shows "\<exists>app' L'. arrive_node a (stream_enable app) m (with_arriving a app L s) = Inr (with_arriving a app' L' s) \<and>
    arriving a app' (Suc m) L' \<and> length (nodes app') = length (nodes app) \<and> stream_enable app' = stream_enable app"
proof -
  let ?s = "with_arriving a app L s"
  have app: "dapps ?s a = Some app" by (simp add: with_arriving_def)
  have wf: "wf_app a app" and st: "app_state app (set L)" using arr by (auto simp: arriving_def)
  have bounded: "mg.bounded app (frames_at app)" using st by (simp add: app_state_def mg.flow_def)
  note preds = check_pred_comp_eq[OF app wf bounded m]
  have flags: "\<not> complete_flag (nodes app ! m)" "\<not> running_flag (nodes app ! m)" using arr m by (auto simp: arriving_def)
  have mL: "m \<notin> set L" using arr by (auto simp: arriving_def)
  show ?thesis
  proof (cases "inputs_ready app m")
    case True
    with arriving_may_start[OF arr m] have start: "mg.may_start app (frames_at app) m" by simp
    have "arriving a (set_at app m queue_node) (Suc m) (L @ [m])"
      unfolding arriving_def
    proof (intro conjI allI impI)
      show "wf_app a (set_at app m queue_node)" by (rule wf_set_at[OF wf keeps_queue])
      show "app_state (set_at app m queue_node) (set (L @ [m]))" using app_state_queue[OF st start] by simp
      show "distinct (L @ [m])" "set (L @ [m]) \<subseteq> {..<Suc m}" using arr mL by (auto simp: arriving_def)
      fix i assume "i < Suc m" "mg.may_start (set_at app m queue_node) (frames_at (set_at app m queue_node)) i"
      then show "i \<in> set (L @ [m])" using arr unfolding may_start_queue by (auto simp: arriving_def less_Suc_eq)
    next
      fix i assume "i < length (nodes (set_at app m queue_node))"
      then have i: "i < length (nodes app)" by simp
      show "frames_at (set_at app m queue_node) i = 0" using i arr by (simp add: frames_queue arriving_def)
      show "\<not> complete_flag (nodes (set_at app m queue_node) ! i)" "\<not> running_flag (nodes (set_at app m queue_node) ! i)"
        using i arr by (auto simp: set_at_nth arriving_def)
    qed
    moreover have "arrive_node a (stream_enable app) m ?s = Inr (with_arriving a (set_at app m queue_node) (L @ [m]) s)"
      using preds True flags app m by (simp add: arrive_node_def bindR_def enqueue_with_arriving)
    ultimately show ?thesis by (intro exI[of _ "set_at app m queue_node"] exI[of _ "L @ [m]"]) simp
  next
    case False
    then have "arrive_node a (stream_enable app) m ?s = Inr ?s"
      using preds app m by (simp add: arrive_node_def bindR_def)
    moreover have "arriving a app (Suc m) L"
      using arr False arriving_may_start[OF arr m] by (auto simp: arriving_def less_Suc_eq)
    ultimately show ?thesis by (intro exI[of _ app] exI[of _ L]) simp
  qed
qed

lemma arrive_loop:
  assumes "arriving a app m L" and "m \<le> length (nodes app)"
  shows "\<exists>app' L'. foldR (arrive_node a (stream_enable app)) [m..<length (nodes app)] (with_arriving a app L s) = Inr (with_arriving a app' L' s) \<and>
    arriving a app' (length (nodes app')) L' \<and> stream_enable app' = stream_enable app"
  using assms
proof (induction "length (nodes app) - m" arbitrary: app m L)
  case 0
  then have "m = length (nodes app)" by simp
  then show ?case using 0 by (intro exI[of _ app] exI[of _ L]) simp
next
  case (Suc n)
  then have m: "m < length (nodes app)" by simp
  from arrive_node_step[OF Suc.prems(1) m] obtain app1 L1 where
    step: "arrive_node a (stream_enable app) m (with_arriving a app L s) = Inr (with_arriving a app1 L1 s)"
    and arr: "arriving a app1 (Suc m) L1" and len: "length (nodes app1) = length (nodes app)" and se: "stream_enable app1 = stream_enable app"
    by blast
  have "n = length (nodes app1) - Suc m" "Suc m \<le> length (nodes app1)" using Suc.hyps(2) len m by auto
  from Suc.hyps(1)[OF this(1) arr this(2)] obtain app' L' where
    "foldR (arrive_node a (stream_enable app1)) [Suc m..<length (nodes app1)] (with_arriving a app1 L1 s) = Inr (with_arriving a app' L' s)"
    "arriving a app' (length (nodes app')) L'" "stream_enable app' = stream_enable app1" by blast
  with step len se m show ?case by (simp add: upt_conv_Cons bindR_def) blast
qed

lemma fresh_arriving: "wf_app a app \<Longrightarrow> fresh_app app \<Longrightarrow> arriving a app 0 []"
  using fresh_app_state[of app] by (auto simp: arriving_def fresh_app_def fresh_node_def frames_at_def frames_def)

lemma started_map: "started (T + mset (map (Pair a) L)) b = (if b = a then started T a \<union> set L else started T b)"
  by (auto simp: started_def)

lemma arriving_active:
  assumes "arriving a app (length (nodes app)) L"
  shows "active a app (set L)"
proof -
  have wf: "wf_app a app" and st: "app_state app (set L)" using assms by (auto simp: arriving_def)
  have "\<not> app_finished app" if "nodes app \<noteq> []"
    using that app_finished_iff[OF st wf] assms frame_limit_bounds(1)[of app] wf
    by (auto simp: arriving_def wf_app_def)
  moreover have "eager app (set L)" using assms by (auto simp: eager_def arriving_def may_start_iff)
  ultimately show ?thesis using wf st by (simp add: active_def)
qed

lemma dag_arrive_app_ok:
  assumes ok: "dag_ok s" and a: "a \<in> set (unarrived_apps s)" and app: "dapps s a = Some app"
  shows "\<exists>s'. arrive_app a app s = Inr s' \<and> dag_ok s'"
proof -
  have tasks: "tasks_ok (flight s) s" and lists: "lists_ok s" using ok by (auto simp: dag_ok_def)
  have wf: "wf_app a app" and fresh: "fresh_app app" using lists a app by (auto simp: lists_ok_def)
  have count: "nat (task_count app) = length (nodes app)" using wf by (simp add: wf_app_def)
  have init: "with_arriving a app [] s = s" using app by (simp add: with_arriving_def fun_upd_idem)
  from arrive_loop[OF fresh_arriving[OF wf fresh], of s] init obtain app' L where
    loop: "foldR (arrive_node a (stream_enable app)) [0..<length (nodes app)] s = Inr (with_arriving a app' L s)"
    and arr: "arriving a app' (length (nodes app')) L" and se: "stream_enable app' = stream_enable app" by auto
  define t where "t = (with_arriving a app' L s)\<lparr>unarrived_apps := remove1 a (unarrived_apps s)\<rparr>"
  define s' where "s' = (if 0 < stream_num (stream_enable app) then t\<lparr>arrived_streaming := arrived_streaming s @ [a]\<rparr>
      else t\<lparr>arrived_nonstreaming := arrived_nonstreaming s @ [a]\<rparr>)"
  have run: "arrive_app a app s = Inr s'"
    using loop by (simp add: arrive_app_def count bindR_def s'_def t_def Let_def) (simp add: with_arriving_def)
  have stream: "0 < stream_num (stream_enable app) \<longleftrightarrow> stream_enable app \<noteq> non_streaming" by (cases "stream_enable app") simp_all
  have sel: "dapps s' = (dapps s)(a \<mapsto> app')" "dpes s' = dpes s" "completed_apps s' = completed_apps s" "next_addr s' = next_addr s"
      "applicationMap s' = applicationMap s" "unarrived_apps s' = remove1 a (unarrived_apps s)"
      "ready_queue s' = ready_queue s @ map (Pair a) L"
    by (simp_all add: s'_def t_def with_arriving_def)
  have arrs: "arrived_streaming s' = (if stream_enable app \<noteq> non_streaming then arrived_streaming s @ [a] else arrived_streaming s)"
      "arrived_nonstreaming s' = (if stream_enable app \<noteq> non_streaming then arrived_nonstreaming s else arrived_nonstreaming s @ [a])"
    by (simp_all add: s'_def t_def with_arriving_def stream)
  have dist: "distinct (live s)" using lists by (simp add: lists_ok_def)
  then have new: "a \<notin> set (arrived s)" "a \<notin> set (completed_apps s)" using a by (auto simp: live_def)
  have arrset: "set (arrived s') = insert a (set (arrived s))" using arrs by (auto simp: arrived_def)
  have unset: "set (unarrived_apps s') = set (unarrived_apps s) - {a}" using dist sel(6) by (simp add: live_def)
  have live: "set (live s') = set (live s)" using arrset unset a sel(3) by (auto simp: live_def)
  have fl: "flight s' = flight s + mset (map (Pair a) L)"
    by (simp add: flight_def with_workers_def sel(2,7))
  have none: "started (flight s) a = {}" using tasks new by (auto simp: tasks_ok_def started_def)
  have "tasks_ok (flight s') s'"
    unfolding tasks_ok_def
  proof (intro conjI allI impI ballI)
    fix p
    have "count (mset (map (Pair a) L)) p \<le> 1"
    proof -
      have "distinct (map (Pair a) L)" using arr by (simp add: arriving_def distinct_map inj_on_def)
      then show ?thesis by (simp add: distinct_count_atmost_1 count_mset del: mset_map)
    qed
    moreover have "count (flight s) p = 0" if "p \<in> set (map (Pair a) L)"
      using none that by (auto simp: started_def not_in_iff)
    moreover have "count (flight s) p \<le> 1" using tasks by (simp add: tasks_ok_def)
    moreover have "count (mset (map (Pair a) L)) p = 0" if "p \<notin> set (map (Pair a) L)"
      using that by (simp only: count_mset_0_iff not_False_eq_True)
    ultimately show "count (flight s') p \<le> 1"
      unfolding fl count_union by (cases "p \<in> set (map (Pair a) L)") linarith+
  next
    fix p assume "p \<in># flight s'"
    then show "fst p \<in> set (arrived s')" using tasks arrset by (auto simp: fl tasks_ok_def)
  next
    fix b assume "b \<in> set (arrived s')"
    then show "\<exists>app. dapps s' b = Some app \<and> active b app (started (flight s') b)"
      unfolding fl started_map sel using tasks arrset arriving_active[OF arr] none new by (auto simp: tasks_ok_def)
  qed
  moreover have "lists_ok s'"
  proof -
    have distinct: "distinct (live s')" using dist a new by (auto simp: live_def arrived_def arrs sel)
    have "a \<notin> ran (applicationMap s) \<or> a = 0" using lists a by (auto simp: lists_ok_def live_def)
    then have protos: "\<exists>app. dapps s' b = Some app \<and> proto_ok app" if "b \<in> ran (applicationMap s')" "b \<noteq> 0" for b
      using lists that sel(1,5) by (auto simp: lists_ok_def)
    have nonstream: "stream_enable c = non_streaming" if "b \<in> set (arrived_nonstreaming s')" "dapps s' b = Some c" for b c
      using that lists new se arrs(2) sel(1) by (auto simp: lists_ok_def arrived_def split: if_splits)
    have stream: "stream_enable c \<noteq> non_streaming" if "b \<in> set (arrived_streaming s')" "dapps s' b = Some c" for b c
      using that lists new se arrs(1) sel(1) by (auto simp: lists_ok_def arrived_def split: if_splits)
    have dom: "dom (dapps s') = dom (dapps s)" using sel(1) app by auto
    have waiting: "\<exists>c. dapps s' b = Some c \<and> wf_app b c \<and> fresh_app c" if "b \<in> set (unarrived_apps s')" for b
      using that lists unset sel(1) by (auto simp: lists_ok_def)
    have completed: "\<exists>c. dapps s' b = Some c \<and> all_done b c" if "b \<in> set (completed_apps s')" for b
      using that lists new sel(1,3) by (auto simp: lists_ok_def)
    show ?thesis
      unfolding lists_ok_def
      by (intro conjI ballI allI impI distinct; (rule nonstream stream waiting completed protos, assumption+)?)
         (use lists in \<open>auto simp: lists_ok_def dom live sel(2,4,5)\<close>)
  qed
  ultimately show ?thesis using run by (auto simp: dag_ok_def)
qed

lemma dag_arrive_due_ok:
  assumes "dag_env_ok V" and "dag_ok s"
  shows "\<exists>s'. arrive_due n V t s = Inr s' \<and> dag_ok s'"
  using assms(2)
proof (induction n arbitrary: s)
  case (Suc n)
  show ?case
  proof (cases "unarrived_apps s = []")
    case False
    let ?a = "pq_top V (arrival_of s) (unarrived_apps s)"
    have a: "?a \<in> set (unarrived_apps s)" using assms(1) False by (simp add: dag_env_ok_def)
    with Suc.prems obtain app where app: "dapps s ?a = Some app" by (auto simp: dag_ok_def lists_ok_def)
    from dag_arrive_app_ok[OF Suc.prems a app] obtain s1 where s1: "arrive_app ?a app s = Inr s1" "dag_ok s1" by blast
    from Suc.IH[OF s1(2)] Suc.prems s1(1) app False show ?thesis
      by (auto simp: Let_def the_app_def bindR_def)
  qed (use Suc in simp)
qed simp

lemma dag_arrivals_ok:
  assumes "dag_env_ok V" and "dag_ok s"
  shows "\<exists>s'. arrivals V s = Inr s' \<and> dag_ok s'"
proof -
  obtain t s1 where t: "tick s = (t, s1)" by (cases "tick s")
  from dag_arrive_due_ok[OF assms(1) dag_ok_plain[OF assms(2) plain_tick[OF t]]] t show ?thesis by (simp add: arrivals_def)
qed

section \<open>Freeing\<close>

lemma free_loop:
  "distinct as \<Longrightarrow> (\<And>a. a \<in> set as \<Longrightarrow> dapps s a \<noteq> None) \<Longrightarrow>
   foldR free_app as s = Inr (s\<lparr>dapps := (dapps s) |` (- set as)\<rparr>)"
proof (induction as arbitrary: s)
  case (Cons a as)
  from Cons.prems(2)[of a] have a: "dapps s a \<noteq> None" by simp
  let ?s = "s\<lparr>dapps := (dapps s)(a := None)\<rparr>"
  have "foldR free_app as ?s = Inr (?s\<lparr>dapps := (dapps ?s) |` (- set as)\<rparr>)"
    by (rule Cons.IH) (use Cons.prems in auto)
  moreover have "((dapps s)(a := None)) |` (- set as) = (dapps s) |` (- set (a # as))"
    by (auto simp: restrict_map_def fun_eq_iff)
  moreover have "free_app a s = Inr ?s" using a by (simp add: free_app_def)
  ultimately show ?case by (simp add: bindR_def)
qed (simp add: restrict_map_def)

lemma free_completed_ok:
  assumes ok: "dag_ok s"
  shows "\<exists>s'. free_completed s = Inr s' \<and> dag_ok s'"
proof -
  have tasks: "tasks_ok (flight s) s" and lists: "lists_ok s" using ok by (auto simp: dag_ok_def)
  let ?s = "s\<lparr>dapps := (dapps s) |` (- set (completed_apps s)), completed_apps := []\<rparr>"
  have run: "free_completed s = Inr ?s"
    using free_loop[of "completed_apps s" s] lists by (fastforce simp: free_completed_def lists_ok_def live_def)
  have keep: "dapps ?s a = dapps s a" if "a \<in> set (unarrived_apps s) \<union> set (arrived s)" for a
    using lists that by (auto simp: restrict_map_def lists_ok_def live_def)
  have fl: "flight ?s = flight s" and arr: "arrived ?s = arrived s" by (simp_all add: flight_def with_workers_def arrived_def)
  have "tasks_ok (flight ?s) ?s"
    unfolding tasks_ok_def fl arr using tasks keep by (auto simp: tasks_ok_def)
  moreover have "lists_ok ?s"
  proof -
    have live: "live ?s = unarrived_apps s @ arrived s" by (simp add: live_def arr)
    have "distinct (live ?s)" using lists unfolding live by (auto simp: lists_ok_def live_def)
    moreover have "\<exists>app. dapps ?s a = Some app \<and> proto_ok app" and "a \<notin> set (live ?s)"
      if "a \<in> ran (applicationMap s)" "a \<noteq> 0" for a
      using lists that unfolding live by (auto simp: lists_ok_def live_def restrict_map_def)
    ultimately show ?thesis
      using lists keep unfolding lists_ok_def
      by (auto simp: arrived_def restrict_map_def split: if_splits)
  qed
  ultimately show ?thesis using run by (auto simp: dag_ok_def)
qed

section \<open>Injection\<close>

lemma map_sum_Inr: "map_sum f g x = Inr y \<longleftrightarrow> (\<exists>z. x = Inr z \<and> y = g z)"
  by (cases x) auto

lemma mapR_Inr: "mapR f xs = Inr ys \<Longrightarrow> length ys = length xs \<and> (\<forall>i<length xs. f (xs ! i) = Inr (ys ! i))"
proof (induction xs arbitrary: ys)
  case (Cons x xs)
  then obtain y ys' where "f x = Inr y" "mapR f xs = Inr ys'" "ys = y # ys'"
    by (auto simp: bindR_eq_Inr map_sum_Inr)
  with Cons.IH[of ys'] show ?case by (auto simp: nth_Cons split: nat.splits)
qed simp

text \<open>Copying variables allocates memory and changes nothing else.\<close>

definition allocates :: "drt \<Rightarrow> drt \<Rightarrow> bool" where
  "allocates s s' \<longleftrightarrow> next_addr s \<le> next_addr s' \<and> s'\<lparr>blocks := blocks s, next_addr := next_addr s\<rparr> = s"

lemma allocates_refl [simp]: "allocates s s"
  by (simp add: allocates_def)

lemma allocates_trans: "allocates s s1 \<Longrightarrow> allocates s1 s2 \<Longrightarrow> allocates s s2"
proof -
  assume 1: "allocates s s1" and 2: "allocates s1 s2"
  have "s2\<lparr>blocks := blocks s, next_addr := next_addr s\<rparr> =
      (s2\<lparr>blocks := blocks s1, next_addr := next_addr s1\<rparr>)\<lparr>blocks := blocks s, next_addr := next_addr s\<rparr>" by simp
  also have "\<dots> = s" using 1 2 by (simp add: allocates_def)
  finally show ?thesis using 1 2 by (simp add: allocates_def)
qed

lemma allocates_blocks: "allocates s s1 \<Longrightarrow> allocates s (s1\<lparr>blocks := b\<rparr>)"
  by (simp add: allocates_def)

lemma allocates_alloc: "allocates s s0 \<Longrightarrow> alloc_block x s0 = (a, s1) \<Longrightarrow> allocates s s1"
  by (auto simp: allocates_def alloc_block_def)

lemma copy_variable_allocates: "copy_variable v s = Inr (v', s') \<Longrightarrow> allocates s s'"
  by (cases v)
     (auto simp: copy_variable_def Let_def split: prod.splits if_splits option.splits
        intro: allocates_blocks allocates_alloc[OF allocates_refl] allocates_alloc)

lemma copy_variables_allocates: "copy_variables vs s = Inr (vs', s') \<Longrightarrow> allocates s s'"
proof (induction vs arbitrary: s vs' s')
  case (Cons v vs)
  then obtain v1 s1 vs1 where "copy_variable v s = Inr (v1, s1)" "copy_variables vs s1 = Inr (vs1, s')"
    by (auto simp: bindR_eq_Inr map_sum_Inr)
  with Cons.IH copy_variable_allocates allocates_trans show ?case by blast
qed simp

text \<open>The node of an instance: the description of the prototype's node, with the same links.\<close>

lemma copy_node_Inr:
  assumes "copy_node a ns vars i = Inr t" and i: "i < length ns"
    and ids: "\<And>j. j < length ns \<Longrightarrow> task_id (ns ! j) = int j"
    and links: "\<And>l. l \<in> set (pred (ns ! i)) \<union> set (succ (ns ! i)) \<Longrightarrow> \<exists>j<length ns. l = Some j"
  shows "pred t = pred (ns ! i)" "succ t = succ (ns ! i)" "app_pnt t = a" "task_id t = int i" "task_name t = task_name (ns ! i)"
    "assigned_resource_name t = assigned_resource_name (ns ! i)" "in_ready_queue t = False" "iter t = 0"
proof -
  have rd: "rd ns i = Some (ns ! i)" using i by (simp add: rd_def)
  from assms(1) obtain ps ss as where ps: "mapR (copy_link ns) (pred (ns ! i)) = Inr ps"
    and ss: "mapR (copy_link ns) (succ (ns ! i)) = Inr ss"
    and t: "t = (task_assign null_node (ns ! i))\<lparr>pred := ps, succ := ss, args := as, app_pnt := a\<rparr>"
    by (auto simp: copy_node_def rd bindR_eq_Inr)
  have link: "copy_link ns (Some j) = Inr (Some j)" if "j < length ns" for j
    using that ids[OF that] by (simp add: copy_link_def rd_def)
  have "ls' = ls" if m: "mapR (copy_link ns) ls = Inr ls'" and sub: "set ls \<subseteq> set (pred (ns ! i)) \<union> set (succ (ns ! i))" for ls ls'
  proof (rule nth_equalityI)
    show "length ls' = length ls" using mapR_Inr[OF m] by simp
    fix k assume "k < length ls'"
    then have k: "k < length ls" using mapR_Inr[OF m] by simp
    then obtain j where j: "j < length ns" "ls ! k = Some j" using links[of "ls ! k"] sub nth_mem[OF k] by blast
    have "copy_link ns (ls ! k) = Inr (ls' ! k)" using mapR_Inr[OF m] k by simp
    with j link[OF j(1)] show "ls' ! k = ls ! k" by simp
  qed
  with ps ss show "pred t = pred (ns ! i)" "succ t = succ (ns ! i)" by (simp_all add: t task_assign_def)
  show "app_pnt t = a" "task_id t = int i" "task_name t = task_name (ns ! i)"
    "assigned_resource_name t = assigned_resource_name (ns ! i)" "in_ready_queue t = False" "iter t = 0"
    using ids[OF i] by (simp_all add: t task_assign_def null_node_def)
qed

lemma app_assign_Inr:
  assumes "app_assign a other s = Inr (app, s')" and "proto_ok other"
  shows "allocates s s'" "length (nodes app) = length (nodes other)" "task_count app = task_count other"
    "stream_enable app = stream_enable other" "max_stream_frame_count app = max_stream_frame_count other"
    "\<And>i. i < length (nodes other) \<Longrightarrow> pred (nodes app ! i) = pred (nodes other ! i) \<and> succ (nodes app ! i) = succ (nodes other ! i) \<and>
       app_pnt (nodes app ! i) = a \<and> task_id (nodes app ! i) = int i \<and> task_name (nodes app ! i) = task_name (nodes other ! i) \<and>
       assigned_resource_name (nodes app ! i) = assigned_resource_name (nodes other ! i)"
proof -
  from assms(1) obtain vars ns where vars: "copy_variables (variables other) s = Inr (vars, s')"
    and ns: "mapR (copy_node a (nodes other) vars) [0..<nat (task_count other)] = Inr ns"
    and app: "app = null_dag\<lparr>app_id := app_id other, task_count := task_count other, arrival_time := arrival_time other,
        dlhandle := dlhandle other, stream_enable := stream_enable other, max_stream_frame_count := max_stream_frame_count other,
        app_name := take 49 (app_name other), variables := vars, head_nodes := ns\<rparr>"
    by (auto simp: app_assign_def bindR_eq_Inr)
  have n: "nat (task_count other) = length (nodes other)" using assms(2) by (simp add: proto_ok_def)
  show "allocates s s'" by (rule copy_variables_allocates[OF vars])
  show "length (nodes app) = length (nodes other)" using mapR_Inr[OF ns] by (simp add: app n)
  show "task_count app = task_count other" "stream_enable app = stream_enable other"
    "max_stream_frame_count app = max_stream_frame_count other" by (simp_all add: app)
  fix i assume i: "i < length (nodes other)"
  have node: "copy_node a (nodes other) vars i = Inr (nodes app ! i)" using mapR_Inr[OF ns] i by (simp add: app n)
  show "pred (nodes app ! i) = pred (nodes other ! i) \<and> succ (nodes app ! i) = succ (nodes other ! i) \<and>
       app_pnt (nodes app ! i) = a \<and> task_id (nodes app ! i) = int i \<and> task_name (nodes app ! i) = task_name (nodes other ! i) \<and>
       assigned_resource_name (nodes app ! i) = assigned_resource_name (nodes other ! i)"
    using copy_node_Inr[OF node i] assms(2) i by (auto simp: proto_ok_def)
qed

lemma reset_sel [simp]:
  "pred (reset_node n t) = pred t" "succ (reset_node n t) = succ t" "app_pnt (reset_node n t) = app_pnt t"
  "task_name (reset_node n t) = task_name t" "assigned_resource_name (reset_node n t) = assigned_resource_name t"
  "fresh_node (reset_node n t)"
  by (simp_all add: reset_node_def fresh_node_def)

text \<open>A fresh instance of a good prototype, as a new waiting application.\<close>

lemma instance_ok:
  fixes n :: int and t :: u64
  assumes "app_assign a other s = Inr (app, s')" and "proto_ok other"
  defines "new \<equiv> app\<lparr>app_id := n, completed_task_count := 0, arrival_time := t, head_nodes := map (reset_node n) (nodes app)\<rparr>"
  shows "wf_app a new" and "fresh_app new"
proof -
  note spec = app_assign_Inr[OF assms(1,2)]
  have len: "length (nodes new) = length (nodes other)" using spec(2) by (simp add: new_def)
  have node: "pred (nodes new ! i) = pred (nodes other ! i)" "succ (nodes new ! i) = succ (nodes other ! i)"
      "app_pnt (nodes new ! i) = a" "task_name (nodes new ! i) = task_name (nodes other ! i)"
      "assigned_resource_name (nodes new ! i) = assigned_resource_name (nodes other ! i)" if "i < length (nodes other)" for i
    using spec(6)[OF that] that spec(2) by (simp_all add: new_def)
  have "node_ok a (length (nodes new)) (nodes new ! i)" if "i < length (nodes new)" for i
    using assms(2) node that len by (simp add: node_ok_def proto_ok_def)
  then have "\<forall>t \<in> set (nodes new). node_ok a (length (nodes new)) t" by (auto simp: in_set_conv_nth)
  moreover have "linked (nodes new)" using assms(2) node len by (simp add: linked_def proto_ok_def)
  moreover have "task_count new = int (length (nodes new))" using spec(3) assms(2) len by (simp add: new_def proto_ok_def)
  moreover have "mode_ok new" using spec(4,5) assms(2) by (simp add: new_def proto_ok_def mode_ok_def)
  ultimately show "wf_app a new" by (simp add: wf_app_def)
  show "fresh_app new" by (auto simp: fresh_app_def new_def)
qed

lemma dag_ok_new:
  fixes n :: int
  assumes ok: "dag_ok s" and wf: "wf_app (next_addr s) app" "fresh_app app" and le: "next_addr s < next_addr s1"
    and sh: "plain_change s (s1\<lparr>next_addr := next_addr s\<rparr>)"
  defines "s' \<equiv> (set_app (next_addr s) app s1)\<lparr>appNum := n, unarrived_apps := unarrived_apps s1 @ [next_addr s]\<rparr>"
  shows "dag_ok s'"
proof -
  let ?a = "next_addr s"
  have tasks: "tasks_ok (flight s) s" and lists: "lists_ok s" using ok by (auto simp: dag_ok_def)
  have sel: "dapps s' = (dapps s)(?a \<mapsto> app)" "ready_queue s' = ready_queue s" "dpes s' = dpes s" "unarrived_apps s' = unarrived_apps s @ [?a]"
      "arrived_nonstreaming s' = arrived_nonstreaming s" "arrived_streaming s' = arrived_streaming s"
      "completed_apps s' = completed_apps s" "next_addr s' = next_addr s1" "applicationMap s' = applicationMap s"
    using sh by (simp_all add: s'_def set_app_def plain_change_def)
  have "\<forall>a \<in> dom (dapps s). a < ?a" using lists by (simp add: lists_ok_def)
  then have "?a \<notin> dom (dapps s)" by blast
  then have fresh: "dapps s ?a = None" by (simp add: domIff)
  have notlive: "?a \<notin> set (live s)"
  proof
    assume "?a \<in> set (live s)"
    then consider "?a \<in> set (unarrived_apps s)" | "?a \<in> set (arrived s)" | "?a \<in> set (completed_apps s)"
      by (auto simp: live_def)
    then show False
    proof cases
      case 1
      with lists fresh show ?thesis by (auto simp: lists_ok_def)
    next
      case 2
      with tasks fresh show ?thesis by (auto simp: tasks_ok_def)
    next
      case 3
      with lists fresh show ?thesis by (auto simp: lists_ok_def)
    qed
  qed
  have arr: "arrived s' = arrived s" by (simp add: arrived_def sel)
  have fl: "flight s' = flight s" by (simp add: flight_def with_workers_def sel)
  have "tasks_ok (flight s') s'"
    unfolding tasks_ok_def fl arr sel using tasks notlive by (auto simp: tasks_ok_def live_def)
  moreover have "lists_ok s'"
  proof -
    have live: "set (live s') = insert ?a (set (live s))" "distinct (live s')"
      using lists notlive by (auto simp: live_def arr sel lists_ok_def)
    have other: "b \<noteq> ?a" if "b \<in> set (arrived_nonstreaming s) \<union> set (arrived_streaming s) \<union> set (completed_apps s)" for b
      using that notlive by (auto simp: live_def arrived_def)
    have protos: "b \<noteq> ?a" if "b \<in> ran (applicationMap s)" "b \<noteq> 0" for b
    proof -
      have "\<exists>app. dapps s b = Some app" using that lists by (auto simp: lists_ok_def)
      with fresh show ?thesis by auto
    qed
    show ?thesis
      unfolding lists_ok_def
    proof (intro conjI ballI impI allI)
      show "distinct (live s')" by (rule live(2))
    next
      fix b assume "b \<in> set (unarrived_apps s')"
      then show "\<exists>c. dapps s' b = Some c \<and> wf_app b c \<and> fresh_app c"
        using lists wf by (cases "b = ?a") (auto simp: sel lists_ok_def)
    next
      fix b assume "b \<in> dom (dapps s')"
      then have b: "b = ?a \<or> b \<in> dom (dapps s)" by (auto simp: sel)
      have "\<forall>a \<in> dom (dapps s). 0 < a \<and> a < next_addr s" "0 < next_addr s" using lists by (simp_all add: lists_ok_def)
      with b have "0 < b \<and> b \<le> next_addr s" by (metis less_imp_le order_refl)
      then show "0 < b" and "b < next_addr s'" using le by (simp_all add: sel)
    next
      fix b assume "b \<in> ran (applicationMap s')" "b \<noteq> 0"
      then show "b \<notin> set (live s')" "\<exists>app. dapps s' b = Some app \<and> proto_ok app"
        using lists live(1) protos by (auto simp: sel lists_ok_def)
    qed (use lists le other in \<open>auto simp: sel lists_ok_def\<close>)
  qed
  ultimately show ?thesis by (simp add: dag_ok_def)
qed

lemma allocates_plain: "allocates s s1 \<Longrightarrow> plain_change s (s1\<lparr>next_addr := next_addr s\<rparr>)"
proof -
  assume "allocates s s1"
  then have eq: "s1\<lparr>blocks := blocks s, next_addr := next_addr s\<rparr> = s" by (simp add: allocates_def)
  have "dapps s1 = dapps s" "ready_queue s1 = ready_queue s" "dpes s1 = dpes s" "unarrived_apps s1 = unarrived_apps s"
    "arrived_nonstreaming s1 = arrived_nonstreaming s" "arrived_streaming s1 = arrived_streaming s"
    "completed_apps s1 = completed_apps s" "applicationMap s1 = applicationMap s"
    using arg_cong[OF eq, of dapps] arg_cong[OF eq, of ready_queue] arg_cong[OF eq, of dpes] arg_cong[OF eq, of unarrived_apps]
      arg_cong[OF eq, of arrived_nonstreaming] arg_cong[OF eq, of arrived_streaming] arg_cong[OF eq, of completed_apps]
      arg_cong[OF eq, of applicationMap] by simp_all
  then show ?thesis by (simp add: plain_change_def)
qed

lemma dag_inject_one_ok:
  assumes ok: "dag_ok s" and other: "dapps s prototype = Some other" "proto_ok other"
    and run: "inject_one V prototype period acc s = Inr (acc', s')"
  shows "dag_ok s'" and "dapps s' = (dapps s)(next_addr s := dapps s' (next_addr s))" and "applicationMap s' = applicationMap s"
    and "length (unarrived_apps s') = Suc (length (unarrived_apps s))"
proof -
  obtain now s0 where t: "tick s = (now, s0)" by (cases "tick s")
  let ?s0 = "s0\<lparr>next_addr := next_addr s0 + 1\<rparr>"
  have plain: "plain_change s s0" by (rule plain_tick[OF t])
  then have same: "dapps s0 = dapps s" "next_addr s0 = next_addr s" by (simp_all add: plain_change_def)
  with run t other obtain app s1 where assign: "app_assign (next_addr s) other ?s0 = Inr (app, s1)"
    and s': "s' = (set_app (next_addr s) (app\<lparr>app_id := appNum s1, completed_task_count := 0,
        arrival_time := word_of_int now + acc * word_of_int US2NANOSEC,
        head_nodes := map (reset_node (appNum s1)) (nodes app)\<rparr>) s1)\<lparr>appNum := appNum s1 + 1, unarrived_apps := unarrived_apps s1 @ [next_addr s]\<rparr>"
    by (auto simp: inject_one_def Let_def bindR_eq_Inr the_app_def)
  have alloc: "allocates ?s0 s1" by (rule app_assign_Inr(1)[OF assign other(2)])
  have le: "next_addr s < next_addr s1" using alloc same by (simp add: allocates_def)
  have "plain_change s (s1\<lparr>next_addr := next_addr s\<rparr>)"
    using allocates_plain[OF alloc] plain same by (simp add: plain_change_def)
  from dag_ok_new[OF ok instance_ok[OF assign other(2)] le this] show "dag_ok s'" unfolding s' .
  show "dapps s' = (dapps s)(next_addr s := dapps s' (next_addr s))" "applicationMap s' = applicationMap s"
    "length (unarrived_apps s') = Suc (length (unarrived_apps s))"
    using \<open>plain_change s (s1\<lparr>next_addr := next_addr s\<rparr>)\<close>
    by (simp_all add: s' set_app_def plain_change_def)
qed

lemma dag_inject_many_ok:
  assumes "dag_ok s" and "dapps s prototype = Some other" "proto_ok other"
    and "inject_many V prototype period n acc s = Inr s'"
  shows "dag_ok s'"
  using assms
proof (induction n arbitrary: s acc)
  case (Suc n)
  then obtain acc1 s1 where step: "inject_one V prototype period acc s = Inr (acc1, s1)"
    and rest: "inject_many V prototype period n acc1 s1 = Inr s'"
    by (auto simp: bindR_eq_Inr)
  note one = dag_inject_one_ok[OF Suc.prems(1-3) step]
  have "prototype \<noteq> next_addr s"
  proof
    assume eq: "prototype = next_addr s"
    have "\<forall>a \<in> dom (dapps s). a < next_addr s" using Suc.prems(1) by (simp add: dag_ok_def lists_ok_def)
    with Suc.prems(2) eq show False by blast
  qed
  then have "dapps s1 prototype = Some other" using one(2) Suc.prems(2) by (metis fun_upd_apply)
  from Suc.IH[OF one(1) this Suc.prems(3) rest] show ?case .
qed simp

text \<open>
  What is asked of the descriptions: every one that is read gives a good prototype at a fresh
  address, and reading changes nothing but the memory and the opened libraries.
\<close>

definition reads_well :: "drt \<Rightarrow> addr \<Rightarrow> drt \<Rightarrow> bool" where
  "reads_well s a s' \<longleftrightarrow> a = 0 \<and> s' = s \<or>
     a = next_addr s \<and> next_addr s < next_addr s' \<and> plain_change s (s'\<lparr>dapps := dapps s, next_addr := next_addr s\<rparr>) \<and>
     (\<exists>app. dapps s' = (dapps s)(a \<mapsto> app) \<and> proto_ok app)"

definition parses_well :: "dag_env \<Rightarrow> bool" where
  "parses_well V \<longleftrightarrow> (\<forall>path s a s'. parse_dag_and_binary V path s = Inr (a, s') \<longrightarrow> reads_well s a s')"

lemma dag_ok_prototype:
  fixes name :: string
  assumes ok: "dag_ok s" and new: "dapps s1 = (dapps s)(next_addr s \<mapsto> app)" "proto_ok app" and le: "next_addr s < next_addr s1"
    and sh: "plain_change s (s1\<lparr>dapps := dapps s, next_addr := next_addr s\<rparr>)"
  defines "s' \<equiv> s1\<lparr>applicationMap := (applicationMap s1)(name \<mapsto> next_addr s)\<rparr>"
  shows "dag_ok s'"
proof -
  let ?a = "next_addr s"
  have tasks: "tasks_ok (flight s) s" and lists: "lists_ok s" using ok by (auto simp: dag_ok_def)
  have sel: "dapps s' = (dapps s)(?a \<mapsto> app)" "ready_queue s' = ready_queue s" "dpes s' = dpes s" "unarrived_apps s' = unarrived_apps s"
      "arrived_nonstreaming s' = arrived_nonstreaming s" "arrived_streaming s' = arrived_streaming s"
      "completed_apps s' = completed_apps s" "next_addr s' = next_addr s1" "applicationMap s' = (applicationMap s)(name \<mapsto> ?a)"
    using sh new by (simp_all add: s'_def plain_change_def)
  have below: "\<forall>a \<in> dom (dapps s). 0 < a \<and> a < ?a" "0 < ?a" using lists by (simp_all add: lists_ok_def)
  then have fresh: "dapps s ?a = None" by blast
  have alloc: "dapps s b \<noteq> None" if "b \<in> set (live s)" for b
    using that tasks lists by (auto simp: live_def tasks_ok_def lists_ok_def)
  then have notlive: "?a \<notin> set (live s)" using fresh by blast
  have same: "arrived s' = arrived s" "live s' = live s" "flight s' = flight s"
    by (simp_all add: arrived_def live_def flight_def with_workers_def sel)
  have "tasks_ok (flight s') s'"
    unfolding tasks_ok_def same sel using tasks notlive by (auto simp: tasks_ok_def live_def)
  moreover have "lists_ok s'"
  proof -
    have other: "b \<noteq> ?a" if "b \<in> set (unarrived_apps s) \<union> set (arrived_nonstreaming s) \<union> set (arrived_streaming s) \<union> set (completed_apps s)" for b
      using that notlive by (auto simp: live_def arrived_def)
    show ?thesis
      unfolding lists_ok_def
    proof (intro conjI ballI impI allI)
      fix b assume "b \<in> dom (dapps s')"
      then have "b = ?a \<or> b \<in> dom (dapps s)" by (auto simp: sel)
      with below have "0 < b \<and> b \<le> ?a" by (metis less_imp_le order_refl)
      then show "0 < b" and "b < next_addr s'" using le by (simp_all add: sel)
    next
      fix b assume b: "b \<in> ran (applicationMap s')" "b \<noteq> 0"
      then have "b = ?a \<or> b \<in> ran (applicationMap s)" unfolding sel by (auto simp: ran_def split: if_splits)
      then show "b \<notin> set (live s')" "\<exists>app. dapps s' b = Some app \<and> proto_ok app"
        using lists notlive b(2) new(2) by (auto simp: same sel lists_ok_def)
    qed (use lists le other in \<open>auto simp: same sel lists_ok_def\<close>)
  qed
  ultimately show ?thesis by (simp add: dag_ok_def)
qed

lemma dag_inject_slot_ok:
  assumes "parses_well V" and ok: "dag_ok s" and run: "inject_slot V sl s = Inr s'"
  shows "dag_ok s'"
proof -
  obtain path num period where sl: "sl = (path, num, period)" by (cases sl)
  let ?name = "after_last (CHR ''/'') path"
  show ?thesis
  proof (cases "num = 0")
    case True
    with run ok show ?thesis by (simp add: inject_slot_def sl)
  next
    case False
    then have n: "unat num \<noteq> 0" by (simp add: unat_eq_0)
    have null: "inject_many V 0 period (unat num) period t \<noteq> Inr s'" if "dapps t 0 = None" for t
      using n that by (cases "unat num") (auto simp: inject_one_def tick_def the_app_def bindR_def)
    show ?thesis
    proof (cases "applicationMap s ?name")
      case (Some a)
      with run False have many: "inject_many V a period (unat num) period s = Inr s'"
        by (simp add: inject_slot_def sl Let_def bindR_def)
      have zero: "dapps s 0 = None" using ok by (auto simp: dag_ok_def lists_ok_def dom_def)
      with null many have "a \<noteq> 0" by metis
      moreover have "a \<in> ran (applicationMap s)" using Some by (auto simp: ran_def)
      ultimately obtain app where "dapps s a = Some app" "proto_ok app" using ok by (auto simp: dag_ok_def lists_ok_def)
      from dag_inject_many_ok[OF ok this many] show ?thesis .
    next
      case None
      with run False obtain a s1 where parse: "parse_dag_and_binary V path s = Inr (a, s1)"
        and many: "inject_many V a period (unat num) period (s1\<lparr>applicationMap := (applicationMap s1)(?name \<mapsto> a)\<rparr>) = Inr s'"
        by (auto simp: inject_slot_def sl Let_def bindR_eq_Inr)
      have zero: "dapps s 0 = None" using ok by (auto simp: dag_ok_def lists_ok_def dom_def)
      from assms(1) parse have "reads_well s a s1" by (simp add: parses_well_def)
      then consider "a = 0" "s1 = s" | app where "a = next_addr s" "next_addr s < next_addr s1"
        "plain_change s (s1\<lparr>dapps := dapps s, next_addr := next_addr s\<rparr>)" "dapps s1 = (dapps s)(a \<mapsto> app)" "proto_ok app"
        by (auto simp: reads_well_def)
      then show ?thesis
      proof cases
        case 1
        with null[of "s\<lparr>applicationMap := (applicationMap s)(?name \<mapsto> 0)\<rparr>"] zero many show ?thesis by simp
      next
        case 2
        have "dag_ok (s1\<lparr>applicationMap := (applicationMap s1)(?name \<mapsto> a)\<rparr>)"
          unfolding 2(1) by (rule dag_ok_prototype[OF ok _ 2(5,2,3)]) (use 2(1,4) in simp)
        from dag_inject_many_ok[OF this _ 2(5) many] 2(4) show ?thesis by simp
      qed
    qed
  qed
qed

lemma dag_inject_message_ok:
  assumes "parses_well V" and "dag_ok s" and "inject_message V m s = Inr s'"
  shows "dag_ok s'"
proof -
  have "dag_ok s'" if "foldR (inject_slot V) slots s = Inr s'" "dag_ok s" for slots s
    using that
  proof (induction slots arbitrary: s)
    case (Cons x xs)
    then obtain s1 where "inject_slot V x s = Inr s1" "foldR (inject_slot V) xs s1 = Inr s'" by (auto simp: bindR_eq_Inr)
    with Cons dag_inject_slot_ok[OF assms(1)] show ?case by blast
  qed simp
  with assms(2,3) show ?thesis by (simp add: inject_message_def)
qed

section \<open>Reachable states\<close>

definition booted :: "drt \<Rightarrow> bool" where
  "booted s \<longleftrightarrow> dapps s = Map.empty \<and> 0 < next_addr s \<and> applicationMap s = Map.empty \<and> ready_queue s = [] \<and>
     live s = [] \<and> (\<forall>h \<in> set (dpes s). held h = [] \<and> length (resource_name (dwt h)) < 25)"

lemma dag_booted_ok: "booted s \<Longrightarrow> dag_ok s"
proof -
  assume b: "booted s"
  have "(\<Sum>h\<leftarrow>hs. mset (held h)) = {#}" if "\<forall>h \<in> set hs. held h = []" for hs
    using that by (induction hs) auto
  with b have "with_workers s = {#}" by (simp add: with_workers_def booted_def)
  with b have "flight s = {#}" by (simp add: flight_def booted_def)
  with b show ?thesis by (auto simp: dag_ok_def tasks_ok_def lists_ok_def booted_def live_def arrived_def)
qed

text \<open>The process with a policy that loses no task and with good descriptions.\<close>

definition dag_setting :: "dag_env \<Rightarrow> bool" where
  "dag_setting V \<longleftrightarrow> dag_env_ok V \<and> dc_scheduler (dcfg V) \<noteq> ''DNN'' \<and> parses_well V"

lemma dag_ok_step:
  assumes "dag_setting V" and "dag_step V s s'" and "dag_ok s"
  shows "dag_ok s'"
proof -
  have V: "dag_env_ok V" "dc_scheduler (dcfg V) \<noteq> ''DNN''" "parses_well V" using assms(1) by (auto simp: dag_setting_def)
  from assms(2) show ?thesis
  proof (cases rule: dag_step.cases)
    case (worker i)
    with assms(3) dag_ok_worker show ?thesis by blast
  next
    case (inject m)
    with assms(3) V(3) dag_inject_message_ok show ?thesis by blast
  next
    case (harvest i)
    then have "i < length (dpes s)" "completed_task_dequeue (dwt (dpes s ! i)) \<noteq> []"
      by (auto simp: harvest_one_def split: if_splits list.splits)
    from harvest_one_ok[OF assms(3) this] harvest show ?thesis by auto
  next
    case arrive
    with dag_arrivals_ok[OF V(1) assms(3)] show ?thesis by auto
  next
    case stream
    with streaming_phase_ok[OF assms(3)] show ?thesis by auto
  next
    case schedule
    with dag_ok_schedule[OF assms(3) V(1,2)] show ?thesis by blast
  next
    case free
    with free_completed_ok[OF assms(3)] show ?thesis by auto
  next
    case (count c)
    have "plain_change s (s\<lparr>free_resource_count := c\<rparr>)" by (simp add: plain_change_def)
    from dag_ok_plain[OF assms(3) this] count show ?thesis by simp
  qed
qed

lemma dag_ok_reachable: "(dag_step V)\<^sup>*\<^sup>* s s' \<Longrightarrow> dag_setting V \<Longrightarrow> booted s \<Longrightarrow> dag_ok s'"
  by (induction rule: rtranclp_induct) (use dag_booted_ok dag_ok_step in blast)+

end
