(* ===== verification/Dag_Read.thy ===== *)
theory Dag_Read
  imports Dag_Inv
begin

text \<open>
  What the reader of task graphs makes of a good description: a prototype with one node per
  member of the description's graph, linked as the names say, which is what the invariant of
  the process asks of a prototype. A good description names only nodes it has, numbers none of
  them itself, says the same links from both ends and is not in sequential mode.
\<close>

section \<open>Good descriptions\<close>

definition linked_names :: "json \<Rightarrow> string \<Rightarrow> string list option" where
  "linked_names e k = (case jfind e k of
     Some (JArray js) \<Rightarrow> those (map (\<lambda>j. case jfind j ''name'' of Some (JString s) \<Rightarrow> Some s | _ \<Rightarrow> None) js)
   | _ \<Rightarrow> None)"

abbreviation preds_of :: "json \<Rightarrow> string list" where "preds_of e \<equiv> the (linked_names e ''predecessors'')"
abbreviation succs_of :: "json \<Rightarrow> string list" where "succs_of e \<equiv> the (linked_names e ''successors'')"

definition good_string :: "json \<Rightarrow> string \<Rightarrow> bool" where
  "good_string e k \<longleftrightarrow> (case jfind e k of Some (JString s) \<Rightarrow> True | _ \<Rightarrow> False)"

definition good_args :: "json \<Rightarrow> bool" where
  "good_args e \<longleftrightarrow> (case jfind e ''arguments'' of Some (JArray js) \<Rightarrow> \<forall>j \<in> set js. \<not> isl (get_string j) | _ \<Rightarrow> False)"

definition good_platform :: "dag_env \<Rightarrow> json \<Rightarrow> bool" where
  "good_platform V p \<longleftrightarrow> (case jfind p ''name'' of Some (JString n) \<Rightarrow> dres_map n \<noteq> None | _ \<Rightarrow> False) \<and>
     good_string p ''runfunc'' \<and>
     (case jfind p ''nodecost'' of Some c \<Rightarrow> \<not> isl (node_cost V c) | None \<Rightarrow> False) \<and>
     (jfind p ''shared_object'' = None \<or> good_string p ''shared_object'')"

definition good_entry :: "dag_env \<Rightarrow> string \<Rightarrow> string list \<Rightarrow> string \<times> json \<Rightarrow> bool" where
  "good_entry V appName keys = (\<lambda>(key, e).
     length appName + length key < 49 \<and> jfind e ''task_id'' = None \<and> good_args e \<and>
     (case linked_names e ''predecessors'' of Some ps \<Rightarrow> set ps \<subseteq> set keys | None \<Rightarrow> False) \<and>
     (case linked_names e ''successors'' of Some ss \<Rightarrow> set ss \<subseteq> set keys | None \<Rightarrow> False) \<and>
     (case jfind e ''platforms'' of Some (JArray ps) \<Rightarrow> \<forall>p \<in> set ps. good_platform V p | _ \<Rightarrow> False))"

definition good_links :: "(string \<times> json) list \<Rightarrow> bool" where
  "good_links kvs \<longleftrightarrow> (\<forall>(k, e) \<in> set kvs. \<forall>(k', e') \<in> set kvs. k' \<in> set (succs_of e) \<longleftrightarrow> k \<in> set (preds_of e'))"

definition good_variable :: "json \<Rightarrow> bool" where
  "good_variable v \<longleftrightarrow>
     (case jfind v ''bytes'' of Some (JInt n) \<Rightarrow> True | _ \<Rightarrow> False) \<and>
     (case jfind v ''val'' of Some (JArray js) \<Rightarrow> \<forall>j \<in> set js. \<not> isl (get_int j) | None \<Rightarrow> True | _ \<Rightarrow> False) \<and>
     (case jfind v ''is_ptr'' of Some (JBool b) \<Rightarrow> True | None \<Rightarrow> True | _ \<Rightarrow> False) \<and>
     (case jfind v ''ptr_alloc_bytes'' of Some (JInt n) \<Rightarrow> True | None \<Rightarrow> True | _ \<Rightarrow> False)"

definition good_stream :: "json \<Rightarrow> bool" where
  "good_stream j \<longleftrightarrow> (case parse_stream j of Inl e \<Rightarrow> False
     | Inr (mode, n) \<Rightarrow> mode \<noteq> sequential \<and> (mode = non_streaming \<or> 1 \<le> n))"

definition dag_members :: "json \<Rightarrow> (string \<times> json) list" where
  "dag_members j = (case jfind j ''DAG'' of Some (JObject kvs) \<Rightarrow> kvs | _ \<Rightarrow> [])"

definition dag_name :: "json \<Rightarrow> string" where
  "dag_name j = (case jfind j ''AppName'' of Some (JString s) \<Rightarrow> s | _ \<Rightarrow> '''')"

definition good_dag :: "dag_env \<Rightarrow> json \<Rightarrow> bool" where
  "good_dag V j \<longleftrightarrow> good_string j ''AppName'' \<and> good_string j ''SharedObject'' \<and> good_stream j \<and>
     (case jfind j ''Variables'' of Some (JObject vs) \<Rightarrow> \<forall>v \<in> set vs. good_variable (snd v) | _ \<Rightarrow> False) \<and>
     (case jfind j ''DAG'' of Some (JObject kvs) \<Rightarrow> True | _ \<Rightarrow> False) \<and>
     distinct (map fst (dag_members j)) \<and>
     (\<forall>x \<in> set (dag_members j). good_entry V (dag_name j) (map fst (dag_members j)) x) \<and>
     good_links (dag_members j)"

section \<open>Small steps of the reader\<close>

lemma member_jfind: "jfind j k = Some v \<Longrightarrow> member j k = Inr v"
  by (cases j) (auto simp: member_def)

lemma member_as_jfind: "jfind j k = Some v \<Longrightarrow> member_as conv j k = conv v"
  by (simp add: member_as_def member_jfind)

lemma good_stringD: "good_string e k \<Longrightarrow> \<exists>s. jfind e k = Some (JString s)"
  by (auto simp: good_string_def split: option.splits json.splits)

lemma those_Some: "those xs = Some ys \<longleftrightarrow> xs = map Some ys"
proof (induction xs arbitrary: ys)
  case (Cons x xs)
  then show ?case by (cases x; cases ys) auto
qed auto

lemma linked_namesD:
  assumes "linked_names e k = Some ns"
  obtains js where "jfind e k = Some (JArray js)" and "length js = length ns"
    and "\<forall>i<length js. jfind (js ! i) ''name'' = Some (JString (ns ! i))"
proof -
  let ?f = "\<lambda>j. case jfind j ''name'' of Some (JString s) \<Rightarrow> Some s | _ \<Rightarrow> None"
  from assms obtain js where js: "jfind e k = Some (JArray js)" and eq: "map ?f js = map Some ns"
    by (auto simp: linked_names_def those_Some split: option.splits json.splits)
  have len: "length js = length ns" using arg_cong[OF eq, of length] by simp
  have "jfind (js ! i) ''name'' = Some (JString (ns ! i))" if "i < length js" for i
  proof -
    have "map ?f js ! i = map Some ns ! i" using eq by simp
    with that len have "?f (js ! i) = Some (ns ! i)" by simp
    then show ?thesis by (auto split: option.splits json.splits)
  qed
  with js len that show thesis by blast
qed

lemma not_isl_iff: "\<not> isl x \<longleftrightarrow> (\<exists>y. x = Inr y)"
  by (cases x) auto

lemma mapR_total: "(\<And>x. x \<in> set xs \<Longrightarrow> \<exists>y. f x = Inr y) \<Longrightarrow> \<exists>ys. mapR f xs = Inr ys"
proof (induction xs)
  case (Cons x xs)
  then obtain y ys where "f x = Inr y" "mapR f xs = Inr ys" by (metis list.set_intros)
  then show ?case by simp
qed simp

lemma parse_args_total: "good_args e \<Longrightarrow> \<exists>a as. member e ''arguments'' = Inr a \<and> parse_args vars a = Inr as"
proof -
  assume "good_args e"
  then obtain js where js: "jfind e ''arguments'' = Some (JArray js)" "\<forall>j \<in> set js. \<not> isl (get_string j)"
    by (auto simp: good_args_def split: option.splits json.splits)
  have "\<exists>ys. mapR get_string js = Inr ys" using js(2) by (intro mapR_total) (auto simp: not_isl_iff)
  with js(1) show ?thesis by (auto simp: parse_args_def member_jfind)
qed

section \<open>Variables and shared objects\<close>

lemma get_bytes_total: "\<forall>j \<in> set js. \<not> isl (get_int j) \<Longrightarrow> \<exists>bs. get_bytes (JArray js) = Inr bs"
  using mapR_total[of js "\<lambda>j. map_sum id word_of_int (get_int j)"] by (fastforce simp: not_isl_iff)

lemma parse_variable_total:
  assumes "good_variable v"
  shows "\<exists>vars' s'. parse_variable (name, v) (vars, s) = Inr (vars', s') \<and> allocates s s'"
proof -
  obtain n where n: "jfind v ''bytes'' = Some (JInt n)"
    using assms by (auto simp: good_variable_def split: option.splits json.splits)
  define w where "w = (word_of_int n :: u32)"
  define s1 where "s1 = snd (alloc_block (zero_block (unat w)) s)"
  define h where "h = fst (alloc_block (zero_block (unat w)) s)"
  have bytes: "member_as get_uint v ''bytes'' = Inr w" by (simp add: member_as_jfind[OF n] get_uint_def w_def)
  have alloc: "alloc_block (zero_block (unat w)) s = (h, s1)" by (simp add: h_def s1_def)
  have "allocates s s1" by (rule allocates_alloc[OF allocates_refl alloc])
  have "\<exists>s2. initial_value v w h s1 = Inr s2 \<and> allocates s s2"
  proof (cases "jfind v ''val''")
    case None
    with \<open>allocates s s1\<close> show ?thesis by (simp add: initial_value_def)
  next
    case (Some j)
    then obtain js where js: "j = JArray js" "\<forall>j \<in> set js. \<not> isl (get_int j)"
      using assms by (auto simp: good_variable_def split: option.splits json.splits)
    from get_bytes_total[OF js(2)] obtain bs where "get_bytes j = Inr bs" using js(1) by auto
    with Some \<open>allocates s s1\<close> show ?thesis by (auto simp: initial_value_def intro: allocates_blocks)
  qed
  then obtain s2 where s2: "initial_value v w h s1 = Inr s2" "allocates s s2" by blast
  have "\<exists>var' s3. pointer_value v var s2 = Inr (var', s3) \<and> allocates s s3" for var :: variable
  proof (cases "jfind v ''is_ptr'' = Some (JBool True) \<and> jfind v ''ptr_alloc_bytes'' \<noteq> None")
    case True
    then obtain m where "jfind v ''ptr_alloc_bytes'' = Some (JInt m)"
      using assms by (auto simp: good_variable_def split: option.splits json.splits)
    with True s2(2) show ?thesis
      by (auto simp: pointer_value_def get_ulong_def Let_def split: prod.splits intro: allocates_blocks allocates_alloc)
  next
    case False
    then show ?thesis
      using assms s2(2) by (auto simp: pointer_value_def good_variable_def split: option.splits json.splits)
  qed
  then obtain var' s3 where
    "pointer_value v \<lparr>var_name = name, num_bytes = w, heap_ptr = h, is_ptr_var = False, ptr_alloc_bytes = 0\<rparr> s2 = Inr (var', s3)"
    "allocates s s3" by blast
  with bytes alloc s2 have "parse_variable (name, v) (vars, s) = Inr (AList.update name var' vars, s3)"
    by (simp add: parse_variable_def Let_def)
  with \<open>allocates s s3\<close> show ?thesis by blast
qed

lemma parse_variables_total:
  assumes "\<forall>v \<in> set vs. good_variable (snd v)"
  shows "\<exists>vars s'. foldR parse_variable vs ([], s) = Inr (vars, s') \<and> allocates s s'"
proof -
  have "\<exists>x. foldR parse_variable vs ([], s) = Inr x \<and> allocates s (snd x)"
  proof (rule foldR_total)
    fix v :: "string \<times> json" and x :: "(string \<times> variable) list \<times> drt"
    assume "v \<in> set vs" "allocates s (snd x)"
    moreover obtain name j vars s1 where "v = (name, j)" "x = (vars, s1)" by (cases v, cases x)
    ultimately show "\<exists>x'. parse_variable v x = Inr x' \<and> allocates s (snd x')"
      using parse_variable_total[of j name vars s1] assms allocates_trans by fastforce
  qed simp
  then show ?thesis by auto
qed

text \<open>What loading an object changes: nothing the invariant mentions.\<close>

lemma find_handle_total:
  assumes "\<forall>p. dlopen V p \<noteq> None"
  shows "\<exists>h s'. find_handle V b n s = Inr (h, s') \<and> plain_change s s'"
proof -
  obtain h where "dlopen V (b @ ''/'' @ n) = Some h" using assms by blast
  then show ?thesis by (auto simp: find_handle_def openHandle_def plain_change_def split: option.splits)
qed

section \<open>Platforms\<close>

text \<open>What a platform leaves of the node.\<close>

definition same_desc :: "dag_task \<Rightarrow> dag_task \<Rightarrow> bool" where
  "same_desc t t' \<longleftrightarrow> task_id t' = task_id t \<and> app_pnt t' = app_pnt t \<and> task_name t' = task_name t \<and> pred t' = pred t \<and>
     succ t' = succ t \<and> assigned_resource_name t' = assigned_resource_name t"

lemma parse_platform_total:
  assumes V: "\<forall>p. dlopen V p \<noteq> None" and p: "good_platform V p"
  shows "\<exists>t' s'. parse_platform V b h p (t, s) = Inr (t', s') \<and> same_desc t t' \<and> plain_change s s'"
proof -
  from p obtain n r f c cost where p': "jfind p ''name'' = Some (JString n)" "dres_map n = Some r"
      "jfind p ''runfunc'' = Some (JString f)" "jfind p ''nodecost'' = Some c" "node_cost V c = Inr cost"
    by (auto simp: good_platform_def good_string_def not_isl_iff split: option.splits json.splits)
  have obj: "\<exists>h' s'. (case jfind p ''shared_object'' of None \<Rightarrow> Inr (h, s)
      | Some j \<Rightarrow> bindR (thrown (get_string j)) (\<lambda>name. find_handle V b name s)) = Inr (h', s') \<and> plain_change s s'"
  proof (cases "jfind p ''shared_object''")
    case (Some j)
    then obtain name where "j = JString name" using p by (auto simp: good_platform_def dest!: good_stringD)
    with Some find_handle_total[OF V] show ?thesis by simp
  qed (simp add: plain_change_def)
  then obtain h' s' where "(case jfind p ''shared_object'' of None \<Rightarrow> Inr (h, s)
      | Some j \<Rightarrow> bindR (thrown (get_string j)) (\<lambda>name. find_handle V b name s)) = Inr (h', s')" "plain_change s s'"
    by blast
  with p' show ?thesis
    by (auto simp: parse_platform_def member_as_jfind Let_def same_desc_def split: option.splits)
qed

lemma parse_platforms_total:
  assumes V: "\<forall>p. dlopen V p \<noteq> None" and ps: "\<forall>p \<in> set ps. good_platform V p"
  shows "\<exists>t' s'. foldR (parse_platform V b h) ps (t, s) = Inr (t', s') \<and> same_desc t t' \<and> plain_change s s'"
proof -
  have "\<exists>x. foldR (parse_platform V b h) ps (t, s) = Inr x \<and> same_desc t (fst x) \<and> plain_change s (snd x)"
  proof (rule foldR_total)
    fix p x assume p: "p \<in> set ps" and x: "same_desc t (fst x) \<and> plain_change s (snd x)"
    from parse_platform_total[OF V, of p b h "fst x" "snd x"] p ps obtain t' s'
      where "parse_platform V b h p x = Inr (t', s')" "same_desc (fst x) t'" "plain_change (snd x) s'" by auto
    with x show "\<exists>x'. parse_platform V b h p x = Inr x' \<and> same_desc t (fst x') \<and> plain_change s (snd x')"
      using plain_trans by (auto simp: same_desc_def)
  qed (simp add: same_desc_def plain_change_def)
  then show ?thesis by auto
qed

section \<open>The two passes\<close>

text \<open>
  A description seen as a list of members: node \<open>i\<close> is the \<open>i\<close>-th of them, and a name stands for
  its position.
\<close>

definition key_pos :: "(string \<times> json) list \<Rightarrow> string \<Rightarrow> nat" where
  "key_pos kvs k = the (map_of (zip (map fst kvs) [0..<length kvs]) k)"

definition positions :: "(string \<times> json) list \<Rightarrow> string list \<Rightarrow> nat option list" where
  "positions kvs ks = map (\<lambda>k. Some (key_pos kvs k)) ks"

lemma key_pos_nth:
  assumes "distinct (map fst kvs)" and "i < length kvs"
  shows "key_pos kvs (fst (kvs ! i)) = i"
proof -
  have "map_of (zip (map fst kvs) [0..<length kvs]) (map fst kvs ! i) = Some ([0..<length kvs] ! i)"
    using assms by (intro map_of_zip_nth) auto
  with assms(2) show ?thesis by (simp add: key_pos_def)
qed

text \<open>A node after the first pass, and one that is linked.\<close>

definition shell :: "string \<Rightarrow> addr \<Rightarrow> (string \<times> json) list \<Rightarrow> nat \<Rightarrow> dag_task \<Rightarrow> bool" where
  "shell appName a kvs i t \<longleftrightarrow> task_id t = int i \<and> app_pnt t = a \<and> task_name t = appName @ ''_'' @ fst (kvs ! i) \<and>
     assigned_resource_name t = ''unassigned'' \<and>
     length (pred t) = length (preds_of (snd (kvs ! i))) \<and> length (succ t) = length (succs_of (snd (kvs ! i)))"

definition linked_up :: "(string \<times> json) list \<Rightarrow> nat \<Rightarrow> dag_task \<Rightarrow> bool" where
  "linked_up kvs i t \<longleftrightarrow> pred t = positions kvs (preds_of (snd (kvs ! i))) \<and> succ t = positions kvs (succs_of (snd (kvs ! i)))"

definition first_done :: "string \<Rightarrow> addr \<Rightarrow> (string \<times> json) list \<Rightarrow> nat \<Rightarrow> pass \<Rightarrow> bool" where
  "first_done appName a kvs k st \<longleftrightarrow> length (node_list st) = length kvs \<and> cur_id st = k \<and> \<not> custom_ids st \<and>
     (\<forall>i<k. shell appName a kvs i (node_list st ! i)) \<and>
     (\<forall>i<length kvs. node_to_idx st (fst (kvs ! i)) = (if i < k then Some i else None))"

lemma good_entryD:
  assumes "good_entry V appName keys (k, e)"
  obtains ps ss plats where "linked_names e ''predecessors'' = Some ps" and "set ps \<subseteq> set keys"
    and "linked_names e ''successors'' = Some ss" and "set ss \<subseteq> set keys"
    and "jfind e ''platforms'' = Some (JArray plats)" and "\<forall>p \<in> set plats. good_platform V p"
    and "good_args e" and "jfind e ''task_id'' = None" and "length appName + length k < 49"
  using assms that by (auto simp: good_entry_def split: option.splits json.splits)

lemma first_pass_total:
  assumes good: "\<forall>x \<in> set kvs. good_entry V appName (map fst kvs) x" and dist: "distinct (map fst kvs)"
    and k: "k < length kvs" and st: "first_done appName a kvs k st"
  shows "\<exists>st'. first_pass appName a vars (k, kvs ! k) st = Inr st' \<and> first_done appName a kvs (Suc k) st'"
proof -
  obtain key e where ke: "kvs ! k = (key, e)" by (cases "kvs ! k")
  have "good_entry V appName (map fst kvs) (key, e)" using good k ke by (metis nth_mem)
  then obtain ps ss where ps: "linked_names e ''predecessors'' = Some ps" and ss: "linked_names e ''successors'' = Some ss"
    and as: "good_args e" and id: "jfind e ''task_id'' = None" by (rule good_entryD)
  from ps obtain pj where pj: "jfind e ''predecessors'' = Some (JArray pj)" "length pj = length ps" by (rule linked_namesD)
  from ss obtain sj where sj: "jfind e ''successors'' = Some (JArray sj)" "length sj = length ss" by (rule linked_namesD)
  from parse_args_total[OF as, of vars] obtain av args where av: "member e ''arguments'' = Inr av" "parse_args vars av = Inr args" by blast
  have s: "length (node_list st) = length kvs" "cur_id st = k" "\<not> custom_ids st" using st by (auto simp: first_done_def)
  let ?run = "first_pass appName a vars (k, key, e) st"
  obtain st' where st': "?run = Inr st'"
    using av k s id by (auto simp: first_pass_def member_jfind[OF pj(1)] member_jfind[OF sj(1)] custom_id_def)
  have n: "\<exists>t. node_list st' = (node_list st)[k := t] \<and> shell appName a kvs k t"
    and rest: "cur_id st' = Suc k" "\<not> custom_ids st'"
      "node_to_idx st' = (if node_to_idx st key = None then (node_to_idx st)(key \<mapsto> k) else node_to_idx st)"
    using st' av k s id ke pj(2) sj(2) ps ss
    by (auto simp: first_pass_def member_jfind[OF pj(1)] member_jfind[OF sj(1)] custom_id_def Let_def shell_def jsize_def)
  have keys: "fst (kvs ! i) = key \<longleftrightarrow> i = k" if "i < length kvs" for i
    using dist k ke that by (metis fst_conv length_map nth_eq_iff_index_eq nth_map)
  have "node_to_idx st key = None" using st k keys[OF k] by (auto simp: first_done_def)
  then have "first_done appName a kvs (Suc k) st'"
    using n rest st keys k by (auto simp: first_done_def nth_list_update less_Suc_eq)
  with st' ke show ?thesis by auto
qed

lemma first_passes_total:
  assumes good: "\<forall>x \<in> set kvs. good_entry V appName (map fst kvs) x" and dist: "distinct (map fst kvs)"
    and st: "first_done appName a kvs 0 st"
  shows "\<exists>st'. foldR (first_pass appName a vars) (zip [0..<length kvs] kvs) st = Inr st' \<and> first_done appName a kvs (length kvs) st'"
proof -
  have "\<exists>st'. foldR (first_pass appName a vars) (zip [0..<length kvs] kvs) st = Inr st' \<and>
      first_done appName a kvs (length (zip [0..<length kvs] kvs)) st'"
    using st by (rule foldR_nth) (use first_pass_total[OF good dist] in simp)
  then show ?thesis by simp
qed

lemma wr_split: "idx < length xs \<Longrightarrow> wr xs idx v = Some (take idx xs @ v # drop (Suc idx) xs)"
  by (simp add: upd_conv_take_nth_drop)

lemma link_names_total:
  assumes "\<And>i. i < length js \<Longrightarrow> jfind (js ! i) ''name'' = Some (JString (ns ! i))" and "length js = length ns"
    and "\<forall>n \<in> set ns. m n = Some (f n)" and "idx + length ns = length links"
  shows "link_names js idx (links, m) = Inr (take idx links @ map (Some \<circ> f) ns, m)"
  using assms
proof (induction js arbitrary: ns idx links)
  case (Cons j js)
  then obtain n ns' where ns: "ns = n # ns'" by (cases ns) auto
  have j: "member_as get_string j ''name'' = Inr n" using Cons.prems(1)[of 0] ns by (simp add: member_as_jfind)
  have idx: "idx < length links" using Cons.prems(4) ns by simp
  let ?links = "take idx links @ Some (f n) # drop (Suc idx) links"
  have "link_names js (idx + 1) (?links, m) = Inr (take (idx + 1) ?links @ map (Some \<circ> f) ns', m)"
  proof (rule Cons.IH)
    show "jfind (js ! i) ''name'' = Some (JString (ns' ! i))" if "i < length js" for i
      using Cons.prems(1)[of "Suc i"] that ns by simp
  qed (use Cons.prems ns idx in auto)
  then show ?case using Cons.prems(3) idx by (simp add: j ns node_index_def wr_split del: wr_in)
qed simp

definition second_done :: "string \<Rightarrow> addr \<Rightarrow> (string \<times> json) list \<Rightarrow> drt \<Rightarrow> nat \<Rightarrow> pass \<times> drt \<Rightarrow> bool" where
  "second_done appName a kvs s0 k = (\<lambda>(st, s). length (node_list st) = length kvs \<and> cur_id st = k \<and> \<not> custom_ids st \<and>
     (\<forall>i<length kvs. shell appName a kvs i (node_list st ! i) \<and> node_to_idx st (fst (kvs ! i)) = Some i) \<and>
     (\<forall>i<k. linked_up kvs i (node_list st ! i)) \<and> plain_change s0 s)"

lemma second_pass_total:
  assumes good: "\<forall>x \<in> set kvs. good_entry V appName (map fst kvs) x" and dist: "distinct (map fst kvs)"
    and V: "\<forall>p. dlopen V p \<noteq> None" and mode: "mode \<noteq> sequential"
    and k: "k < length kvs" and st: "second_done appName a kvs s0 k (st, s)"
  shows "\<exists>x. second_pass V b h mode (kvs ! k) (st, s) = Inr x \<and> second_done appName a kvs s0 (Suc k) x"
proof -
  obtain key e where ke: "kvs ! k = (key, e)" by (cases "kvs ! k")
  have "good_entry V appName (map fst kvs) (key, e)" using good k ke by (metis nth_mem)
  then obtain ps ss plats where ps: "linked_names e ''predecessors'' = Some ps" "set ps \<subseteq> set (map fst kvs)"
    and ss: "linked_names e ''successors'' = Some ss" "set ss \<subseteq> set (map fst kvs)"
    and plats: "jfind e ''platforms'' = Some (JArray plats)" "\<forall>p \<in> set plats. good_platform V p" by (rule good_entryD)
  from ps(1) obtain pj where pj: "jfind e ''predecessors'' = Some (JArray pj)" "length pj = length ps"
    "\<forall>i<length pj. jfind (pj ! i) ''name'' = Some (JString (ps ! i))" by (rule linked_namesD)
  from ss(1) obtain sj where sj: "jfind e ''successors'' = Some (JArray sj)" "length sj = length ss"
    "\<forall>i<length sj. jfind (sj ! i) ''name'' = Some (JString (ss ! i))" by (rule linked_namesD)
  let ?t = "node_list st ! k"
  have s: "length (node_list st) = length kvs" "cur_id st = k" "\<not> custom_ids st" "plain_change s0 s"
    and t: "shell appName a kvs k ?t" using st k by (auto simp: second_done_def)
  have len: "length (pred ?t) = length ps" "length (succ ?t) = length ss" using t ke ps(1) ss(1) by (auto simp: shell_def)
  have "node_to_idx st n = Some (key_pos kvs n)" if "n \<in> set (map fst kvs)" for n
  proof -
    from that obtain i where "i < length kvs" "n = fst (kvs ! i)" by (auto simp: in_set_conv_nth)
    with st key_pos_nth[OF dist] show ?thesis by (simp add: second_done_def)
  qed
  then have known: "\<forall>n \<in> set ps. node_to_idx st n = Some (key_pos kvs n)" "\<forall>n \<in> set ss. node_to_idx st n = Some (key_pos kvs n)"
    using ps(2) ss(2) by blast+
  have preds: "link_names pj 0 (pred ?t, node_to_idx st) = Inr (positions kvs ps, node_to_idx st)"
    using link_names_total[OF pj(3)[rule_format] pj(2), of "node_to_idx st" "key_pos kvs" 0 "pred ?t"] known(1) len(1)
    by (auto simp: positions_def comp_def)
  have succs: "link_names sj 0 (succ ?t, node_to_idx st) = Inr (positions kvs ss, node_to_idx st)"
    using link_names_total[OF sj(3)[rule_format] sj(2), of "node_to_idx st" "key_pos kvs" 0 "succ ?t"] known(2) len(2)
    by (auto simp: positions_def comp_def)
  from parse_platforms_total[OF V plats(2), of b h "?t\<lparr>pred := positions kvs ps, succ := positions kvs ss\<rparr>" s]
  obtain t' s' where run: "foldR (parse_platform V b h) plats (?t\<lparr>pred := positions kvs ps, succ := positions kvs ss\<rparr>, s) = Inr (t', s')"
    and t': "same_desc (?t\<lparr>pred := positions kvs ps, succ := positions kvs ss\<rparr>) t'" and s': "plain_change s s'" by blast
  let ?st = "st\<lparr>node_list := (node_list st)[k := t'], cur_id := Suc k\<rparr>"
  have "second_pass V b h mode (kvs ! k) (st, s) = Inr (?st, s')"
    using preds succs run s k mode
    by (simp add: second_pass_def ke member_jfind[OF pj(1)] member_jfind[OF sj(1)] member_jfind[OF plats(1)] custom_id_def)
  moreover have new: "shell appName a kvs k t'" "linked_up kvs k t'"
    using t t' ke ps(1) ss(1) by (auto simp: shell_def linked_up_def same_desc_def positions_def)
  then have "second_done appName a kvs s0 (Suc k) (?st, s')"
    using st s k plain_trans[OF s(4) s'] by (auto simp: second_done_def nth_list_update less_Suc_eq)
  ultimately show ?thesis by blast
qed

lemma parse_nodes_total:
  assumes good: "\<forall>x \<in> set kvs. good_entry V appName (map fst kvs) x" and dist: "distinct (map fst kvs)"
    and V: "\<forall>p. dlopen V p \<noteq> None" and mode: "mode \<noteq> sequential"
  shows "\<exists>st s'. parse_nodes V b appName a h mode vars kvs s = Inr (st, s') \<and> plain_change s s' \<and>
    length (node_list st) = length kvs \<and>
    (\<forall>i<length kvs. shell appName a kvs i (node_list st ! i) \<and> linked_up kvs i (node_list st ! i))"
proof -
  let ?st = "\<lparr>node_list = replicate (length kvs) null_node, cur_id = 0, custom_ids = False, node_to_idx = Map.empty,
        headnode_indices = [], tailnode_indices = []\<rparr>"
  have "first_done appName a kvs 0 ?st" by (simp add: first_done_def)
  from first_passes_total[OF good dist this, of vars] obtain st1
    where st1: "foldR (first_pass appName a vars) (zip [0..<length kvs] kvs) ?st = Inr st1" "first_done appName a kvs (length kvs) st1"
    by blast
  have "second_done appName a kvs s 0 (st1\<lparr>cur_id := 0\<rparr>, s)"
    using st1(2) by (simp add: second_done_def first_done_def plain_change_def)
  then have "\<exists>x. foldR (second_pass V b h mode) kvs (st1\<lparr>cur_id := 0\<rparr>, s) = Inr x \<and> second_done appName a kvs s (length kvs) x"
  proof (rule foldR_nth)
    fix k x assume "k < length kvs" "second_done appName a kvs s k x"
    with second_pass_total[OF good dist V mode, of k a s "fst x" "snd x" b h]
    show "\<exists>x'. second_pass V b h mode (kvs ! k) x = Inr x' \<and> second_done appName a kvs s (Suc k) x'" by simp
  qed
  with st1(1) show ?thesis by (fastforce simp: parse_nodes_def second_done_def)
qed

section \<open>The application\<close>

text \<open>The prototype a description describes.\<close>

definition describes :: "json \<Rightarrow> addr \<Rightarrow> dag_app \<Rightarrow> bool" where
  "describes j a app \<longleftrightarrow> length (nodes app) = length (dag_members j) \<and> task_count app = int (length (dag_members j)) \<and>
     parse_stream j = Inr (stream_enable app, max_stream_frame_count app) \<and> app_name app = take 49 (dag_name j) \<and>
     (\<forall>i<length (dag_members j). shell (dag_name j) a (dag_members j) i (nodes app ! i) \<and> linked_up (dag_members j) i (nodes app ! i))"

lemma in_positions:
  assumes "distinct (map fst kvs)" and "set ks \<subseteq> set (map fst kvs)" and "i < length kvs"
  shows "Some i \<in> set (positions kvs ks) \<longleftrightarrow> fst (kvs ! i) \<in> set ks"
proof -
  have "k = fst (kvs ! i)" if k: "k \<in> set ks" and eq: "key_pos kvs k = i" for k
  proof -
    from k assms(2) have "k \<in> set (map fst kvs)" by blast
    then obtain j where j: "j < length kvs" "k = fst (kvs ! j)" by (auto simp: in_set_conv_nth)
    with key_pos_nth[OF assms(1) j(1)] eq have "j = i" by simp
    with j show ?thesis by simp
  qed
  moreover have "Some i \<in> set (positions kvs ks) \<longleftrightarrow> (\<exists>k \<in> set ks. key_pos kvs k = i)" by (auto simp: positions_def)
  ultimately show ?thesis using key_pos_nth[OF assms(1,3)] by metis
qed

lemma positions_valid:
  assumes "distinct (map fst kvs)" and "set ks \<subseteq> set (map fst kvs)" and "l \<in> set (positions kvs ks)"
  shows "\<exists>j<length kvs. l = Some j"
proof -
  from assms(3) obtain k where k: "k \<in> set ks" "l = Some (key_pos kvs k)" by (auto simp: positions_def)
  with assms(2) have "k \<in> set (map fst kvs)" by blast
  then obtain j where "j < length kvs" "k = fst (kvs ! j)" by (auto simp: in_set_conv_nth)
  with k key_pos_nth[OF assms(1)] show ?thesis by auto
qed

lemma parse_stream_bound: "parse_stream j = Inr (mode, n) \<Longrightarrow> n < 2 ^ 31"
proof -
  assume "parse_stream j = Inr (mode, n)"
  then have "n = 0 \<or> (\<exists>v. get_sint v = Inr n)"
    by (auto simp: parse_stream_def bindR_eq_Inr split: option.splits)
  then show ?thesis
  proof
    assume "\<exists>v. get_sint v = Inr n"
    then obtain w where "n = sint (w :: u32)" by (auto simp: get_sint_def map_sum_eq_Inr)
    then show ?thesis using sint_lt[of w] by simp
  qed simp
qed

lemma describes_proto:
  assumes good: "good_dag V j" and app: "describes j a app"
  shows "proto_ok app"
proof -
  let ?kvs = "dag_members j"
  have dist: "distinct (map fst ?kvs)" and links: "good_links ?kvs"
    and entry: "\<forall>x \<in> set ?kvs. good_entry V (dag_name j) (map fst ?kvs) x"
    using good by (simp_all add: good_dag_def)
  have e: "set (preds_of (snd (?kvs ! i))) \<subseteq> set (map fst ?kvs)" "set (succs_of (snd (?kvs ! i))) \<subseteq> set (map fst ?kvs)"
      "length (dag_name j) + length (fst (?kvs ! i)) < 49" if "i < length ?kvs" for i
  proof -
    have "good_entry V (dag_name j) (map fst ?kvs) (fst (?kvs ! i), snd (?kvs ! i))" using entry that by simp
    then obtain ps ss where "linked_names (snd (?kvs ! i)) ''predecessors'' = Some ps" "set ps \<subseteq> set (map fst ?kvs)"
      "linked_names (snd (?kvs ! i)) ''successors'' = Some ss" "set ss \<subseteq> set (map fst ?kvs)"
      "length (dag_name j) + length (fst (?kvs ! i)) < 49" by (rule good_entryD)
    then show "set (preds_of (snd (?kvs ! i))) \<subseteq> set (map fst ?kvs)" "set (succs_of (snd (?kvs ! i))) \<subseteq> set (map fst ?kvs)"
      "length (dag_name j) + length (fst (?kvs ! i)) < 49" by simp_all
  qed
  have node: "shell (dag_name j) a ?kvs i (nodes app ! i)" "pred (nodes app ! i) = positions ?kvs (preds_of (snd (?kvs ! i)))"
      "succ (nodes app ! i) = positions ?kvs (succs_of (snd (?kvs ! i)))" if "i < length ?kvs" for i
    using app that by (auto simp: describes_def linked_up_def)
  have len: "length (nodes app) = length ?kvs" "task_count app = int (length ?kvs)" using app by (simp_all add: describes_def)
  have "mode_ok app"
    using good app parse_stream_bound[of j] by (auto simp: good_dag_def good_stream_def describes_def mode_ok_def)
  moreover have "linked (nodes app)"
    unfolding linked_def len
  proof (intro allI impI)
    fix i k assume i: "i < length ?kvs" and k: "k < length ?kvs"
    have "fst (?kvs ! k) \<in> set (succs_of (snd (?kvs ! i))) \<longleftrightarrow> fst (?kvs ! i) \<in> set (preds_of (snd (?kvs ! k)))"
      using links nth_mem[OF i] nth_mem[OF k] by (fastforce simp: good_links_def)
    then show "Some k \<in> set (succ (nodes app ! i)) \<longleftrightarrow> Some i \<in> set (pred (nodes app ! k))"
      using in_positions[OF dist e(2)[OF i] k] in_positions[OF dist e(1)[OF k] i] by (simp add: node(2)[OF k] node(3)[OF i])
  qed
  moreover have "\<exists>k<length ?kvs. l = Some k" if "i < length ?kvs" "l \<in> set (pred (nodes app ! i)) \<union> set (succ (nodes app ! i))" for i l
    using that positions_valid[OF dist e(1)[OF that(1)]] positions_valid[OF dist e(2)[OF that(1)]]
    by (auto simp: node(2,3)[OF that(1)])
  moreover have "task_id (nodes app ! i) = int i \<and> length (task_name (nodes app ! i)) < 50 \<and>
      length (assigned_resource_name (nodes app ! i)) < 25" if "i < length ?kvs" for i
    using node(1)[OF that] e(3)[OF that] by (simp add: shell_def)
  ultimately show ?thesis using len by (simp add: proto_ok_def)
qed

lemma parse_dag_good:
  assumes V: "\<forall>p. dlopen V p \<noteq> None" and fl: "dag_file V path = Parsed j" and good: "good_dag V j"
  shows "\<exists>s' app. parse_dag_and_binary V path s = Inr (next_addr s, s') \<and> dapps s' = (dapps s)(next_addr s \<mapsto> app) \<and>
    describes j (next_addr s) app \<and> next_addr s < next_addr s' \<and>
    plain_change s (s'\<lparr>dapps := dapps s, next_addr := next_addr s\<rparr>)"
proof -
  let ?kvs = "dag_members j"
  obtain so where so: "jfind j ''SharedObject'' = Some (JString so)" using good by (auto simp: good_dag_def dest!: good_stringD)
  have nm: "jfind j ''AppName'' = Some (JString (dag_name j))"
    using good by (auto simp: good_dag_def dag_name_def dest!: good_stringD)
  have dag: "jfind j ''DAG'' = Some (JObject ?kvs)"
    using good by (auto simp: good_dag_def dag_members_def split: option.splits json.splits)
  obtain vs where vs: "jfind j ''Variables'' = Some (JObject vs)" "\<forall>v \<in> set vs. good_variable (snd v)"
    using good by (auto simp: good_dag_def split: option.splits json.splits)
  obtain mode frames where stream: "parse_stream j = Inr (mode, frames)" "mode \<noteq> sequential"
    using good by (auto simp: good_dag_def good_stream_def split: sum.splits)
  obtain h s1 where h: "find_handle V (before_last (CHR ''/'') path) so s = Inr (h, s1)" "plain_change s s1"
    using find_handle_total[OF V] by blast
  let ?a = "next_addr s" and ?s1 = "s1\<lparr>next_addr := next_addr s1 + 1\<rparr>"
  from parse_variables_total[OF vs(2), of ?s1] obtain vars s2
    where vars: "foldR parse_variable vs ([], ?s1) = Inr (vars, s2)" "allocates ?s1 s2" by blast
  have "\<forall>x \<in> set ?kvs. good_entry V (dag_name j) (map fst ?kvs) x" "distinct (map fst ?kvs)"
    using good by (simp_all add: good_dag_def)
  from parse_nodes_total[OF this V stream(2), of "before_last (CHR ''/'') path" ?a h vars s2] obtain st s3
    where nds: "parse_nodes V (before_last (CHR ''/'') path) (dag_name j) ?a h mode vars ?kvs s2 = Inr (st, s3)"
      and s3: "plain_change s2 s3" and len: "length (node_list st) = length ?kvs"
      and node: "\<forall>i<length ?kvs. shell (dag_name j) ?a ?kvs i (node_list st ! i) \<and> linked_up ?kvs i (node_list st ! i)" by blast
  have addr: "next_addr s1 = ?a" using h(2) by (simp add: plain_change_def)
  define app where "app = null_dag\<lparr>variables := vars, head_nodes := node_list st, task_count := int (length ?kvs),
      stream_enable := mode, max_stream_frame_count := frames, app_name := take 49 (dag_name j), dlhandle := h\<rparr>"
  have "parse_dag_and_binary V path s = Inr (?a, set_app ?a app s3)"
    unfolding parse_dag_and_binary_def fl
    using so nm dag vs(1) stream(1) h(1) vars(1) nds addr
    by (simp add: member_as_jfind member_jfind Let_def app_def)
  moreover have plain: "plain_change s1 (s2\<lparr>next_addr := next_addr s1\<rparr>)" and le: "next_addr s1 < next_addr s2"
    using allocates_plain[OF vars(2)] vars(2) by (simp_all add: plain_change_def allocates_def)
  moreover have "describes j ?a app" using len node stream(1) by (simp add: describes_def app_def)
  moreover have "dapps (set_app ?a app s3) = (dapps s)(?a \<mapsto> app)"
    "plain_change s ((set_app ?a app s3)\<lparr>dapps := dapps s, next_addr := next_addr s\<rparr>)" "?a < next_addr (set_app ?a app s3)"
    using plain le h(2) s3 by (simp_all add: plain_change_def set_app_def)
  ultimately show ?thesis by blast
qed

text \<open>Good descriptions are all the invariant of the process asks of the files.\<close>

definition good_files :: "dag_env \<Rightarrow> bool" where
  "good_files V \<longleftrightarrow> (\<forall>p. dlopen V p \<noteq> None) \<and> (\<forall>path j. dag_file V path = Parsed j \<longrightarrow> good_dag V j)"

lemma good_files_parse: "good_files V \<Longrightarrow> parses_well V"
proof -
  assume V: "good_files V"
  have "reads_well s a s'" if run: "parse_dag_and_binary V path s = Inr (a, s')" for path s a s'
  proof (cases "dag_file V path")
    case (Parsed j)
    with V have good: "\<forall>p. dlopen V p \<noteq> None" "good_dag V j" by (auto simp: good_files_def)
    from parse_dag_good[OF good(1) Parsed good(2), of s] run describes_proto[OF good(2)] show ?thesis
      by (auto simp: reads_well_def)
  qed (use run in \<open>auto simp: parse_dag_and_binary_def reads_well_def\<close>)
  then show ?thesis by (simp add: parses_well_def)
qed

end
