(* ===== verification/Dag_Props.thy ===== *)
theory Dag_Props
  imports Dag_Read
begin

text \<open>
  The properties of the task-graph runtime, each over every state the process reaches, and a
  sample process they are tried on: one application of two nodes read from a description, and
  one processor.
\<close>

section \<open>A sample process\<close>

definition sample_node :: "string list \<Rightarrow> string list \<Rightarrow> json" where
  "sample_node ps ss = JObject [
     (''arguments'', JArray [JString ''n'']),
     (''platforms'', JArray [JObject [(''name'', JString ''cpu''), (''nodecost'', JInt 5), (''runfunc'', JString ''f'')]]),
     (''predecessors'', JArray (map (\<lambda>n. JObject [(''name'', JString n)]) ps)),
     (''successors'', JArray (map (\<lambda>n. JObject [(''name'', JString n)]) ss))]"

definition sample_json :: json where
  "sample_json = JObject [
     (''AppName'', JString ''app''),
     (''DAG'', JObject [(''A'', sample_node [] [''B'']), (''B'', sample_node [''A''] [])]),
     (''SharedObject'', JString ''app.so''),
     (''Variables'', JObject [(''n'', JObject [(''bytes'', JInt 2), (''val'', JArray [JInt 7, JInt 1])])])]"

definition sample_top :: "(addr \<Rightarrow> u64) \<Rightarrow> addr list \<Rightarrow> addr" where
  "sample_top f q = foldr (\<lambda>a b. if f a \<le> f b then a else b) q (hd q)"

definition sample_env :: dag_env where
  "sample_env = \<lparr>dcfg = (ConfigManager False)\<lparr>dc_resource_array := [1, 0, 0, 0]\<rparr>,
     dlopen = (\<lambda>_. Some 1000), dlsym = (\<lambda>_ _. Some 2000), dag_file = (\<lambda>_. Parsed sample_json), node_cost = get_int,
     pq_top = sample_top, random_period = (\<lambda>_ _. 0), std_sort = (\<lambda>key q. sort_key (\<lambda>p. - key p) q),
     std_shuffle = (\<lambda>_ q. q), nn_run = (\<lambda>_. []), nn_predict = (\<lambda>_. 0)\<rparr>"

definition sample_hw :: dag_hw where
  "sample_hw = \<lparr>dwt = \<lparr>todo_task_dequeue = [], completed_task_dequeue = [], resource_state = 0, resource_name = ''Core 1'',
     thread_resource_type = Cpu, resource_cluster_idx = 0, todo_dequeue_time = 0, thread_avail_time = 0\<rparr>, dpc = DTop, last_avail = 0\<rparr>"

definition sample_boot :: drt where
  "sample_boot = \<lparr>dapps = Map.empty, blocks = Map.empty, next_addr = 1, unarrived_apps = [], arrived_nonstreaming = [],
     arrived_streaming = [], completed_apps = [], ready_queue = [], dpes = [sample_hw], sharedObjectMap = Map.empty,
     applicationMap = Map.empty, appNum = 0, schedule_cache = Map.empty, rand_resource = 0, met_resource_idx = 0,
     free_resource_count = 1, rt_clock = (\<lambda>n. 10 * int n + 10), rt_ticks = 0, nn_inputs = [], stream_timing_log = [],
     lib_globals = (\<lambda>_. 0), calls = []\<rparr>"

definition sample_message :: ipc_message where
  "sample_message = zero_message\<lparr>path_to_so := ''app.json'' @ replicate 2048 NUL,
     num_instances := 1 # replicate 7 0, periodicity := replicate 8 0\<rparr>"

lemma dag_sample_slots: "read_slots sample_message [0..<8] = [(''app.json'', 1, 0)]"
  by (simp add: sample_message_def c_string_def upt_rec NUL_def)

lemma sample_inject: "inject_message sample_env sample_message s = inject_slot sample_env (''app.json'', 1, 0) s"
  by (cases "inject_slot sample_env (''app.json'', 1, 0) s") (simp_all add: inject_message_def dag_sample_slots)

lemma sample_good: "good_dag sample_env sample_json"
  by code_simp

lemma sample_top_least: "q \<noteq> [] \<Longrightarrow> sample_top f q \<in> set q \<and> (\<forall>a \<in> set q. f (sample_top f q) \<le> f a)"
proof -
  let ?pick = "\<lambda>a b. if f a \<le> f b then a else b"
  have pick: "foldr ?pick q x \<in> insert x (set q) \<and> (\<forall>a \<in> insert x (set q). f (foldr ?pick q x) \<le> f a)" for x
    by (induction q) (auto intro: order_trans[OF less_imp_le])
  assume "q \<noteq> []"
  then have "insert (hd q) (set q) = set q" by (simp add: insert_absorb)
  then show ?thesis using pick[of "hd q"] by (simp add: sample_top_def)
qed

section \<open>The states the process reaches\<close>

definition good_setting :: "dag_env \<Rightarrow> bool" where
  "good_setting V \<longleftrightarrow> dag_env_ok V \<and> dc_scheduler (dcfg V) \<noteq> ''DNN'' \<and> good_files V"

definition reachable :: "dag_env \<Rightarrow> drt \<Rightarrow> bool" where
  "reachable V s \<longleftrightarrow> (\<exists>s0. booted s0 \<and> (dag_step V)\<^sup>*\<^sup>* s0 s)"

lemma dag_reachable_ok: "good_setting V \<Longrightarrow> reachable V s \<Longrightarrow> dag_ok s"
  unfolding reachable_def good_setting_def
  using dag_ok_reachable good_files_parse by (auto simp: dag_setting_def)

lemma reachable_step: "reachable V s \<Longrightarrow> dag_step V s s' \<Longrightarrow> reachable V s'"
  unfolding reachable_def by (meson rtranclp.rtrancl_into_rtrancl)

lemma sample_setting: "good_setting sample_env"
proof -
  have "mset (sort_key (\<lambda>p. - key p) q) = mset q \<and> sorted_wrt (\<lambda>a b. key b \<le> key a) (sort_key (\<lambda>p. - key p) q)"
    for key :: "task_ptr \<Rightarrow> int" and q
    using sorted_sort_key[of "\<lambda>p. - key p" q] by (simp add: sorted_wrt_map sorted_map)
  moreover have "good_files sample_env"
    using sample_good by (simp add: good_files_def) (simp add: sample_env_def)
  ultimately show ?thesis
    using sample_top_least by (auto simp: good_setting_def dag_env_ok_def sample_env_def ConfigManager_def)
qed

lemma dag_sample_booted: "booted sample_boot"
  by (simp add: booted_def sample_boot_def sample_hw_def live_def arrived_def held_def in_hand_def)

text \<open>The application is injected and arrives; its first node waits in the ready queue.\<close>

definition sample_start :: "dag_error + drt" where
  "sample_start = bindR (inject_slot sample_env (''app.json'', 1, 0) sample_boot) (arrivals sample_env)"

definition sample_state :: drt where
  "sample_state = projr sample_start"

lemma sample_started: "case sample_start of Inl e \<Rightarrow> False
   | Inr s \<Rightarrow> ready_queue s = [(3, 0)] \<and> arrived_nonstreaming s = [3] \<and> arrived_streaming s = [] \<and> length (dpes s) = 1 \<and>
       map_option (\<lambda>app. map succ (nodes app)) (dapps s 3) = Some [[Some 1], []]"
  by code_simp

lemma sample_reachable: "reachable sample_env sample_state" "ready_queue sample_state = [(3, 0)]"
  "arrived_nonstreaming sample_state = [3]" "arrived_streaming sample_state = []" "length (dpes sample_state) = 1"
  "map_option (\<lambda>app. map succ (nodes app)) (dapps sample_state 3) = Some [[Some 1], []]"
proof -
  from sample_started obtain s where s: "sample_start = Inr s" "ready_queue s = [(3, 0)]" "arrived_nonstreaming s = [3]"
    "arrived_streaming s = []" "length (dpes s) = 1" "map_option (\<lambda>app. map succ (nodes app)) (dapps s 3) = Some [[Some 1], []]"
    by (auto split: sum.splits)
  then have eq: "sample_state = s" unfolding sample_state_def s(1) by simp
  from s(1) obtain s1 where s1: "inject_slot sample_env (''app.json'', 1, 0) sample_boot = Inr s1" "arrivals sample_env s1 = Inr s"
    by (auto simp: sample_start_def bindR_eq_Inr)
  then have "dag_step sample_env sample_boot s1" "dag_step sample_env s1 s"
    using dag_step.inject[of sample_env sample_message] dag_step.arrive by (simp_all add: sample_inject)
  moreover have "reachable sample_env sample_boot" using dag_sample_booted by (auto simp: reachable_def)
  ultimately show "reachable sample_env sample_state" using reachable_step eq by metis
  show "ready_queue sample_state = [(3, 0)]" "arrived_nonstreaming sample_state = [3]" "arrived_streaming sample_state = []"
    "length (dpes sample_state) = 1" "map_option (\<lambda>app. map succ (nodes app)) (dapps sample_state 3) = Some [[Some 1], []]"
    using s eq by simp_all
qed

lemma sample_in_flight: "(3, 0) \<in># flight sample_state" "3 \<in> set (arrived sample_state)"
  using sample_reachable by (simp_all add: flight_def arrived_def)

section \<open>Invariants\<close>

text \<open>
  C7: in every state the process reaches, a task that is in the ready queue or with a worker
  is there once, belongs to an arrived application, and may execute: each of its predecessors
  is ahead of it, each of its successors leaves room for its next frame, and frames remain.
\<close>

theorem dag_tasks_enabled:
  assumes "good_setting V" and "reachable V s" and p: "p \<in># flight s"
  shows "count (flight s) p = 1 \<and> fst p \<in> set (arrived s) \<and> (\<exists>app. dapps s (fst p) = Some app \<and>
    snd p < length (nodes app) \<and> in_ready_queue (nodes app ! snd p) \<and> frames_at app (snd p) < frame_limit app \<and>
    (\<forall>j. (j, snd p) \<in> edges_of app \<longrightarrow> frames_at app (snd p) < frames_at app j) \<and>
    (\<forall>j. (snd p, j) \<in> edges_of app \<longrightarrow> frames_at app (snd p) < frames_at app j + buffers app))"
proof -
  have tasks: "tasks_ok (flight s) s" using dag_reachable_ok[OF assms(1,2)] by (simp add: dag_ok_def)
  from tasks_okD[OF tasks p] obtain app where app: "fst p \<in> set (arrived s)" "dapps s (fst p) = Some app"
    "active (fst p) app (started (flight s) (fst p))" "snd p \<in> started (flight s) (fst p)" by metis
  then have "mg.may_start app (frames_at app) (snd p)" and q: "snd p < length (nodes app) \<longrightarrow> in_ready_queue (nodes app ! snd p)"
    by (auto simp: active_def app_state_def mg.flow_def)
  moreover have "count (flight s) p = 1"
    using tasks p by (simp add: tasks_ok_def) (metis One_nat_def Suc_leI count_greater_zero_iff le_antisym)
  ultimately show ?thesis using app(1,2) q by (auto simp: may_start_iff inputs_ready_def outputs_free_def)
qed

theorem dag_tasks_enabled_witness:
  "count (flight sample_state) (3, 0) = 1 \<and> (\<exists>app. dapps sample_state 3 = Some app \<and> in_ready_queue (nodes app ! 0))"
  using dag_tasks_enabled[OF sample_setting sample_reachable(1) sample_in_flight(1)] by auto

text \<open>
  C12: between two linked nodes of an arrived application there is never a negative number of
  frames, and never more than one, or two with double buffering; no node passes the limit.
\<close>

theorem dag_buffers_bounded:
  assumes "good_setting V" and "reachable V s" and "a \<in> set (arrived s)"
  shows "\<exists>app. dapps s a = Some app \<and>
    (\<forall>i j. (i, j) \<in> edges_of app \<longrightarrow> frames_at app j \<le> frames_at app i \<and> frames_at app i \<le> frames_at app j + buffers app) \<and>
    (\<forall>i<length (nodes app). frames_at app i \<le> frame_limit app) \<and> buffers app \<le> 2"
proof -
  from arrived_app[OF dag_reachable_ok[OF assms(1,2)] assms(3)] obtain app where
    app: "dapps s a = Some app" "active a app (started (flight s) a)" by metis
  have "buffers app \<le> 2" by (simp add: buffers_def)
  with active_bounded[OF app(2)] app(1) show ?thesis by (auto simp: mg.bounded_def)
qed

theorem dag_buffers_bounded_witness:
  "\<exists>app. dapps sample_state 3 = Some app \<and> (\<forall>i<length (nodes app). frames_at app i \<le> frame_limit app)"
  using dag_buffers_bounded[OF sample_setting sample_reachable(1) sample_in_flight(2)] by auto



text \<open>
  C9: the process does not deadlock. After the streaming phase, each arrived application whose
  graph has no cycle has a task in the ready queue or with a worker.
\<close>

theorem dag_never_starved:
  assumes V: "good_setting V" and s: "reachable V s" and run: "streaming_phase s = Inr s'"
    and a: "a \<in> set (arrived s')" and app: "dapps s' a = Some app" and "nodes app \<noteq> []" and "acyclic (edges_of app)"
  shows "\<exists>i. (a, i) \<in># flight s'"
proof -
  have "reachable V s'" by (rule reachable_step[OF s dag_step.stream[OF run]])
  from arrived_app[OF dag_reachable_ok[OF V this] a] app have act: "active a app (started (flight s') a)" by (metis option.inject)
  then have st: "app_state app (started (flight s') a)" and wf: "wf_app a app" and "\<not> app_finished app"
    using assms(6) by (auto simp: active_def)
  then obtain i where i: "i < length (nodes app)" "frames_at app i < frame_limit app"
    using app_finished_iff[OF st wf] active_bounded[OF act] by (fastforce simp: mg.bounded_def)
  from mg.not_stuck[OF assms(7) active_bounded[OF act] i] obtain k where k: "mg.may_start app (frames_at app) k" by blast
  have "k \<in> started (flight s') a"
  proof (cases "stream_enable app = non_streaming")
    case True
    with act k show ?thesis by (simp add: active_def eager_def)
  next
    case False
    from streaming_phase_ok[OF dag_reachable_ok[OF V s]] run have set: "same_lists s s'" "\<forall>b \<in> set (arrived_streaming s). \<forall>k. settled b k s'"
      by auto
    have "lists_ok s'" using dag_reachable_ok[OF V \<open>reachable V s'\<close>] by (simp add: dag_ok_def)
    then have "a \<in> set (arrived_streaming s)"
      using a app False set(1) by (auto simp: lists_ok_def arrived_def same_lists_def)
    with set(2) app k show ?thesis by (auto simp: settled_def)
  qed
  then show ?thesis by (auto simp: started_def)
qed

lemma sample_graph:
  obtains app where "dapps sample_state 3 = Some app" and "length (nodes app) = 2" and "edges_of app = {(0, 1)}"
proof -
  from sample_reachable(6) obtain app where app: "dapps sample_state 3 = Some app" "map succ (nodes app) = [[Some 1], []]" by auto
  have len: "length (nodes app) = 2" using arg_cong[OF app(2), of length] by simp
  have "succ (nodes app ! 0) = [Some 1]" "succ (nodes app ! 1) = []"
    using arg_cong[OF app(2), of "\<lambda>xs. xs ! 0"] arg_cong[OF app(2), of "\<lambda>xs. xs ! 1"] len by simp_all
  then have "edges_of app = {(0, 1)}" using len by (auto simp: edges_of_def less_2_cases_iff)
  with app(1) len that show thesis by blast
qed

theorem dag_never_starved_witness: "\<exists>i. (3, i) \<in># flight sample_state"
proof -
  obtain app where app: "dapps sample_state 3 = Some app" "length (nodes app) = 2" "edges_of app = {(0, 1)}" by (rule sample_graph)
  have "acyclic {(0, 1 :: nat)}" by (simp add: acyclic_insert) (simp add: acyclic_def)
  moreover have "streaming_phase sample_state = Inr sample_state" by (simp add: streaming_phase_def sample_reachable(4))
  moreover have "nodes app \<noteq> []" using app(2) by auto
  ultimately show ?thesis
    using dag_never_starved[OF sample_setting sample_reachable(1) _ sample_in_flight(2) app(1)] app(3) by simp
qed

text \<open>
  C10: an application is completed exactly when every node has executed as many frames as asked:
  in the list of completed applications all of them have, and in an arrived application with
  nodes at least one has not.
\<close>

theorem dag_completed_all_frames:
  assumes "good_setting V" and "reachable V s"
  shows "(\<forall>a \<in> set (completed_apps s). \<exists>app. dapps s a = Some app \<and> (\<forall>i<length (nodes app). frames_at app i = frame_limit app)) \<and>
    (\<forall>a \<in> set (arrived s). \<exists>app. dapps s a = Some app \<and> (nodes app = [] \<or> (\<exists>i<length (nodes app). frames_at app i < frame_limit app)))"
proof -
  have ok: "dag_ok s" by (rule dag_reachable_ok[OF assms])
  then have "\<forall>a \<in> set (completed_apps s). \<exists>app. dapps s a = Some app \<and> all_done a app" by (simp add: dag_ok_def lists_ok_def)
  moreover have "\<exists>app. dapps s a = Some app \<and> (nodes app = [] \<or> (\<exists>i<length (nodes app). frames_at app i < frame_limit app))"
    if a: "a \<in> set (arrived s)" for a
  proof -
    from arrived_app[OF ok a] obtain app where app: "dapps s a = Some app" "active a app (started (flight s) a)" by metis
    show ?thesis
    proof (cases "nodes app = []")
      case False
      with app(2) have "app_state app (started (flight s) a)" "wf_app a app" "\<not> app_finished app" by (auto simp: active_def)
      with app_finished_iff[of app "started (flight s) a" a] active_bounded[OF app(2)]
      have "\<exists>i<length (nodes app). frames_at app i < frame_limit app" by (fastforce simp: mg.bounded_def)
      with app(1) show ?thesis by blast
    qed (use app(1) in blast)
  qed
  ultimately show ?thesis by (auto simp: all_done_def)
qed

theorem dag_completed_all_frames_witness:
  "\<exists>app. dapps sample_state 3 = Some app \<and> (nodes app = [] \<or> (\<exists>i<length (nodes app). frames_at app i < frame_limit app))"
  using dag_completed_all_frames[OF sample_setting sample_reachable(1)] sample_in_flight(2) by blast

section \<open>Scheduling\<close>

lemma hand_outs_lists:
  assumes "hand_outs V x x'"
  shows "dom (dapps (snd x')) = dom (dapps (snd x)) \<and> arrived (snd x') = arrived (snd x) \<and> completed_apps (snd x') = completed_apps (snd x)"
  using assms
proof (induction rule: rtranclp_induct)
  case (step y z)
  from step(2) have "dom (dapps (snd z)) = dom (dapps (snd y)) \<and> arrived (snd z) = arrived (snd y) \<and> completed_apps (snd z) = completed_apps (snd y)"
  proof (cases rule: hand_out.cases)
    case (give p M s t i th s2 a)
    from give(4) obtain app where app: "dapps s (fst p) = Some app" by (auto simp: node_at_def split: Option.bind_splits)
    note eq = core_eqD[OF give(7)]
    have "dapps s2 = (dapps s)(fst p \<mapsto> set_at app (snd p) (assigned th))"
      unfolding eq(1) by (simp add: set_worker_def dapps_set_node[OF app])
    then show ?thesis using give(1,2) eq app by (auto simp: arrived_def set_worker_def)
  next
    case (skip s2 s M)
    then show ?thesis using core_eqD[OF skip(3)] by (simp add: arrived_def)
  qed
  with step.IH show ?case by simp
qed simp

lemma inject_one_instance:
  assumes other: "proto_ok other" "dapps s prototype = Some other" and run: "inject_one V prototype period acc s = Inr (acc', s')"
  shows "\<exists>app. dapps s' = (dapps s)(next_addr s \<mapsto> app) \<and> unarrived_apps s' = unarrived_apps s @ [next_addr s] \<and>
    wf_app (next_addr s) app \<and> fresh_app app \<and> edges_of app = edges_of other \<and>
    frame_limit app = frame_limit other \<and> buffers app = buffers other"
proof -
  obtain now s0 where t: "tick s = (now, s0)" by (cases "tick s")
  let ?s0 = "s0\<lparr>next_addr := next_addr s0 + 1\<rparr>"
  have plain: "plain_change s s0" by (rule plain_tick[OF t])
  then have same: "dapps s0 = dapps s" "next_addr s0 = next_addr s" by (simp_all add: plain_change_def)
  define new where "new t n app = app\<lparr>app_id := n, completed_task_count := 0, arrival_time := t, head_nodes := map (reset_node n) (nodes app)\<rparr>"
    for t n and app :: dag_app
  from run t other same obtain app s1 where assign: "app_assign (next_addr s) other ?s0 = Inr (app, s1)"
    and s': "s' = (set_app (next_addr s) (new (word_of_int now + acc * word_of_int US2NANOSEC) (appNum s1) app) s1)\<lparr>
        appNum := appNum s1 + 1, unarrived_apps := unarrived_apps s1 @ [next_addr s]\<rparr>"
    by (auto simp: inject_one_def Let_def bindR_eq_Inr the_app_def new_def)
  note spec = app_assign_Inr[OF assign other(1)]
  let ?new = "new (word_of_int now + acc * word_of_int US2NANOSEC) (appNum s1) app"
  have "plain_change ?s0 (s1\<lparr>next_addr := next_addr ?s0\<rparr>)" by (rule allocates_plain[OF spec(1)])
  with same plain have "dapps s' = (dapps s)(next_addr s \<mapsto> ?new)" "unarrived_apps s' = unarrived_apps s @ [next_addr s]"
    by (simp_all add: s' set_app_def plain_change_def)
  moreover have "wf_app (next_addr s) ?new" "fresh_app ?new" using instance_ok[OF assign other(1)] by (simp_all add: new_def)
  moreover have "edges_of ?new = edges_of other" using spec(2,6) by (auto simp: edges_of_def new_def)
  moreover have "frame_limit ?new = frame_limit other" "buffers ?new = buffers other"
    using spec(4,5) by (simp_all add: frame_limit_def buffers_def new_def)
  ultimately show ?thesis by blast
qed

text \<open>
  C13: a scheduling round of every policy but DNN is a sequence of hand-outs: each gives one
  task of the ready queue to a worker that supports it and may take it. No task is lost or
  doubled, and nothing but the nodes, the workers and the policies' statics changes.
\<close>

theorem dag_scheduling_hands_out:
  assumes "dag_env_ok V" and "dc_scheduler (dcfg V) \<noteq> ''DNN''" and "performScheduling V s = Inr s'"
  shows "(\<exists>s1. hand_outs V (mset (ready_queue s), s) (mset (ready_queue s'), s1) \<and> s' = s1\<lparr>ready_queue := ready_queue s'\<rparr>) \<and>
    mset (ready_queue s') + queued s' = mset (ready_queue s) + queued s \<and>
    dom (dapps s') = dom (dapps s) \<and> arrived s' = arrived s \<and> completed_apps s' = completed_apps s"
proof -
  from performScheduling_hand_outs[OF assms] obtain s1 where
    out: "hand_outs V (mset (ready_queue s), s) (mset (ready_queue s'), s1)" and s': "s' = s1\<lparr>ready_queue := ready_queue s'\<rparr>" .
  have "queued s' = queued s1" by (subst s') (simp add: queued_def)
  with hand_outs_queued[OF out] have "mset (ready_queue s') + queued s' = mset (ready_queue s) + queued s" by simp
  moreover have "dom (dapps s1) = dom (dapps s) \<and> arrived s1 = arrived s \<and> completed_apps s1 = completed_apps s"
    using hand_outs_lists[OF out] by simp
  then have "dom (dapps s') = dom (dapps s) \<and> arrived s' = arrived s \<and> completed_apps s' = completed_apps s"
    by (subst (1 2 3) s') (simp add: arrived_def)
  ultimately show ?thesis using out s' by blast
qed

text \<open>One round on the sample: the waiting node goes to the processor.\<close>

lemma dag_sample_round: "case bindR sample_start (performScheduling sample_env) of Inl e \<Rightarrow> False
   | Inr s \<Rightarrow> ready_queue s = [] \<and> todo_task_dequeue (dwt (dpes s ! 0)) = [(3, 0)]"
  by code_simp

theorem dag_scheduling_hands_out_witness:
  "\<exists>s'. performScheduling sample_env sample_state = Inr s' \<and> mset (ready_queue s') + queued s' = {#(3, 0)#} + queued sample_state"
proof -
  from dag_sample_round obtain s' where "bindR sample_start (performScheduling sample_env) = Inr s'" by (auto split: sum.splits)
  then obtain s where run: "sample_start = Inr s" "performScheduling sample_env s = Inr s'" by (auto simp: bindR_eq_Inr)
  then have "sample_state = s" unfolding sample_state_def run(1) by simp
  moreover have "dag_env_ok sample_env" "dc_scheduler (dcfg sample_env) \<noteq> ''DNN''"
    using sample_setting by (simp_all add: good_setting_def)
  ultimately show ?thesis
    using dag_scheduling_hands_out[of sample_env s s'] run(2) sample_reachable(2) by auto
qed

section \<open>Reading and instantiating\<close>

text \<open>
  C14: a good description is read into a prototype at a fresh address: node \<open>i\<close> is the \<open>i\<close>-th
  member of the graph, has its number, its name and the application, and its predecessors and
  successors are the positions of the names the member lists.
\<close>

theorem dag_file_read:
  assumes "\<forall>p. dlopen V p \<noteq> None" and "dag_file V path = Parsed j" and "good_dag V j"
  shows "\<exists>s' app. parse_dag_and_binary V path s = Inr (next_addr s, s') \<and> dapps s' = (dapps s)(next_addr s \<mapsto> app) \<and>
    task_count app = int (length (dag_members j)) \<and> length (nodes app) = length (dag_members j) \<and>
    parse_stream j = Inr (stream_enable app, max_stream_frame_count app) \<and>
    (\<forall>i<length (dag_members j). task_id (nodes app ! i) = int i \<and> app_pnt (nodes app ! i) = next_addr s \<and>
       task_name (nodes app ! i) = dag_name j @ ''_'' @ fst (dag_members j ! i) \<and>
       pred (nodes app ! i) = positions (dag_members j) (preds_of (snd (dag_members j ! i))) \<and>
       succ (nodes app ! i) = positions (dag_members j) (succs_of (snd (dag_members j ! i))))"
  using parse_dag_good[OF assms, of s] by (auto simp: describes_def shell_def linked_up_def)

theorem dag_file_read_witness:
  "\<exists>s' app. parse_dag_and_binary sample_env ''app.json'' sample_boot = Inr (1, s') \<and> dapps s' 1 = Some app \<and>
     task_count app = 2 \<and> pred (nodes app ! 1) = [Some 0] \<and> succ (nodes app ! 0) = [Some 1]"
proof -
  have "positions (dag_members sample_json) (preds_of (snd (dag_members sample_json ! 1))) = [Some 0]"
    "positions (dag_members sample_json) (succs_of (snd (dag_members sample_json ! 0))) = [Some 1]"
    "length (dag_members sample_json) = 2" by code_simp+
  moreover have "next_addr sample_boot = 1" by (simp add: sample_boot_def)
  moreover have "\<forall>p. dlopen sample_env p \<noteq> None" "dag_file sample_env ''app.json'' = Parsed sample_json"
    by (simp_all add: sample_env_def)
  ultimately show ?thesis using dag_file_read[OF _ _ sample_good, of "''app.json''" sample_boot] by fastforce
qed

text \<open>
  C15: an instance of a prototype read from a good description is a well-formed application
  that has run nothing yet, with the graph, the streaming mode and the frame limit of the
  description; it waits at a fresh address. Injecting keeps every other application.
\<close>

theorem dag_instance_well_formed:
  assumes "good_dag V j" and "dapps s prototype = Some other" and "describes j a0 other"
    and "inject_one V prototype period acc s = Inr (acc', s')"
  shows "\<exists>app. dapps s' = (dapps s)(next_addr s \<mapsto> app) \<and> unarrived_apps s' = unarrived_apps s @ [next_addr s] \<and>
    wf_app (next_addr s) app \<and> fresh_app app \<and> edges_of app = edges_of other \<and>
    frame_limit app = frame_limit other \<and> buffers app = buffers other"
  by (rule inject_one_instance[OF describes_proto[OF assms(1,3)] assms(2,4)])

lemma sample_instance:
  "\<not> isl (bindR (parse_dag_and_binary sample_env ''app.json'' sample_boot) (\<lambda>(a, s). inject_one sample_env a 0 0 s))"
  by code_simp

theorem dag_instance_well_formed_witness:
  "\<exists>s acc' s' app. inject_one sample_env 1 0 0 s = Inr (acc', s') \<and> dapps s' (next_addr s) = Some app \<and> wf_app (next_addr s) app \<and> fresh_app app"
proof -
  have env: "\<forall>p. dlopen sample_env p \<noteq> None" "dag_file sample_env ''app.json'' = Parsed sample_json"
    by (simp_all add: sample_env_def)
  have "next_addr sample_boot = 1" by (simp add: sample_boot_def)
  with parse_dag_good[OF env sample_good, of sample_boot] obtain s app0 where
    s: "parse_dag_and_binary sample_env ''app.json'' sample_boot = Inr (1, s)" "dapps s 1 = Some app0" "describes sample_json 1 app0"
    by auto
  from sample_instance s(1) obtain acc' s' where run: "inject_one sample_env 1 0 0 s = Inr (acc', s')"
    by (auto simp: not_isl_iff)
  with dag_instance_well_formed[OF sample_good s(2,3) run] show ?thesis by fastforce
qed

section \<open>Defects\<close>

text \<open>
  C26: the DNN policy loses a task. When the network names no processing element for a task, the
  flag still says that the task before it was placed, so the task is erased from the ready queue
  without being given to any worker.
\<close>

theorem scheduleDNN_loses_task:
  assumes "dnn_body V p1 (False, s) = Some (True, True, s1)" and "getPrediction V p2 0 s1 = Some (idx, s2)"
    and "getTotalResources (dcfg V) \<le> word_of_int idx"
  shows "scheduleDNN V [p1, p2] s = Some (2, [], s2) \<and> queued s2 = queued s1 \<and> dapps s2 = dapps s1"
proof -
  have "dnn_body V p2 (True, s1) = Some (True, True, s2)"
    using assms(2,3) by (simp add: dnn_body_def predicted_body_def not_less[symmetric] del: not_less)
  with assms(1) have "scheduleDNN V [p1, p2] s = Some (2, [], s2)" by (simp add: scheduleDNN_def)
  moreover have "core s2 = core s1" by (rule core_getPrediction[OF assms(2)])
  ultimately show ?thesis using queued_core[of s2 s1] core_eqD(1)[of s2 s1] by simp
qed

text \<open>Two ready tasks, and a network that names a second processor once the first is busy.\<close>

definition sample_pair :: drt where
  "sample_pair = (let t = null_node\<lparr>app_pnt := 1, supported_resources := {Cpu}, estimated_execution := [50, 0, 0, 0]\<rparr>
     in sample_boot\<lparr>dapps := [1 \<mapsto> null_dag\<lparr>head_nodes := [t, t\<lparr>task_id := 1\<rparr>], task_count := 2, dlhandle := 1000\<rparr>],
       nn_inputs := replicate 19 0, dpes := [sample_hw, sample_hw]\<rparr>)"

definition sample_dnn :: dag_env where
  "sample_dnn = sample_env\<lparr>nn_run := (\<lambda>inputs. if 0 < hd inputs then [0, 1, 0, 0, 0, 0] else [1, 0, 0, 0, 0, 0])\<rparr>"

lemma sample_dnn_first: "case dnn_body sample_dnn (1, 0) (False, sample_pair) of None \<Rightarrow> False
  | Some (ok, ok', s1) \<Rightarrow> ok \<and> ok' \<and> (case getPrediction sample_dnn (1, 1) 0 s1 of None \<Rightarrow> False
      | Some (idx, s2) \<Rightarrow> getTotalResources (dcfg sample_dnn) \<le> word_of_int idx)"
  by code_simp

theorem scheduleDNN_loses_task_witness:
  "\<exists>s1 s2. scheduleDNN sample_dnn [(1, 0), (1, 1)] sample_pair = Some (2, [], s2) \<and> queued s2 = queued s1"
proof -
  from sample_dnn_first obtain s1 idx s2 where "dnn_body sample_dnn (1, 0) (False, sample_pair) = Some (True, True, s1)"
    "getPrediction sample_dnn (1, 1) 0 s1 = Some (idx, s2)" "getTotalResources (dcfg sample_dnn) \<le> word_of_int idx"
    by (auto split: option.splits prod.splits)
  from scheduleDNN_loses_task[OF this] show ?thesis by blast
qed

text \<open>
  Submitting a file that does not open crashes the process: the null pointer of the reader
  is stored as the prototype of that name and dereferenced for the first instance.
\<close>

theorem missing_file_crashes:
  assumes "dag_file V path = NotOpened" and "applicationMap s (after_last (CHR ''/'') path) = None"
    and "num \<noteq> 0" and "dapps s 0 = None"
  shows "inject_slot V (path, num, period) s = Inl Undefined"
proof -
  obtain n where "unat num = Suc n" using assms(3) by (metis not0_implies_Suc unat_eq_zero)
  then show ?thesis
    using assms by (simp add: inject_slot_def parse_dag_and_binary_def inject_one_def tick_def the_app_def Let_def)
qed

theorem missing_file_crashes_witness:
  "inject_slot (sample_env\<lparr>dag_file := \<lambda>_. NotOpened\<rparr>) (''x.json'', 2, 0) sample_boot = Inl Undefined"
  by (rule missing_file_crashes) (simp_all add: sample_boot_def)

text \<open>
  An instance's buffer can be too small. For a pointer variable the reader allocates the
  requested number of bytes, but the copy of an instance allocates as many as the pointer has.
\<close>

theorem instance_buffer_is_eight_bytes:
  assumes "jfind v ''bytes'' = Some (JInt 8)" and "jfind v ''val'' = None" and "jfind v ''is_ptr'' = Some (JBool True)"
    and "jfind v ''ptr_alloc_bytes'' = Some (JInt n)" and "0 \<le> n" "n < 2 ^ 64"
  shows "\<exists>var s1 p. parse_variable (name, v) ([], s) = Inr ([(name, var)], s1) \<and>
    blocks s1 (heap_ptr var) = Some (Pointer p) \<and> blocks s1 p = Some (zero_block (nat n)) \<and>
    (\<exists>var' s2 p'. copy_variable (name, var) s1 = Inr ((name, var'), s2) \<and>
       blocks s2 (heap_ptr var') = Some (Pointer p') \<and> blocks s2 p' = Some (zero_block 8))"
proof -
  have "unat (word_of_int n :: u64) = nat n"
    using assms(5,6) by (simp add: unat_eq_nat_uint uint_word_of_int)
  then show ?thesis
    using assms by (simp add: parse_variable_def member_as_jfind initial_value_def pointer_value_def get_uint_def get_ulong_def
        alloc_block_def Let_def copy_variable_def)
qed

theorem instance_buffer_is_eight_bytes_witness:
  "\<exists>var s1 p. parse_variable (''buf'', JObject [(''bytes'', JInt 8), (''is_ptr'', JBool True), (''ptr_alloc_bytes'', JInt 64)])
     ([], sample_boot) = Inr ([(''buf'', var)], s1) \<and> blocks s1 p = Some (zero_block 64) \<and>
     (\<exists>var' s2 p'. copy_variable (''buf'', var) s1 = Inr ((''buf'', var'), s2) \<and> blocks s2 p' = Some (zero_block 8))"
  using instance_buffer_is_eight_bytes[of "JObject [(''bytes'', JInt 8), (''is_ptr'', JBool True), (''ptr_alloc_bytes'', JInt 64)]"
    64 "''buf''" sample_boot] by fastforce

text \<open>
  C27: the shutdown can be lost. A worker that is executing a task when the runtime thread tells
  all workers to terminate overwrites the order when it finishes, and then waits for tasks
  for ever.
\<close>

theorem shutdown_lost:
  assumes "total_resources V \<le> length (dpes s)" and "i < total_resources V"
    and "dpc (dpes s ! i) = DExecuted p" and "todo_task_dequeue (dwt (dpes s ! i)) = []"
  shows "\<exists>s1 s2. stop_workers V s = Inr s1 \<and> resource_state (dwt (dpes s1 ! i)) = 3 \<and> dag_worker_step V i s1 = Some (Inr s2) \<and>
    (\<forall>n. dag_worker_step V i ((dag_idle i ^^ n) s2) = Some (Inr ((dag_idle i ^^ Suc n) s2)))"
proof -
  define I where "I k t \<longleftrightarrow> length (dpes t) = length (dpes s) \<and>
    (\<forall>j<length (dpes s). dpes t ! j = (if j < k then (dpes s ! j)\<lparr>dwt := (dwt (dpes s ! j))\<lparr>resource_state := 3\<rparr>\<rparr> else dpes s ! j))" for k and t :: drt
  have "\<exists>s1. stop_workers V s = Inr s1 \<and> I (length [0..<total_resources V]) s1"
    unfolding stop_workers_def
  proof (rule foldR_nth)
    show "I 0 s" by (simp add: I_def)
    show "\<exists>t'. stop_worker ([0..<total_resources V] ! k) t = Inr t' \<and> I (Suc k) t'"
      if "k < length [0..<total_resources V]" "I k t" for k t
      using that assms(1) by (auto simp: I_def stop_worker_def set_hw_def nth_list_update less_Suc_eq)
  qed
  then obtain s1 where s1: "stop_workers V s = Inr s1" "length (dpes s1) = length (dpes s)"
    "dpes s1 ! i = (dpes s ! i)\<lparr>dwt := (dwt (dpes s ! i))\<lparr>resource_state := 3\<rparr>\<rparr>"
    using assms(1,2) by (auto simp: I_def)
  let ?waits = "\<lambda>t. i < length (dpes t) \<and> dpc (dpes t ! i) = DTop \<and> resource_state (dwt (dpes t ! i)) = 0 \<and>
      todo_task_dequeue (dwt (dpes t ! i)) = []"
  obtain s2 where s2: "dag_worker_step V i s1 = Some (Inr s2)" "?waits s2"
    using s1(2,3) assms by (auto simp: dag_worker_step_def dag_finish_def set_hw_def Let_def)
  have idle: "?waits (dag_idle i t)" if "?waits t" for t
    using that by (simp add: dag_idle_def set_hw_def Let_def)
  have waits: "?waits ((dag_idle i ^^ n) s2)" for n
    by (induction n) (use s2(2) idle in simp_all)
  then have "dag_worker_step V i ((dag_idle i ^^ n) s2) = Some (Inr ((dag_idle i ^^ Suc n) s2))" for n
    by (simp add: dag_worker_step_def)
  with s1(1,3) s2(1) show ?thesis by auto
qed

theorem shutdown_lost_witness:
  "\<exists>s1. stop_workers sample_env (sample_boot\<lparr>dpes := [sample_hw\<lparr>dpc := DExecuted (3, 0)\<rparr>]\<rparr>) = Inr s1 \<and>
     resource_state (dwt (dpes s1 ! 0)) = 3"
proof -
  have "total_resources sample_env = 1" by code_simp
  then show ?thesis
    using shutdown_lost[of sample_env "sample_boot\<lparr>dpes := [sample_hw\<lparr>dpc := DExecuted (3, 0)\<rparr>]\<rparr>" 0 "(3, 0)"]
    by (auto simp: sample_hw_def)
qed

text \<open>
  C28: a task can be told the number of another. The number goes through one variable of the
  application's library, written before the call and outside every lock: when a second worker
  labels its task in between, the first task runs with the second one's number.
\<close>

theorem task_number_race:
  assumes "i \<noteq> j" "i < length (dpes s)" "j < length (dpes s)"
    and "dpc (dpes s ! i) = DLoaded p f" "dpc (dpes s ! j) = DLoaded q g"
    and "thread_resource_type (dwt (dpes s ! i)) = Cpu" "thread_resource_type (dwt (dpes s ! j)) = Cpu"
    and "the_node s p = Inr t" "the_app s (app_pnt t) = Inr app" "the_node s q = Inr u" "the_app s (app_pnt u) = Inr app'"
    and "dlsym V (dlhandle app) ''__CEDR_TASK_ID__'' = Some x" "dlsym V (dlhandle app') ''__CEDR_TASK_ID__'' = Some x"
    and "length (args t) \<le> MAX_ARGS" "f \<noteq> 0"
  shows "\<exists>s1 s2 s3 as. dag_label V i s = Inr s1 \<and> dag_label V j s1 = Inr s2 \<and> dag_run V i s2 = Inr s3 \<and>
    calls s3 = calls s @ [(f, as, word_of_int (task_id u))]"
proof -
  have frame: "the_node (set_hw k h (write_global y v r)) = the_node r" "the_app (set_hw k h (write_global y v r)) = the_app r" for k h y v r
    by (auto simp: fun_eq_iff the_node_def the_app_def node_at_def set_hw_def write_global_def split: option.splits)
  define s1 where "s1 = set_hw i ((dpes s ! i)\<lparr>dpc := DLabelled p f\<rparr>) (write_global (Some x) (word_of_int (task_id t)) s)"
  define s2 where "s2 = set_hw j ((dpes s1 ! j)\<lparr>dpc := DLabelled q g\<rparr>) (write_global (Some x) (word_of_int (task_id u)) s1)"
  have "dag_label V i s = Inr s1" using assms by (simp add: dag_label_def s1_def)
  moreover have j: "dpes s1 ! j = dpes s ! j" using assms(1) by (simp add: s1_def set_hw_def write_global_def)
  then have "dag_label V j s1 = Inr s2"
    using assms by (simp add: dag_label_def s2_def) (simp add: s1_def frame)
  moreover have "dpc (dpes s2 ! i) = DLabelled p f" "lib_globals s2 x = word_of_int (task_id u)" "calls s2 = calls s"
    using assms by (simp_all add: s2_def s1_def set_hw_def write_global_def)
  moreover have "the_node s2 p = Inr t" "the_app s2 (app_pnt t) = Inr app"
    using assms by (simp_all add: s2_def s1_def frame)
  ultimately have "\<exists>s3 as. dag_run V i s2 = Inr s3 \<and> calls s3 = calls s @ [(f, as, word_of_int (task_id u))]"
    using assms by (auto simp: dag_run_def seen_task_id_def tick_def set_hw_def set_node_def set_app_def Let_def split: option.splits)
  with \<open>dag_label V i s = Inr s1\<close> \<open>dag_label V j s1 = Inr s2\<close> show ?thesis by blast
qed

definition sample_race :: drt where
  "sample_race = sample_pair\<lparr>dpes := [sample_hw\<lparr>dpc := DLoaded (1, 0) 7\<rparr>, sample_hw\<lparr>dpc := DLoaded (1, 1) 7\<rparr>]\<rparr>"

theorem task_number_race_witness:
  "\<exists>s1 s2 s3 as. dag_label sample_env 0 sample_race = Inr s1 \<and> dag_label sample_env 1 s1 = Inr s2 \<and>
     dag_run sample_env 0 s2 = Inr s3 \<and> calls s3 = [(7, as, 1)]"
proof -
  define t where "t = null_node\<lparr>app_pnt := 1, supported_resources := {Cpu}, estimated_execution := [50, 0, 0, 0]\<rparr>"
  have apps: "dapps sample_race = [1 \<mapsto> null_dag\<lparr>head_nodes := [t, t\<lparr>task_id := 1\<rparr>], task_count := 2, dlhandle := 1000\<rparr>]"
    by (simp add: sample_race_def sample_pair_def t_def Let_def)
  then have found: "the_node sample_race (1, 0) = Inr t" "the_node sample_race (1, 1) = Inr (t\<lparr>task_id := 1\<rparr>)"
    "the_app sample_race 1 = Inr (null_dag\<lparr>head_nodes := [t, t\<lparr>task_id := 1\<rparr>], task_count := 2, dlhandle := 1000\<rparr>)"
    by (simp_all add: the_node_def node_at_def the_app_def rd_def)
  have t: "app_pnt t = 1" "args t = []" by (simp_all add: t_def null_node_def)
  have hw: "dpes sample_race = [sample_hw\<lparr>dpc := DLoaded (1, 0) 7\<rparr>, sample_hw\<lparr>dpc := DLoaded (1, 1) 7\<rparr>]"
    "calls sample_race = []" by (simp_all add: sample_race_def sample_pair_def sample_boot_def Let_def)
  show ?thesis
    using task_number_race[of 0 1 sample_race "(1, 0)" 7 "(1, 1)" 7 t _ "t\<lparr>task_id := 1\<rparr>" _ sample_env 2000] found t
    by (auto simp: hw sample_hw_def sample_env_def)
qed

lemma dag_foldR_steps:
  assumes "foldR f xs s = Inr s'" and "\<And>x s s'. x \<in> set xs \<Longrightarrow> f x s = Inr s' \<Longrightarrow> R\<^sup>*\<^sup>* s s'"
  shows "R\<^sup>*\<^sup>* s s'"
  using assms
proof (induction xs arbitrary: s)
  case (Cons x xs)
  then obtain s1 where "f x s = Inr s1" "foldR f xs s1 = Inr s'" by (auto simp: bindR_eq_Inr)
  with Cons show ?case by (meson list.set_intros rtranclp_trans)
qed simp

lemma dag_harvest_steps: "harvest_phase V s = Inr s' \<Longrightarrow> (dag_step V)\<^sup>*\<^sup>* s s'"
  unfolding harvest_phase_def
proof (erule dag_foldR_steps)
  have times: "(dag_step V)\<^sup>*\<^sup>* s s'" if "harvest_times i n s = Inr s'" for i n s s'
    using that
  proof (induction n arbitrary: s)
    case (Suc n)
    then obtain s1 where "harvest_one i s = Inr s1" "harvest_times i n s1 = Inr s'" by (auto simp: bindR_eq_Inr)
    with Suc.IH show ?case by (meson converse_rtranclp_into_rtranclp dag_step.harvest)
  qed simp
  fix i and s s' :: drt assume run: "harvest_pe V i s = Inr s'"
  show "(dag_step V)\<^sup>*\<^sup>* s s'"
  proof (cases "\<not> dc_enable_queueing (dcfg V) \<and> completed_task_dequeue (dwt (dpes s ! i)) \<noteq> []")
    case True
    let ?s = "s\<lparr>free_resource_count := free_resource_count s + 1\<rparr>"
    from True run have "harvest_times i (length (completed_task_dequeue (dwt (dpes s ! i)))) ?s = Inr s'"
      by (simp add: harvest_pe_def Let_def split: if_splits)
    with times dag_step.count show ?thesis by (meson converse_rtranclp_into_rtranclp)
  next
    case False
    then have "harvest_times i (length (completed_task_dequeue (dwt (dpes s ! i)))) s = Inr s'"
      using run by (auto simp: harvest_pe_def Let_def split: if_splits)
    then show ?thesis by (rule times)
  qed
qed


lemma sample_next: "case bindR sample_start (dag_round sample_env \<lparr>cmd_type = NOPE, message = m\<rparr> True) of Inl e \<Rightarrow> False
   | Inr (over, got, s) \<Rightarrow> \<not> over \<and> ready_queue s = []"
  by code_simp


end
